(* ===== verification/Cedar_Prelude.thy ===== *)
theory Cedar_Prelude
  imports Main "HOL-Library.Word"
begin

text \<open>
  The shared vocabulary of the development: machine words and byte strings, the
  \<^verbatim>\<open>Status\<close>/\<^verbatim>\<open>StatusOr\<close> result types of \<^verbatim>\<open>src/include/cedar/core/status.h\<close>,
  the big-endian writers and readers that the codecs under
  \<^verbatim>\<open>src/src/storage/facts\<close> all define, the bytewise key order of the storage
  engine, and the collections of rewrite rules the component theories use.
\<close>

unbundle bit_operations_syntax

named_theorems codec_simps \<open>rewrite rules that run a decoder over an encoder's output\<close>
named_theorems layout_simps \<open>lengths of encoded records\<close>
named_theorems valid_simps \<open>unfolding of the Validate methods\<close>

type_synonym u8 = "8 word"
type_synonym u16 = "16 word"
type_synonym u32 = "32 word"
type_synonym u64 = "64 word"
type_synonym bytes = "u8 list"

text \<open>ASCII literals of the source as byte strings.\<close>

definition ascii :: "string \<Rightarrow> bytes" where
  "ascii s = map of_char s"

lemma length_ascii [simp]: "length (ascii s) = length s"
  by (simp add: ascii_def)

section \<open>Status and StatusOr\<close>

text \<open>
  A \<^verbatim>\<open>Status\<close> is \<open>Inr ()\<close> when it is OK and carries a code and a message otherwise;
  a \<^verbatim>\<open>StatusOr<T>\<close> is the same sum with a value. The message is the text the
  constructor of \<^verbatim>\<open>status.cc\<close> lays out (both parts, joined by a colon and a blank
  when the second is not empty).
\<close>

datatype status_code =
    kNotFound | kCorruption | kNotSupported | kInvalidArgument | kIOError | kConflict
  | kSchemaMismatch | kParseError | kBindError | kBlobCorruption | kQueryCancelled
  | kWriteStalled | kResourceExhausted | kIndeterminate | kRecoveryRequired
  | kShutdownInProgress | kMaintenanceBackoff | kIdentityConflict | kSnapshotExpired
  | kSnapshotPinned | kUnsupportedSerializablePredicate | kDeadlineExceeded | kNumericOverflow

datatype error = Error (error_code: status_code) (error_msg: string)

type_synonym 'a status_or = "error + 'a"
type_synonym status = "unit status_or"

abbreviation OK :: status where "OK \<equiv> Inr ()"

definition Status_init :: "status_code \<Rightarrow> string \<Rightarrow> string \<Rightarrow> error" where
  "Status_init code msg msg2 =
     Error code (msg @ (if length msg2 \<noteq> 0 then '': '' @ msg2 else []))"

definition ok :: "'a status_or \<Rightarrow> bool" where
  "ok s = (case s of Inl _ \<Rightarrow> False | Inr _ \<Rightarrow> True)"

definition has_code :: "status_code \<Rightarrow> 'a status_or \<Rightarrow> bool" where
  "has_code c s = (case s of Inl e \<Rightarrow> error_code e = c | Inr _ \<Rightarrow> False)"

abbreviation Corruption :: "string \<Rightarrow> string \<Rightarrow> 'a status_or" where
  "Corruption msg msg2 \<equiv> Inl (Status_init kCorruption msg msg2)"

abbreviation InvalidArgument :: "string \<Rightarrow> string \<Rightarrow> 'a status_or" where
  "InvalidArgument msg msg2 \<equiv> Inl (Status_init kInvalidArgument msg msg2)"

abbreviation NotSupported :: "string \<Rightarrow> string \<Rightarrow> 'a status_or" where
  "NotSupported msg msg2 \<equiv> Inl (Status_init kNotSupported msg msg2)"

abbreviation QueryCancelled :: "string \<Rightarrow> string \<Rightarrow> 'a status_or" where
  "QueryCancelled msg msg2 \<equiv> Inl (Status_init kQueryCancelled msg msg2)"

abbreviation ResourceExhausted :: "string \<Rightarrow> string \<Rightarrow> 'a status_or" where
  "ResourceExhausted msg msg2 \<equiv> Inl (Status_init kResourceExhausted msg msg2)"

abbreviation BindError :: "string \<Rightarrow> string \<Rightarrow> 'a status_or" where
  "BindError msg msg2 \<equiv> Inl (Status_init kBindError msg msg2)"

abbreviation Conflict :: "string \<Rightarrow> string \<Rightarrow> 'a status_or" where
  "Conflict msg msg2 \<equiv> Inl (Status_init kConflict msg msg2)"

fun code_text :: "status_code \<Rightarrow> string" where
  "code_text kNotFound = ''NotFound: ''"
| "code_text kCorruption = ''Corruption: ''"
| "code_text kNotSupported = ''Not implemented: ''"
| "code_text kInvalidArgument = ''Invalid argument: ''"
| "code_text kIOError = ''IO error: ''"
| "code_text kConflict = ''Conflict: ''"
| "code_text kSchemaMismatch = ''SchemaMismatch: ''"
| "code_text kParseError = ''ParseError: ''"
| "code_text kBindError = ''BindError: ''"
| "code_text kBlobCorruption = ''BlobCorruption: ''"
| "code_text kQueryCancelled = ''QueryCancelled: ''"
| "code_text kDeadlineExceeded = ''DeadlineExceeded: ''"
| "code_text kNumericOverflow = ''NumericOverflow: ''"
| "code_text kWriteStalled = ''WriteStalled: ''"
| "code_text kResourceExhausted = ''ResourceExhausted: ''"
| "code_text kIndeterminate = ''Indeterminate: ''"
| "code_text kRecoveryRequired = ''RecoveryRequired: ''"
| "code_text kShutdownInProgress = ''ShutdownInProgress: ''"
| "code_text kMaintenanceBackoff = ''MaintenanceBackoff: ''"
| "code_text kIdentityConflict = ''IdentityConflict: ''"
| "code_text kSnapshotExpired = ''SnapshotExpired: ''"
| "code_text kSnapshotPinned = ''SnapshotPinned: ''"
| "code_text kUnsupportedSerializablePredicate = ''UnsupportedSerializablePredicate: ''"

definition ToString :: "'a status_or \<Rightarrow> string" where
  "ToString s = (case s of Inr _ \<Rightarrow> ''OK'' | Inl e \<Rightarrow> code_text (error_code e) @ error_msg e)"

text \<open>Early return on an error status, and the re-wrapping of one as corruption.\<close>

definition sbind :: "'a status_or \<Rightarrow> ('a \<Rightarrow> 'b status_or) \<Rightarrow> 'b status_or" where
  "sbind m f = (case m of Inl e \<Rightarrow> Inl e | Inr v \<Rightarrow> f v)"

definition as_corruption :: "string \<Rightarrow> 'a status_or \<Rightarrow> 'a status_or" where
  "as_corruption ctx s = (case s of Inl e \<Rightarrow> Corruption ctx (ToString s) | Inr v \<Rightarrow> Inr v)"

lemma sbind_simps [simp]:
  "sbind (Inl e) f = Inl e"
  "sbind (Inr v) f = f v"
  by (simp_all add: sbind_def)

lemma sbind_Inr_right [simp]: "sbind m Inr = m"
  by (cases m) simp_all

lemma sbind_cong [fundef_cong]:
  "m = m' \<Longrightarrow> (\<And>v. m' = Inr v \<Longrightarrow> f v = g v) \<Longrightarrow> sbind m f = sbind m' g"
  by (cases m') (simp_all add: sbind_def)

text \<open>
  A method that changes its object returns a status and the changed object; the next
  statement runs when the status is OK, on the changed object.
\<close>

definition and_then :: "status \<times> 's \<Rightarrow> ('s \<Rightarrow> status \<times> 's) \<Rightarrow> status \<times> 's" where
  "and_then r k = (case r of (Inl e, s) \<Rightarrow> (Inl e, s) | (Inr _, s) \<Rightarrow> k s)"

lemma and_then_simps [simp]:
  "and_then (Inl e, s) k = (Inl e, s)" "and_then (Inr u, s) k = k s"
  by (simp_all add: and_then_def)

lemma and_then_cong [fundef_cong]:
  "r = r' \<Longrightarrow> (\<And>s. r' = (OK, s) \<Longrightarrow> k s = k' s) \<Longrightarrow> and_then r k = and_then r' k'"
  by (cases r'; cases "fst r'") (auto simp: and_then_def)

lemma and_then_OK_iff:
  "and_then r k = (OK, s') \<longleftrightarrow> (\<exists>s. r = (OK, s) \<and> k s = (OK, s'))"
  by (cases r; cases "fst r") (auto simp: and_then_def)

lemma sbind_Inr_iff: "sbind m f = Inr y \<longleftrightarrow> (\<exists>v. m = Inr v \<and> f v = Inr y)"
  by (cases m) simp_all

lemma sbind_Inr_E [elim]:
  assumes "sbind m f = Inr y"
  obtains v where "m = Inr v" "f v = Inr y"
  using assms by (auto simp: sbind_Inr_iff)

lemma ok_simps [simp]: "ok (Inr v)" "\<not> ok (Inl e)"
  by (simp_all add: ok_def)

lemma not_ok_iff: "\<not> ok s \<longleftrightarrow> (\<exists>e. s = Inl e)"
  by (cases s) simp_all

lemma ok_status_iff [simp]: "ok (s :: status) \<longleftrightarrow> s = OK"
  by (cases s) simp_all

lemma as_corruption_simps [simp]:
  "as_corruption ctx (Inr v) = Inr v"
  "as_corruption ctx s = Inr w \<longleftrightarrow> s = Inr w"
  by (auto simp: as_corruption_def split: sum.splits)

lemma has_code_simps [simp]:
  "has_code c (Inr v) = False"
  "has_code c (Inl (Status_init c' m1 m2)) = (c' = c)"
  by (auto simp: has_code_def Status_init_def)

section \<open>Big-endian writers and readers\<close>

text \<open>
  \<^verbatim>\<open>AppendU16/32/64\<close> push the bytes of a value from the most significant one down;
  here each is the list of bytes it appends. \<open>be_bytes n\<close> is the common loop.
\<close>

definition be_bytes :: "nat \<Rightarrow> 'a::len word \<Rightarrow> bytes" where
  "be_bytes n v = map (\<lambda>i. ucast (drop_bit (8 * i) v)) (rev [0..<n])"

definition AppendU16 :: "u16 \<Rightarrow> bytes" where
  "AppendU16 v = [ucast (drop_bit 8 v), ucast v]"

definition AppendU32 :: "u32 \<Rightarrow> bytes" where
  "AppendU32 v = map (\<lambda>shift. ucast (drop_bit shift v)) [24, 16, 8, 0]"

definition AppendU64 :: "u64 \<Rightarrow> bytes" where
  "AppendU64 v = map (\<lambda>shift. ucast (drop_bit shift v)) [56, 48, 40, 32, 24, 16, 8, 0]"

text \<open>
  \<^verbatim>\<open>ReadU16/32/64\<close> shift the accumulated value left by one byte and or the next byte
  in. A reader takes the input and the offset and returns the value with the advanced
  offset, or nothing when fewer bytes remain than it needs.
\<close>

definition be_word :: "bytes \<Rightarrow> 'a::len word" where
  "be_word bs = foldl (\<lambda>v b. push_bit 8 v OR ucast b) 0 bs"

type_synonym 'a reader = "bytes \<Rightarrow> nat \<Rightarrow> ('a \<times> nat) option"

definition ReadU16 :: "u16 reader" where
  "ReadU16 input off =
     (if length input - off < 2 then None
      else Some (be_word (take 2 (drop off input)), off + 2))"

definition ReadU32 :: "u32 reader" where
  "ReadU32 input off =
     (if length input - off < 4 then None
      else Some (be_word (take 4 (drop off input)), off + 4))"

definition ReadU64 :: "u64 reader" where
  "ReadU64 input off =
     (if length input - off < 8 then None
      else Some (be_word (take 8 (drop off input)), off + 8))"

text \<open>One read step of a decoder: return the given error when the input is too short.\<close>

definition rbind :: "('a \<times> nat) option \<Rightarrow> 'b status_or \<Rightarrow> ('a \<Rightarrow> nat \<Rightarrow> 'b status_or) \<Rightarrow> 'b status_or" where
  "rbind r e k = (case r of None \<Rightarrow> e | Some (v, off) \<Rightarrow> k v off)"

lemma rbind_simps [simp]:
  "rbind None e k = e"
  "rbind (Some (v, off)) e k = k v off"
  by (simp_all add: rbind_def)

lemma rbind_Inr_iff:
  "rbind r (Inl e) k = Inr y \<longleftrightarrow> (\<exists>v off. r = Some (v, off) \<and> k v off = Inr y)"
  by (auto simp: rbind_def split: option.splits)

lemma has_code_rbind:
  "has_code c e \<Longrightarrow> (\<And>v off. r = Some (v, off) \<Longrightarrow> has_code c (k v off)) \<Longrightarrow>
     has_code c (rbind r e k)"
  by (auto simp: rbind_def split: option.split)

subsection \<open>The loops are inverse to each other\<close>

lemma length_be_bytes [simp]: "length (be_bytes n v) = n"
  by (simp add: be_bytes_def)

lemma be_bytes_Suc: "be_bytes (Suc n) v = ucast (drop_bit (8 * n) v) # be_bytes n v"
  by (simp add: be_bytes_def)

lemma foldl_be_bytes:
  "foldl (\<lambda>v b. push_bit 8 v OR ucast b) a (be_bytes n v)
     = push_bit (8 * n) a OR take_bit (8 * n) (v :: 'a::len word)"
proof (induction n arbitrary: a)
  case 0
  show ?case by (simp add: be_bytes_def)
next
  case (Suc n)
  have "push_bit (8 * n) (push_bit 8 a OR ucast (ucast (drop_bit (8 * n) v) :: u8)) OR take_bit (8 * n) v
      = push_bit (8 * Suc n) a OR take_bit (8 * Suc n) v"
    by (rule bit_word_eqI) (auto simp: bit_simps ac_simps)
  then show ?case by (simp add: be_bytes_Suc Suc.IH)
qed

lemma be_word_be_bytes: "LENGTH('a) \<le> 8 * n \<Longrightarrow> be_word (be_bytes n (v :: 'a::len word)) = v"
  unfolding be_word_def foldl_be_bytes by (simp add: take_bit_word_eq_self)

lemma be_word_Nil [simp]: "be_word [] = 0"
  by (simp add: be_word_def)

lemma be_word_snoc: "be_word (bs @ [b]) = push_bit 8 (be_word bs) OR ucast b"
  by (simp add: be_word_def)

lemma foldl_be_word:
  "foldl (\<lambda>v b. push_bit 8 v OR ucast b) (a :: 'a::len word) bs
     = push_bit (8 * length bs) a OR be_word bs"
proof (induction bs rule: rev_induct)
  case Nil
  show ?case by simp
next
  case (snoc b bs)
  then show ?case
    by (simp add: be_word_snoc push_bit_or or.assoc)
qed

lemma be_word_Cons:
  "be_word (b # bs) = push_bit (8 * length bs) (ucast b) OR (be_word bs :: 'a::len word)"
  using foldl_be_word [of "ucast b" bs] by (simp add: be_word_def)

lemma bit_be_word_less: "bit (be_word bs :: 'a::len word) i \<Longrightarrow> i < 8 * length bs"
proof (induction bs arbitrary: i)
  case Nil
  then show ?case by simp
next
  case (Cons b bs)
  have "bit (ucast b :: 'a word) j \<Longrightarrow> j < 8" for j
    by (auto simp: bit_simps dest: bit_imp_le_length)
  with Cons show ?case
    by (fastforce simp: be_word_Cons bit_or_iff bit_push_bit_iff)
qed

lemma be_bytes_push_bit_or: "be_bytes n (push_bit (8 * n) x OR w) = be_bytes n w"
proof (unfold be_bytes_def, rule map_cong [OF refl])
  fix j assume "j \<in> set (rev [0..<n])"
  then have "j < n" by simp
  then show "ucast (drop_bit (8 * j) (push_bit (8 * n) x OR w)) = (ucast (drop_bit (8 * j) w) :: u8)"
    by (intro bit_word_eqI) (auto simp: bit_simps)
qed

lemma be_bytes_be_word:
  "8 * length bs \<le> LENGTH('a) \<Longrightarrow> be_bytes (length bs) (be_word bs :: 'a::len word) = bs"
proof (induction bs)
  case Nil
  then show ?case by (simp add: be_bytes_def)
next
  case (Cons b bs)
  let ?w = "be_word bs :: 'a word"
  have hi: "ucast (drop_bit (8 * length bs) (push_bit (8 * length bs) (ucast b) OR ?w)) = b"
  proof (rule bit_word_eqI)
    fix i assume "i < LENGTH(8)"
    with Cons.prems bit_be_word_less [of bs "8 * length bs + i", where 'a = 'a]
    show "bit (ucast (drop_bit (8 * length bs) (push_bit (8 * length bs) (ucast b) OR ?w)) :: u8) i = bit b i"
      by (auto simp: bit_simps)
  qed
  from Cons hi show ?case
    by (simp add: be_bytes_Suc be_word_Cons be_bytes_push_bit_or)
qed

lemma AppendU16_eq: "AppendU16 v = be_bytes 2 v"
  by (simp add: AppendU16_def be_bytes_def numeral_eq_Suc)

lemma AppendU32_eq: "AppendU32 v = be_bytes 4 v"
  by (simp add: AppendU32_def be_bytes_def upt_rec)

lemma AppendU64_eq: "AppendU64 v = be_bytes 8 v"
  by (simp add: AppendU64_def be_bytes_def upt_rec)

lemmas Append_eqs = AppendU16_eq AppendU32_eq AppendU64_eq

lemma length_Append [simp, layout_simps]:
  "length (AppendU16 a) = 2" "length (AppendU32 b) = 4" "length (AppendU64 c) = 8"
  by (simp_all add: Append_eqs)

lemma be_word_Append [simp, codec_simps]:
  "be_word (AppendU16 a) = a" "be_word (AppendU32 b) = b" "be_word (AppendU64 c) = c"
  by (simp_all add: Append_eqs be_word_be_bytes)

lemma Append_be_word:
  "length s = 2 \<Longrightarrow> AppendU16 (be_word s) = s"
  "length s = 4 \<Longrightarrow> AppendU32 (be_word s) = s"
  "length s = 8 \<Longrightarrow> AppendU64 (be_word s) = s"
  using be_bytes_be_word [of s, where 'a = 16] be_bytes_be_word [of s, where 'a = 32]
    be_bytes_be_word [of s, where 'a = 64]
  by (simp_all add: Append_eqs)

text \<open>Reads keep the offset inside the input, so the unsigned subtraction never wraps.\<close>

lemma Read_bounds:
  "ReadU16 s off = Some (a, off') \<Longrightarrow> off' = off + 2 \<and> off' \<le> length s"
  "ReadU32 s off = Some (b, off') \<Longrightarrow> off' = off + 4 \<and> off' \<le> length s"
  "ReadU64 s off = Some (c, off') \<Longrightarrow> off' = off + 8 \<and> off' \<le> length s"
  by (auto simp: ReadU16_def ReadU32_def ReadU64_def split: if_splits)

text \<open>A read at the end of a known prefix returns the value that was appended there.\<close>

lemma Read_at [codec_simps]:
  "off = length pre \<Longrightarrow> ReadU16 (pre @ AppendU16 a @ rest) off = Some (a, off + 2)"
  "off = length pre \<Longrightarrow> ReadU32 (pre @ AppendU32 b @ rest) off = Some (b, off + 4)"
  "off = length pre \<Longrightarrow> ReadU64 (pre @ AppendU64 c @ rest) off = Some (c, off + 8)"
  by (simp_all add: ReadU16_def ReadU32_def ReadU64_def)

text \<open>At a concrete offset the reader skips the items before it.\<close>

lemma Read_skip [codec_simps]:
  "length xs \<le> off \<Longrightarrow> ReadU16 (xs @ s) off
     = map_option (\<lambda>(v, o'). (v, o' + length xs)) (ReadU16 s (off - length xs))"
  "length xs \<le> off \<Longrightarrow> ReadU32 (xs @ s) off
     = map_option (\<lambda>(v, o'). (v, o' + length xs)) (ReadU32 s (off - length xs))"
  "length xs \<le> off \<Longrightarrow> ReadU64 (xs @ s) off
     = map_option (\<lambda>(v, o'). (v, o' + length xs)) (ReadU64 s (off - length xs))"
  by (auto simp: ReadU16_def ReadU32_def ReadU64_def)

lemma Read_skip_Cons [codec_simps]:
  "0 < off \<Longrightarrow> ReadU16 (x # s) off
     = map_option (\<lambda>(v, o'). (v, o' + 1)) (ReadU16 s (off - 1))"
  "0 < off \<Longrightarrow> ReadU32 (x # s) off
     = map_option (\<lambda>(v, o'). (v, o' + 1)) (ReadU32 s (off - 1))"
  "0 < off \<Longrightarrow> ReadU64 (x # s) off
     = map_option (\<lambda>(v, o'). (v, o' + 1)) (ReadU64 s (off - 1))"
  using Read_skip [of "[x]" off s] by simp_all

lemma Read_here [codec_simps]:
  "ReadU16 (AppendU16 a) 0 = Some (a, 2)" "ReadU16 (AppendU16 a @ s) 0 = Some (a, 2)"
  "ReadU32 (AppendU32 b) 0 = Some (b, 4)" "ReadU32 (AppendU32 b @ s) 0 = Some (b, 4)"
  "ReadU64 (AppendU64 c) 0 = Some (c, 8)" "ReadU64 (AppendU64 c @ s) 0 = Some (c, 8)"
  by (simp_all add: ReadU16_def ReadU32_def ReadU64_def)

lemma Read_bytes:
  "ReadU16 s off = Some (a, off') \<Longrightarrow> take 2 (drop off s) = AppendU16 a"
  "ReadU32 s off = Some (b, off') \<Longrightarrow> take 4 (drop off s) = AppendU32 b"
  "ReadU64 s off = Some (c, off') \<Longrightarrow> take 8 (drop off s) = AppendU64 c"
  by (auto simp: ReadU16_def ReadU32_def ReadU64_def Append_be_word split: if_splits)

text \<open>A successful read splits the remaining input into the value's bytes and the rest.\<close>

lemma drop_split: "take n (drop off s) = x \<Longrightarrow> drop off s = x @ drop (off + n) s"
  by (metis append_take_drop_id drop_drop add.commute)

lemma Read_drop:
  "ReadU16 s off = Some (a, off') \<Longrightarrow> drop off s = AppendU16 a @ drop off' s"
  "ReadU32 s off = Some (b, off') \<Longrightarrow> drop off s = AppendU32 b @ drop off' s"
  "ReadU64 s off = Some (c, off') \<Longrightarrow> drop off s = AppendU64 c @ drop off' s"
  using Read_bounds Read_bytes drop_split by metis+

lemma nth_drop: "off < length s \<Longrightarrow> drop off s = s ! off # drop (off + 1) s"
  by (simp add: Cons_nth_drop_Suc)

lemma uncons2: "2 \<le> length s \<Longrightarrow> s = s ! 0 # s ! 1 # drop 2 s"
  by (cases s; cases "tl s") auto

section \<open>Insertion loops over a set of keys\<close>

text \<open>
  A loop that inserts the key of each element into a set and stops at the first one already
  present finishes exactly when the keys are fresh.
\<close>

definition fresh_keys :: "('a \<Rightarrow> 'k) \<Rightarrow> 'k set \<Rightarrow> 'a list \<Rightarrow> bool" where
  "fresh_keys f S xs \<longleftrightarrow> distinct (map f xs) \<and> (\<forall>x \<in> set xs. f x \<notin> S)"

lemma fresh_keys_simps [simp]:
  "fresh_keys f S []"
  "fresh_keys f S (x # xs) \<longleftrightarrow> f x \<notin> S \<and> fresh_keys f (insert (f x) S) xs"
  by (auto simp: fresh_keys_def image_iff)

lemma fresh_keys_empty: "fresh_keys f {} xs \<longleftrightarrow> distinct (map f xs)"
  by (simp add: fresh_keys_def)

lemma distinct_map_comp:
  assumes "inj_on f A" "\<forall>x \<in> set xs. g x \<in> A"
  shows "distinct (map (\<lambda>x. f (g x)) xs) \<longleftrightarrow> distinct (map g xs)"
proof -
  have "inj_on f (g ` set xs)"
    using assms by (auto intro: inj_on_subset)
  then show ?thesis
    using comp_inj_on_iff [of g "set xs" f] inj_on_imageI2 [of f g "set xs"]
    by (auto simp: distinct_map comp_def)
qed

section \<open>Bytewise key order\<close>

text \<open>
  The storage engine orders keys by its bytewise comparator: the first differing byte
  decides, and a proper prefix comes first.
\<close>

fun bytes_less :: "bytes \<Rightarrow> bytes \<Rightarrow> bool" where
  "bytes_less xs [] = False"
| "bytes_less [] (y # ys) = True"
| "bytes_less (x # xs) (y # ys) = (x < y \<or> x = y \<and> bytes_less xs ys)"

lemma bytes_less_irrefl [simp]: "\<not> bytes_less xs xs"
  by (induction xs) auto

lemma bytes_less_trans: "bytes_less xs ys \<Longrightarrow> bytes_less ys zs \<Longrightarrow> bytes_less xs zs"
proof (induction xs ys arbitrary: zs rule: bytes_less.induct)
  case (2 y ys)
  then show ?case by (cases zs) auto
next
  case (3 x xs y ys)
  then show ?case by (cases zs) auto
qed simp

lemma bytes_less_linear: "bytes_less xs ys \<or> xs = ys \<or> bytes_less ys xs"
proof (induction xs ys rule: bytes_less.induct)
  case (1 xs)
  then show ?case by (cases xs) auto
qed auto

lemma bytes_less_append_same [simp]: "bytes_less (p @ xs) (p @ ys) = bytes_less xs ys"
  by (induction p) auto

lemma unat_be_head:
  "unat (take_bit (8 * Suc n) (v :: 'a::len word))
     = 2 ^ (8 * n) * unat (ucast (drop_bit (8 * n) v) :: u8) + unat (take_bit (8 * n) v)"
proof -
  have "unat (take_bit (8 * Suc n) v) = unat v mod (2 ^ (8 * n) * 2 ^ 8)"
    unfolding unsigned_take_bit_eq by (simp add: take_bit_eq_mod power_add mult.commute)
  also have "\<dots> = 2 ^ (8 * n) * (unat v div 2 ^ (8 * n) mod 2 ^ 8) + unat v mod 2 ^ (8 * n)"
    by (rule mod_mult2_eq)
  also have "unat v div 2 ^ (8 * n) mod 2 ^ 8 = unat (ucast (drop_bit (8 * n) v) :: u8)"
    unfolding unsigned_ucast_eq unat_drop_bit_eq by (simp add: take_bit_eq_mod drop_bit_eq_div)
  also have "unat v mod 2 ^ (8 * n) = unat (take_bit (8 * n) v)"
    unfolding unsigned_take_bit_eq by (simp add: take_bit_eq_mod)
  finally show ?thesis .
qed

lemma lex_nat_less:
  fixes a b x y B :: nat
  assumes "x < B" "y < B"
  shows "B * a + x < B * b + y \<longleftrightarrow> a < b \<or> a = b \<and> x < y"
proof (cases a b rule: linorder_cases)
  case less
  then have "B * a + B \<le> B * b" by (metis Suc_leI mult_Suc_right mult_le_mono2 add.commute)
  with assms less show ?thesis by simp
next
  case greater
  then have "B * b + B \<le> B * a" by (metis Suc_leI mult_Suc_right mult_le_mono2 add.commute)
  with assms greater show ?thesis by simp
qed simp

lemma lex_nat_eq:
  fixes a b x y B :: nat
  assumes "x < B" "y < B"
  shows "B * a + x = B * b + y \<longleftrightarrow> a = b \<and> x = y"
  using lex_nat_less [OF assms, of a b] lex_nat_less [OF assms(2,1), of b a] assms
  by (metis less_irrefl linorder_neqE_nat)

lemma bytes_less_be_bytes_take:
  "bytes_less (be_bytes n v @ xs) (be_bytes n w @ ys) \<longleftrightarrow>
     take_bit (8 * n) (v :: 'a::len word) < take_bit (8 * n) w \<or>
     take_bit (8 * n) v = take_bit (8 * n) w \<and> bytes_less xs ys"
proof (induction n)
  case 0
  show ?case by (simp add: be_bytes_def)
next
  case (Suc n)
  have bnd: "unat (take_bit (8 * n) u) < 2 ^ (8 * n)" for u :: "'a word"
    by (simp add: unsigned_take_bit_eq)
  show ?case
    unfolding be_bytes_Suc append_Cons bytes_less.simps Suc word_less_nat_alt
      word_unat_eq_iff unat_be_head lex_nat_less [OF bnd bnd] lex_nat_eq [OF bnd bnd]
    by blast
qed

lemma bytes_less_be_bytes:
  "LENGTH('a) \<le> 8 * n \<Longrightarrow>
   bytes_less (be_bytes n v @ xs) (be_bytes n w @ ys) \<longleftrightarrow>
     (v :: 'a::len word) < w \<or> v = w \<and> bytes_less xs ys"
  unfolding bytes_less_be_bytes_take by (simp add: take_bit_word_eq_self)

lemma bytes_less_Append [codec_simps]:
  "bytes_less (AppendU16 a @ xs) (AppendU16 a' @ ys) \<longleftrightarrow> a < a' \<or> a = a' \<and> bytes_less xs ys"
  "bytes_less (AppendU32 b @ xs) (AppendU32 b' @ ys) \<longleftrightarrow> b < b' \<or> b = b' \<and> bytes_less xs ys"
  "bytes_less (AppendU64 c @ xs) (AppendU64 c' @ ys) \<longleftrightarrow> c < c' \<or> c = c' \<and> bytes_less xs ys"
  by (simp_all add: Append_eqs bytes_less_be_bytes)

lemma Append_inject [simp]:
  "AppendU16 a = AppendU16 a' \<longleftrightarrow> a = a'"
  "AppendU32 b = AppendU32 b' \<longleftrightarrow> b = b'"
  "AppendU64 c = AppendU64 c' \<longleftrightarrow> c = c'"
  by (metis be_word_Append)+

section \<open>Saturating arithmetic on machine words\<close>

text \<open>
  \<^verbatim>\<open>SaturatingAdd\<close> of the planner and of the controllers, on 64-bit words: the sum, or
  the largest value when the sum would wrap.
\<close>

definition SaturatingAdd :: "u64 \<Rightarrow> u64 \<Rightarrow> u64" where
  "SaturatingAdd amount tot = (if amount > - 1 - tot then - 1 else tot + amount)"

lemma unat_minus_one [simp]: "unat (- 1 :: 'a::len word) = 2 ^ LENGTH('a) - 1"
  by (simp add: unsigned_minus_1_eq_mask mask_eq_exp_minus_1)

lemma unat_minus_one_diff: "unat (- 1 - (x :: 'a::len word)) = 2 ^ LENGTH('a) - 1 - unat x"
  by (simp add: unat_sub)

lemma unat_not: "unat (NOT (x :: 'a::len word)) = 2 ^ LENGTH('a) - 1 - unat x"
proof -
  have "NOT x = - 1 - x" by (simp add: not_eq_complement)
  then show ?thesis by (simp only: unat_minus_one_diff)
qed

lemma not_less_not [simp]: "NOT x < NOT y \<longleftrightarrow> y < (x :: 'a::len word)"
  using unsigned_less [of x, where 'a = nat] unsigned_less [of y, where 'a = nat]
  unfolding word_less_nat_alt unat_not by linarith

lemma unat_of_nat_u16: "n < 65536 \<Longrightarrow> unat (of_nat n :: u16) = n"
  by (simp add: unsigned_of_nat take_bit_nat_eq_self)

lemma unat_of_nat_small:
  "n < 4294967296 \<Longrightarrow> unat (of_nat n :: u32) = n"
  "n < 18446744073709551616 \<Longrightarrow> unat (of_nat n :: u64) = n"
  by (simp_all add: unsigned_of_nat take_bit_nat_eq_self)

lemma unat_less_2p64 [simp]: "unat (x :: u64) < 18446744073709551616"
  using unsigned_less [of x, where 'a = nat] by simp

lemma unat_le_max64 [simp]: "unat (x :: u64) \<le> 18446744073709551615"
  using unat_less_2p64 [of x] by linarith

lemma unat_SaturatingAdd:
  "unat (SaturatingAdd a t) = min (2 ^ 64 - 1) (unat t + unat a)"
proof (cases "a > - 1 - t")
  case True
  then have "unat a > 2 ^ 64 - 1 - unat t"
    by (simp add: word_less_nat_alt unat_minus_one_diff)
  with True show ?thesis
    by (simp add: SaturatingAdd_def)
next
  case False
  then have "unat a \<le> 18446744073709551615 - unat t"
    by (simp add: word_less_nat_alt unat_minus_one_diff)
  then have "unat t + unat a < 18446744073709551616"
    using unat_less_2p64 [of t] by linarith
  with False show ?thesis
    by (simp add: SaturatingAdd_def unat_word_ariths)
qed

lemma SaturatingAdd_ge: "t \<le> SaturatingAdd a t" "a \<le> SaturatingAdd a t"
  by (auto simp: word_le_nat_alt unat_SaturatingAdd)

end
