(* ===== verification/Values.thy ===== *)
theory Values
  imports Cedar_Prelude
begin

text \<open>
  \<^verbatim>\<open>src/include/cedar/types/value.h\<close> and \<^verbatim>\<open>src/src/types/value.cc\<close>: the schema-bound value
  type, its little-endian self-describing encoding and its equality. Floating-point
  payloads are kept as their bit patterns (the code moves them with \<^verbatim>\<open>memcpy\<close>); their
  equality is the IEEE comparison that the variant's \<^verbatim>\<open>operator==\<close> performs.
\<close>

section \<open>Data\<close>

text \<open>
  The enumerators of \<^verbatim>\<open>PhysicalType\<close>; \<open>PhysicalOther\<close> is a byte cast to the enumeration
  that names none of them.
\<close>

datatype physical_type =
    kBool | kInt32 | kInt64 | kFloat32 | kFloat64 | kTimestamp64 | kString | kBinary
  | PhysicalOther u8

fun physical_type_byte :: "physical_type \<Rightarrow> u8" where
  "physical_type_byte kBool = 1"
| "physical_type_byte kInt32 = 2"
| "physical_type_byte kInt64 = 3"
| "physical_type_byte kFloat32 = 4"
| "physical_type_byte kFloat64 = 5"
| "physical_type_byte kTimestamp64 = 6"
| "physical_type_byte kString = 7"
| "physical_type_byte kBinary = 8"
| "physical_type_byte (PhysicalOther b) = b"

definition physical_type_of :: "u8 \<Rightarrow> physical_type" where
  "physical_type_of b =
     (if b = 1 then kBool else if b = 2 then kInt32 else if b = 3 then kInt64
      else if b = 4 then kFloat32 else if b = 5 then kFloat64
      else if b = 6 then kTimestamp64 else if b = 7 then kString
      else if b = 8 then kBinary else PhysicalOther b)"

datatype val =
    VBool bool
  | VInt32 u32
  | VInt64 u64
  | VFloat32 u32
  | VFloat64 u64
  | VTimestamp u64
  | VString bytes
  | VBinary bytes

fun val_type :: "val \<Rightarrow> physical_type" where
  "val_type (VBool _) = kBool"
| "val_type (VInt32 _) = kInt32"
| "val_type (VInt64 _) = kInt64"
| "val_type (VFloat32 _) = kFloat32"
| "val_type (VFloat64 _) = kFloat64"
| "val_type (VTimestamp _) = kTimestamp64"
| "val_type (VString _) = kString"
| "val_type (VBinary _) = kBinary"

lemma physical_type_of_byte [simp]: "physical_type_of (physical_type_byte (val_type v)) = val_type v"
  by (cases v) (simp_all add: physical_type_of_def)

section \<open>Equality\<close>

definition float32_nan :: "u32 \<Rightarrow> bool" where
  "float32_nan b \<longleftrightarrow> b AND 0x7f800000 = 0x7f800000 \<and> b AND 0x007fffff \<noteq> 0"

definition float32_eq :: "u32 \<Rightarrow> u32 \<Rightarrow> bool" where
  "float32_eq a b \<longleftrightarrow> \<not> float32_nan a \<and> \<not> float32_nan b \<and>
     (a = b \<or> a AND 0x7fffffff = 0 \<and> b AND 0x7fffffff = 0)"

definition float64_nan :: "u64 \<Rightarrow> bool" where
  "float64_nan b \<longleftrightarrow> b AND 0x7ff0000000000000 = 0x7ff0000000000000 \<and> b AND 0x000fffffffffffff \<noteq> 0"

definition float64_eq :: "u64 \<Rightarrow> u64 \<Rightarrow> bool" where
  "float64_eq a b \<longleftrightarrow> \<not> float64_nan a \<and> \<not> float64_nan b \<and>
     (a = b \<or> a AND 0x7fffffffffffffff = 0 \<and> b AND 0x7fffffffffffffff = 0)"

fun val_eq :: "val \<Rightarrow> val \<Rightarrow> bool" where
  "val_eq (VFloat32 a) (VFloat32 b) = float32_eq a b"
| "val_eq (VFloat64 a) (VFloat64 b) = float64_eq a b"
| "val_eq a b = (a = b)"

lemma val_eq_sym: "val_eq a b = val_eq b a"
  by (cases a; cases b) (auto simp: float32_eq_def float64_eq_def)

lemma val_eq_trans: "val_eq a b \<Longrightarrow> val_eq b c \<Longrightarrow> val_eq a c"
  by (cases a; cases b; cases c) (auto simp: float32_eq_def float64_eq_def)

lemma val_eq_type: "val_eq a b \<Longrightarrow> val_type a = val_type b"
  by (cases a; cases b) auto

section \<open>Encode and Decode\<close>

definition PutLittleEndian :: "nat \<Rightarrow> 'a::len word \<Rightarrow> bytes" where
  "PutLittleEndian n v = map (\<lambda>i. ucast (drop_bit (i * 8) v)) [0..<n]"

definition GetLittleEndian :: "nat \<Rightarrow> bytes \<Rightarrow> nat \<Rightarrow> ('a::len word \<times> nat) option" where
  "GetLittleEndian n input off =
     (if length input - off < n then None
      else Some (foldl (\<lambda>bits i. bits OR push_bit (i * 8) (ucast (input ! (off + i)))) 0 [0..<n],
                 off + n))"

definition PutLength :: "u32 \<Rightarrow> bytes" where
  "PutLength len = PutLittleEndian 4 len"

definition GetLength :: "u32 reader" where
  "GetLength input off = GetLittleEndian 4 input off"

fun Value_Encode :: "val \<Rightarrow> bytes" where
  "Value_Encode (VBool b) = [1, if b then 1 else 0]"
| "Value_Encode (VInt32 v) = 2 # PutLittleEndian 4 v"
| "Value_Encode (VInt64 v) = 3 # PutLittleEndian 8 v"
| "Value_Encode (VFloat32 bits) = 4 # PutLittleEndian 4 bits"
| "Value_Encode (VFloat64 bits) = 5 # PutLittleEndian 8 bits"
| "Value_Encode (VTimestamp v) = 6 # PutLittleEndian 8 v"
| "Value_Encode (VString bs) = 7 # PutLength (word_of_nat (length bs)) @ bs"
| "Value_Encode (VBinary bs) = 8 # PutLength (word_of_nat (length bs)) @ bs"

definition decode_fixed :: "nat \<Rightarrow> ('a::len word \<Rightarrow> val) \<Rightarrow> bytes \<Rightarrow> val option" where
  "decode_fixed n mk encoded =
     (case GetLittleEndian n encoded 1 of
        Some (v, off) \<Rightarrow> if off = length encoded then Some (mk v) else None
      | None \<Rightarrow> None)"

definition decode_bytes :: "(bytes \<Rightarrow> val) \<Rightarrow> bytes \<Rightarrow> val option" where
  "decode_bytes mk encoded =
     (case GetLength encoded 1 of
        None \<Rightarrow> None
      | Some (len, off) \<Rightarrow>
          if unat len \<noteq> length encoded - off then None else Some (mk (drop off encoded)))"

definition Value_Decode :: "bytes \<Rightarrow> val option" where
  "Value_Decode encoded =
     (if encoded = [] then None
      else case physical_type_of (encoded ! 0) of
          kBool \<Rightarrow> if length encoded \<noteq> 2 \<or> encoded ! 1 \<noteq> 0 \<and> encoded ! 1 \<noteq> 1 then None
                   else Some (VBool (encoded ! 1 = 1))
        | kInt32 \<Rightarrow> decode_fixed 4 VInt32 encoded
        | kInt64 \<Rightarrow> decode_fixed 8 VInt64 encoded
        | kFloat32 \<Rightarrow> decode_fixed 4 VFloat32 encoded
        | kFloat64 \<Rightarrow> decode_fixed 8 VFloat64 encoded
        | kTimestamp64 \<Rightarrow> decode_fixed 8 VTimestamp encoded
        | kString \<Rightarrow> decode_bytes VString encoded
        | kBinary \<Rightarrow> decode_bytes VBinary encoded
        | PhysicalOther _ \<Rightarrow> None)"

section \<open>The little-endian loops\<close>

lemma PutLittleEndian_rev: "PutLittleEndian n v = rev (be_bytes n v)"
  by (simp add: PutLittleEndian_def be_bytes_def rev_map mult.commute)

lemma length_PutLittleEndian [simp]: "length (PutLittleEndian n v) = n"
  by (simp add: PutLittleEndian_def)

lemma le_foldl:
  "foldl (\<lambda>bits i. bits OR push_bit (i * 8) (ucast (bs ! i))) (0 :: 'a::len word) [0..<length bs]
     = be_word (rev bs)"
proof (induction bs rule: rev_induct)
  case Nil
  show ?case by simp
next
  case (snoc b bs)
  have "foldl (\<lambda>bits i. bits OR push_bit (i * 8) (ucast ((bs @ [b]) ! i))) (0 :: 'a word) [0..<length bs]
      = foldl (\<lambda>bits i. bits OR push_bit (i * 8) (ucast (bs ! i))) 0 [0..<length bs]"
    by (rule foldl_cong) (auto simp: nth_append)
  with snoc show ?case
    by (simp add: be_word_Cons or.commute mult.commute)
qed

lemma GetLittleEndian_eq:
  "GetLittleEndian n input off =
     (if length input - off < n then None
      else Some (be_word (rev (take n (drop off input))), off + n))"
proof (cases "length input - off < n")
  case False
  let ?bs = "take n (drop off input)"
  from False have len: "length ?bs = n" by simp
  have "foldl (\<lambda>bits i. bits OR push_bit (i * 8) (ucast (input ! (off + i)))) (0 :: 'a word) [0..<n]
      = foldl (\<lambda>bits i. bits OR push_bit (i * 8) (ucast (?bs ! i))) 0 [0..<n]"
    using False by (intro foldl_cong) auto
  with le_foldl [of ?bs] len False show ?thesis
    by (simp add: GetLittleEndian_def)
qed (simp add: GetLittleEndian_def)

lemma le_round_trip:
  "LENGTH('a) \<le> 8 * n \<Longrightarrow> be_word (rev (PutLittleEndian n (v :: 'a::len word))) = v"
  by (simp add: PutLittleEndian_rev be_word_be_bytes)

lemma le_canonical:
  "8 * length bs \<le> LENGTH('a) \<Longrightarrow> PutLittleEndian (length bs) (be_word (rev bs) :: 'a::len word) = bs"
  using be_bytes_be_word [of "rev bs", where 'a = 'a] by (simp add: PutLittleEndian_rev)

section \<open>Decode inverts Encode, and accepts nothing else\<close>

definition val_fits :: "val \<Rightarrow> bool" where
  "val_fits v = (case v of VString bs \<Rightarrow> length bs < 2 ^ 32 | VBinary bs \<Rightarrow> length bs < 2 ^ 32 | _ \<Rightarrow> True)"

lemma decode_fixed_encode:
  "LENGTH('a) = 8 * n \<Longrightarrow> decode_fixed n mk (t # PutLittleEndian n (v :: 'a::len word)) = Some (mk v)"
  by (simp add: decode_fixed_def GetLittleEndian_eq le_round_trip)

lemma decode_fixed_canonical:
  assumes "decode_fixed n (mk :: 'a::len word \<Rightarrow> val) (t # bs) = Some v" "LENGTH('a) = 8 * n"
  obtains w where "v = mk w" "bs = PutLittleEndian n w"
proof -
  from assms(1) have len: "length bs = n" and v: "v = mk (be_word (rev bs))"
    by (auto simp: decode_fixed_def GetLittleEndian_eq split: if_splits)
  have "bs = PutLittleEndian n (be_word (rev bs) :: 'a word)"
    using le_canonical [of bs, where 'a = 'a] assms(2) len by simp
  with v show thesis by (rule that)
qed

lemma decode_bytes_encode:
  "decode_bytes mk (t # PutLength (word_of_nat (length bs)) @ bs)
     = (if length bs < 2 ^ 32 then Some (mk bs) else None)"
proof -
  have "unat (word_of_nat (length bs) :: u32) = length bs \<longleftrightarrow> length bs < 2 ^ 32"
    by (simp add: unat_of_nat) (metis mod_less mod_less_divisor zero_less_numeral)
  then show ?thesis
    by (simp add: decode_bytes_def GetLength_def PutLength_def GetLittleEndian_eq le_round_trip)
qed

lemma decode_bytes_canonical:
  assumes "decode_bytes mk (t # s) = Some v"
  obtains bs where "v = mk bs" "s = PutLength (word_of_nat (length bs)) @ bs" "length bs < 2 ^ 32"
proof -
  from assms have len: "4 \<le> length s"
    and eq: "unat (be_word (rev (take 4 s)) :: u32) = length s - 4" and v: "v = mk (drop 4 s)"
    by (auto simp: decode_bytes_def GetLength_def GetLittleEndian_eq split: if_splits)
  have "take 4 s = PutLittleEndian 4 (be_word (rev (take 4 s)) :: u32)"
    using le_canonical [of "take 4 s", where 'a = 32] len by simp
  moreover have "(be_word (rev (take 4 s)) :: u32) = word_of_nat (length (drop 4 s))"
    by (simp flip: eq)
  ultimately have "s = PutLength (word_of_nat (length (drop 4 s))) @ drop 4 s"
    by (metis PutLength_def append_take_drop_id)
  moreover have "length (drop 4 s) < 2 ^ 32"
    using eq unsigned_less [of "be_word (rev (take 4 s)) :: u32", where 'a = nat] by simp
  ultimately show thesis using v that by blast
qed

lemma Value_Decode_Encode: "Value_Decode (Value_Encode v) = (if val_fits v then Some v else None)"
  by (cases v) (simp_all add: Value_Decode_def physical_type_of_def decode_fixed_encode
      decode_bytes_encode val_fits_def)

lemma Value_Encode_Decode:
  assumes "Value_Decode s = Some v"
  shows "s = Value_Encode v \<and> val_fits v"
proof -
  obtain t bs where s: "s = t # bs"
    using assms by (cases s) (simp_all add: Value_Decode_def)
  consider "t = 1" | "t = 2" | "t = 3" | "t = 4" | "t = 5" | "t = 6" | "t = 7" | "t = 8"
    using assms by (auto simp: Value_Decode_def physical_type_of_def s split: if_splits)
  then show ?thesis
  proof cases
    case 1
    with assms obtain b where "bs = [b]" "b = 0 \<or> b = 1" "v = VBool (b = 1)"
      by (cases bs) (auto simp: Value_Decode_def physical_type_of_def s split: if_splits)
    with 1 s show ?thesis by (auto simp: val_fits_def)
  next
    case 2
    with assms have "decode_fixed 4 VInt32 (t # bs) = Some v"
      by (simp add: Value_Decode_def physical_type_of_def s)
    with 2 s show ?thesis by (auto elim!: decode_fixed_canonical simp: val_fits_def)
  next
    case 3
    with assms have "decode_fixed 8 VInt64 (t # bs) = Some v"
      by (simp add: Value_Decode_def physical_type_of_def s)
    with 3 s show ?thesis by (auto elim!: decode_fixed_canonical simp: val_fits_def)
  next
    case 4
    with assms have "decode_fixed 4 VFloat32 (t # bs) = Some v"
      by (simp add: Value_Decode_def physical_type_of_def s)
    with 4 s show ?thesis by (auto elim!: decode_fixed_canonical simp: val_fits_def)
  next
    case 5
    with assms have "decode_fixed 8 VFloat64 (t # bs) = Some v"
      by (simp add: Value_Decode_def physical_type_of_def s)
    with 5 s show ?thesis by (auto elim!: decode_fixed_canonical simp: val_fits_def)
  next
    case 6
    with assms have "decode_fixed 8 VTimestamp (t # bs) = Some v"
      by (simp add: Value_Decode_def physical_type_of_def s)
    with 6 s show ?thesis by (auto elim!: decode_fixed_canonical simp: val_fits_def)
  next
    case 7
    with assms have "decode_bytes VString (t # bs) = Some v"
      by (simp add: Value_Decode_def physical_type_of_def s)
    with 7 s show ?thesis by (auto elim!: decode_bytes_canonical simp: val_fits_def)
  next
    case 8
    with assms have "decode_bytes VBinary (t # bs) = Some v"
      by (simp add: Value_Decode_def physical_type_of_def s)
    with 8 s show ?thesis by (auto elim!: decode_bytes_canonical simp: val_fits_def)
  qed
qed

text \<open>
  The value codec is a bijection between the values whose byte strings are shorter
  than 2^32 and the byte strings it accepts: \<open>Value_Decode\<close> accepts exactly the
  encodings, each as the value that produced it (a longer string, whose length field
  would wrap, is not decoded).
\<close>

theorem value_codec_bijective:
  "Value_Decode s = Some v \<longleftrightarrow> val_fits v \<and> s = Value_Encode v"
  using Value_Decode_Encode [of v] Value_Encode_Decode [of s v] by auto

end
