(* ===== verification/Facts.thy ===== *)
theory Facts
  imports Values
begin

text \<open>
  \<^verbatim>\<open>src/include/cedar/fact/fact.h\<close> and \<^verbatim>\<open>src/src/storage/facts/fact.cc\<close>: references to facts,
  edge identities, committed fact events and pending mutations, with the rules their
  \<^verbatim>\<open>Validate\<close> methods enforce. The one-field wrappers of the source (\<^verbatim>\<open>PartId\<close>,
  \<^verbatim>\<open>VertexId\<close>, \<^verbatim>\<open>CommitSeq\<close>, \<^verbatim>\<open>ValidTime\<close> and so on) are the words they wrap.
\<close>

section \<open>Data\<close>

type_synonym part_id = u32
type_synonym property_id = u16
type_synonym entity_id = u64
type_synonym commit_seq = u64
type_synonym txn_id = u64
type_synonym valid_time = u64

record vertex_ref =
  vr_part :: part_id
  vr_vertex :: entity_id

record edge_ref =
  er_home :: part_id
  er_edge :: entity_id

text \<open>A byte cast to an enumeration that names no enumerator is kept as such.\<close>

datatype fact_family =
    kVertexState | kVertexProperty | kEdgeIdentity | kEdgeState | kEdgeProperty
  | FamilyOther u8

fun family_byte :: "fact_family \<Rightarrow> u8" where
  "family_byte kVertexState = 1"
| "family_byte kVertexProperty = 2"
| "family_byte kEdgeIdentity = 3"
| "family_byte kEdgeState = 4"
| "family_byte kEdgeProperty = 5"
| "family_byte (FamilyOther b) = b"

definition family_of :: "u8 \<Rightarrow> fact_family" where
  "family_of b =
     (if b = 1 then kVertexState else if b = 2 then kVertexProperty
      else if b = 3 then kEdgeIdentity else if b = 4 then kEdgeState
      else if b = 5 then kEdgeProperty else FamilyOther b)"

datatype fact_operation = kPut | kDelete | OperationOther u8

fun operation_byte :: "fact_operation \<Rightarrow> u8" where
  "operation_byte kPut = 1"
| "operation_byte kDelete = 2"
| "operation_byte (OperationOther b) = b"

definition operation_of :: "u8 \<Rightarrow> fact_operation" where
  "operation_of b = (if b = 1 then kPut else if b = 2 then kDelete else OperationOther b)"

record fact_ref =
  ref_part :: part_id
  ref_family :: fact_family
  ref_property :: property_id
  ref_entity :: entity_id

record edge_identity =
  ei_edge :: entity_id
  ei_source :: entity_id
  ei_target :: entity_id
  ei_type :: u64
  ei_home :: part_id
  ei_source_part :: part_id
  ei_target_part :: part_id

definition EdgeIdentity_edge_ref :: "edge_identity \<Rightarrow> edge_ref" where
  "EdgeIdentity_edge_ref i = \<lparr>er_home = ei_home i, er_edge = ei_edge i\<rparr>"

definition EdgeIdentity_init :: "edge_ref \<Rightarrow> vertex_ref \<Rightarrow> vertex_ref \<Rightarrow> u64 \<Rightarrow> edge_identity" where
  "EdgeIdentity_init edge source target type =
     \<lparr>ei_edge = er_edge edge, ei_source = vr_vertex source, ei_target = vr_vertex target,
      ei_type = type, ei_home = er_home edge, ei_source_part = vr_part source,
      ei_target_part = vr_part target\<rparr>"

record fact_event =
  ev_ref :: fact_ref
  ev_valid_from :: valid_time
  ev_commit_seq :: commit_seq
  ev_operation :: fact_operation
  ev_schema_epoch :: u32
  ev_value :: "val option"
  ev_identity :: "edge_identity option"

record pending_mutation =
  mu_ref :: fact_ref
  mu_valid_from :: valid_time
  mu_operation :: fact_operation
  mu_schema_epoch :: u32
  mu_value :: "val option"

section \<open>Validation\<close>

definition IsStateFamily :: "fact_family \<Rightarrow> bool" where
  "IsStateFamily f \<longleftrightarrow> f = kVertexState \<or> f = kEdgeState \<or> f = kEdgeIdentity"

definition IsKnownFamily :: "fact_family \<Rightarrow> bool" where
  "IsKnownFamily f \<longleftrightarrow> IsStateFamily f \<or> f = kVertexProperty \<or> f = kEdgeProperty"

definition IsKnownOperation :: "fact_operation \<Rightarrow> bool" where
  "IsKnownOperation op \<longleftrightarrow> op = kPut \<or> op = kDelete"

definition IsProperty :: "fact_ref \<Rightarrow> bool" where
  "IsProperty r \<longleftrightarrow> \<not> IsStateFamily (ref_family r)"

definition FactRef_Validate :: "fact_ref \<Rightarrow> status" where
  "FactRef_Validate r =
     (if \<not> IsKnownFamily (ref_family r)
      then InvalidArgument ''fact reference'' ''unknown fact family''
      else if ref_entity r = 0
      then InvalidArgument ''fact reference'' ''zero entity ID''
      else if IsStateFamily (ref_family r) \<and> ref_property r \<noteq> 0
      then InvalidArgument ''fact reference'' ''state fact has property ID''
      else if \<not> IsStateFamily (ref_family r) \<and> ref_property r = 0
      then InvalidArgument ''fact reference'' ''property fact has zero property ID''
      else OK)"

definition ValidateMutation :: "fact_ref \<Rightarrow> fact_operation \<Rightarrow> u32 \<Rightarrow> val option \<Rightarrow> status" where
  "ValidateMutation r op epoch value =
     sbind (FactRef_Validate r) (\<lambda>_.
       if \<not> IsKnownOperation op
       then InvalidArgument ''fact mutation'' ''unknown operation''
       else if \<not> IsProperty r
       then (if epoch \<noteq> 0 \<or> value \<noteq> None
             then InvalidArgument ''entity fact'' ''state facts cannot carry schema or value''
             else OK)
       else if epoch = 0
       then InvalidArgument ''property fact'' ''missing schema epoch''
       else if op = kPut \<and> value = None
       then InvalidArgument ''property fact'' ''PUT requires a value''
       else if op = kDelete \<and> value \<noteq> None
       then InvalidArgument ''property fact'' ''DELETE cannot carry a value''
       else OK)"

definition EntityFact_Vertex :: "vertex_ref \<Rightarrow> fact_ref" where
  "EntityFact_Vertex v =
     \<lparr>ref_part = vr_part v, ref_family = kVertexState, ref_property = 0, ref_entity = vr_vertex v\<rparr>"

definition EntityFact_Edge :: "edge_ref \<Rightarrow> fact_ref" where
  "EntityFact_Edge e =
     \<lparr>ref_part = er_home e, ref_family = kEdgeState, ref_property = 0, ref_entity = er_edge e\<rparr>"

definition PropertyFact_Vertex :: "vertex_ref \<Rightarrow> property_id \<Rightarrow> fact_ref" where
  "PropertyFact_Vertex v p =
     \<lparr>ref_part = vr_part v, ref_family = kVertexProperty, ref_property = p, ref_entity = vr_vertex v\<rparr>"

definition PropertyFact_Edge :: "edge_ref \<Rightarrow> property_id \<Rightarrow> fact_ref" where
  "PropertyFact_Edge e p =
     \<lparr>ref_part = er_home e, ref_family = kEdgeProperty, ref_property = p, ref_entity = er_edge e\<rparr>"

definition EdgeIdentity_Validate :: "edge_identity \<Rightarrow> status" where
  "EdgeIdentity_Validate i =
     (if ei_edge i = 0 \<or> ei_source i = 0 \<or> ei_target i = 0 \<or> ei_type i = 0 \<or>
         ei_home i \<noteq> ei_source_part i
      then InvalidArgument ''edge identity'' ''invalid edge home partition, endpoints, or type''
      else OK)"

definition FactEvent_Validate :: "fact_event \<Rightarrow> status" where
  "FactEvent_Validate e =
     (if ev_commit_seq e = 0 then InvalidArgument ''fact event'' ''zero commit sequence''
      else sbind (ValidateMutation (ev_ref e) (ev_operation e) (ev_schema_epoch e) (ev_value e)) (\<lambda>_.
        if ref_family (ev_ref e) = kEdgeIdentity
        then (case ev_identity e of
                None \<Rightarrow> InvalidArgument ''edge identity fact''
                          ''identity facts require a valid_from=0 PUT payload''
              | Some i \<Rightarrow>
                  if ev_valid_from e \<noteq> 0 \<or> ev_operation e \<noteq> kPut \<or> ev_schema_epoch e \<noteq> 0 \<or>
                     ev_value e \<noteq> None \<or>
                     EdgeIdentity_edge_ref i
                       \<noteq> \<lparr>er_home = ref_part (ev_ref e), er_edge = ref_entity (ev_ref e)\<rparr>
                  then InvalidArgument ''edge identity fact''
                         ''identity facts require a valid_from=0 PUT payload''
                  else EdgeIdentity_Validate i)
        else if ev_identity e \<noteq> None
        then InvalidArgument ''fact event'' ''edge identity payload on non-identity fact''
        else OK))"

definition PendingFactMutation_Validate :: "pending_mutation \<Rightarrow> status" where
  "PendingFactMutation_Validate m =
     sbind (ValidateMutation (mu_ref m) (mu_operation m) (mu_schema_epoch m) (mu_value m)) (\<lambda>_.
       if ref_family (mu_ref m) = kEdgeIdentity
       then InvalidArgument ''fact mutation'' ''edge identity uses StoreCommitBatch identity payload''
       else OK)"

section \<open>Facts about valid data\<close>

lemma family_of_byte [simp]: "IsKnownFamily f \<Longrightarrow> family_of (family_byte f) = f"
  by (auto simp: IsKnownFamily_def IsStateFamily_def family_of_def)

lemma family_byte_of [simp]: "family_byte (family_of b) = b"
  by (simp add: family_of_def)

lemma operation_of_byte [simp]: "IsKnownOperation op \<Longrightarrow> operation_of (operation_byte op) = op"
  by (auto simp: IsKnownOperation_def operation_of_def)

lemma operation_byte_of [simp]: "operation_byte (operation_of b) = b"
  by (simp add: operation_of_def)

lemma FactRef_Validate_OK_iff [valid_simps]:
  "FactRef_Validate r = OK \<longleftrightarrow>
     IsKnownFamily (ref_family r) \<and> ref_entity r \<noteq> 0 \<and>
     (IsStateFamily (ref_family r) \<longleftrightarrow> ref_property r = 0)"
  by (auto simp: FactRef_Validate_def)

lemma ValidateMutation_OK_iff [valid_simps]:
  "ValidateMutation r op epoch value = OK \<longleftrightarrow>
     FactRef_Validate r = OK \<and> IsKnownOperation op \<and>
     (if IsProperty r then epoch \<noteq> 0 \<and> (op = kPut \<longleftrightarrow> value \<noteq> None)
      else epoch = 0 \<and> value = None)"
  by (auto simp: ValidateMutation_def sbind_Inr_iff IsKnownOperation_def)

lemma FactEvent_Validate_ref: "FactEvent_Validate e = OK \<Longrightarrow> FactRef_Validate (ev_ref e) = OK"
  by (auto simp: FactEvent_Validate_def ValidateMutation_OK_iff sbind_Inr_iff split: if_splits)

lemma FactEvent_Validate_op: "FactEvent_Validate e = OK \<Longrightarrow> IsKnownOperation (ev_operation e)"
  by (auto simp: FactEvent_Validate_def ValidateMutation_OK_iff sbind_Inr_iff split: if_splits)

lemma FactEvent_Validate_seq: "FactEvent_Validate e = OK \<Longrightarrow> ev_commit_seq e \<noteq> 0"
  by (auto simp: FactEvent_Validate_def)

text \<open>The references the public constructors build are valid for valid entities.\<close>

lemma EntityFact_valid:
  "vr_vertex v \<noteq> 0 \<Longrightarrow> FactRef_Validate (EntityFact_Vertex v) = OK"
  "er_edge e \<noteq> 0 \<Longrightarrow> FactRef_Validate (EntityFact_Edge e) = OK"
  by (simp_all add: FactRef_Validate_OK_iff EntityFact_Vertex_def EntityFact_Edge_def
      IsKnownFamily_def IsStateFamily_def)

lemma PropertyFact_valid:
  "vr_vertex v \<noteq> 0 \<Longrightarrow> p \<noteq> 0 \<Longrightarrow> FactRef_Validate (PropertyFact_Vertex v p) = OK"
  "er_edge e \<noteq> 0 \<Longrightarrow> p \<noteq> 0 \<Longrightarrow> FactRef_Validate (PropertyFact_Edge e p) = OK"
  by (simp_all add: FactRef_Validate_OK_iff PropertyFact_Vertex_def PropertyFact_Edge_def
      IsKnownFamily_def IsStateFamily_def)

text \<open>
  A mutation is valid exactly when the event it becomes under any non-zero commit
  sequence is valid.
\<close>

definition event_of_mutation :: "commit_seq \<Rightarrow> pending_mutation \<Rightarrow> fact_event" where
  "event_of_mutation seq m =
     \<lparr>ev_ref = mu_ref m, ev_valid_from = mu_valid_from m, ev_commit_seq = seq,
      ev_operation = mu_operation m, ev_schema_epoch = mu_schema_epoch m,
      ev_value = mu_value m, ev_identity = None\<rparr>"

lemma event_of_mutation_valid:
  "seq \<noteq> 0 \<Longrightarrow>
   FactEvent_Validate (event_of_mutation seq m) = OK \<longleftrightarrow> PendingFactMutation_Validate m = OK"
  by (auto simp: FactEvent_Validate_def PendingFactMutation_Validate_def event_of_mutation_def
      sbind_Inr_iff)

end
