(* ===== verification/Crc32c.thy ===== *)
theory Crc32c
  imports Cedar_Prelude
begin

text \<open>
  \<^verbatim>\<open>src/src/core/crc32c.cc\<close> and \<^verbatim>\<open>crc32c.h\<close>: the checksum of every durable record. The
  portable routine is table driven; the hardware routine uses the processor's CRC32
  instruction, which is not part of the repository and is a parameter of the model.
  The theory shows that the table is the CRC-32C table, that both routines agree
  (the bytes on disk do not depend on the processor that wrote them), that \<open>Extend\<close>
  continues a checksum, and that \<open>Unmask\<close> inverts \<open>Mask\<close>.
\<close>

definition kByteExtensionTable :: "u32 list" where
  "kByteExtensionTable = [
     0x00000000, 0xf26b8303, 0xe13b70f7, 0x1350f3f4, 0xc79a971f, 0x35f1141c,
     0x26a1e7e8, 0xd4ca64eb, 0x8ad958cf, 0x78b2dbcc, 0x6be22838, 0x9989ab3b,
     0x4d43cfd0, 0xbf284cd3, 0xac78bf27, 0x5e133c24, 0x105ec76f, 0xe235446c,
     0xf165b798, 0x030e349b, 0xd7c45070, 0x25afd373, 0x36ff2087, 0xc494a384,
     0x9a879fa0, 0x68ec1ca3, 0x7bbcef57, 0x89d76c54, 0x5d1d08bf, 0xaf768bbc,
     0xbc267848, 0x4e4dfb4b, 0x20bd8ede, 0xd2d60ddd, 0xc186fe29, 0x33ed7d2a,
     0xe72719c1, 0x154c9ac2, 0x061c6936, 0xf477ea35, 0xaa64d611, 0x580f5512,
     0x4b5fa6e6, 0xb93425e5, 0x6dfe410e, 0x9f95c20d, 0x8cc531f9, 0x7eaeb2fa,
     0x30e349b1, 0xc288cab2, 0xd1d83946, 0x23b3ba45, 0xf779deae, 0x05125dad,
     0x1642ae59, 0xe4292d5a, 0xba3a117e, 0x4851927d, 0x5b016189, 0xa96ae28a,
     0x7da08661, 0x8fcb0562, 0x9c9bf696, 0x6ef07595, 0x417b1dbc, 0xb3109ebf,
     0xa0406d4b, 0x522bee48, 0x86e18aa3, 0x748a09a0, 0x67dafa54, 0x95b17957,
     0xcba24573, 0x39c9c670, 0x2a993584, 0xd8f2b687, 0x0c38d26c, 0xfe53516f,
     0xed03a29b, 0x1f682198, 0x5125dad3, 0xa34e59d0, 0xb01eaa24, 0x42752927,
     0x96bf4dcc, 0x64d4cecf, 0x77843d3b, 0x85efbe38, 0xdbfc821c, 0x2997011f,
     0x3ac7f2eb, 0xc8ac71e8, 0x1c661503, 0xee0d9600, 0xfd5d65f4, 0x0f36e6f7,
     0x61c69362, 0x93ad1061, 0x80fde395, 0x72966096, 0xa65c047d, 0x5437877e,
     0x4767748a, 0xb50cf789, 0xeb1fcbad, 0x197448ae, 0x0a24bb5a, 0xf84f3859,
     0x2c855cb2, 0xdeeedfb1, 0xcdbe2c45, 0x3fd5af46, 0x7198540d, 0x83f3d70e,
     0x90a324fa, 0x62c8a7f9, 0xb602c312, 0x44694011, 0x5739b3e5, 0xa55230e6,
     0xfb410cc2, 0x092a8fc1, 0x1a7a7c35, 0xe811ff36, 0x3cdb9bdd, 0xceb018de,
     0xdde0eb2a, 0x2f8b6829, 0x82f63b78, 0x709db87b, 0x63cd4b8f, 0x91a6c88c,
     0x456cac67, 0xb7072f64, 0xa457dc90, 0x563c5f93, 0x082f63b7, 0xfa44e0b4,
     0xe9141340, 0x1b7f9043, 0xcfb5f4a8, 0x3dde77ab, 0x2e8e845f, 0xdce5075c,
     0x92a8fc17, 0x60c37f14, 0x73938ce0, 0x81f80fe3, 0x55326b08, 0xa759e80b,
     0xb4091bff, 0x466298fc, 0x1871a4d8, 0xea1a27db, 0xf94ad42f, 0x0b21572c,
     0xdfeb33c7, 0x2d80b0c4, 0x3ed04330, 0xccbbc033, 0xa24bb5a6, 0x502036a5,
     0x4370c551, 0xb11b4652, 0x65d122b9, 0x97baa1ba, 0x84ea524e, 0x7681d14d,
     0x2892ed69, 0xdaf96e6a, 0xc9a99d9e, 0x3bc21e9d, 0xef087a76, 0x1d63f975,
     0x0e330a81, 0xfc588982, 0xb21572c9, 0x407ef1ca, 0x532e023e, 0xa145813d,
     0x758fe5d6, 0x87e466d5, 0x94b49521, 0x66df1622, 0x38cc2a06, 0xcaa7a905,
     0xd9f75af1, 0x2b9cd9f2, 0xff56bd19, 0x0d3d3e1a, 0x1e6dcdee, 0xec064eed,
     0xc38d26c4, 0x31e6a5c7, 0x22b65633, 0xd0ddd530, 0x0417b1db, 0xf67c32d8,
     0xe52cc12c, 0x1747422f, 0x49547e0b, 0xbb3ffd08, 0xa86f0efc, 0x5a048dff,
     0x8ecee914, 0x7ca56a17, 0x6ff599e3, 0x9d9e1ae0, 0xd3d3e1ab, 0x21b862a8,
     0x32e8915c, 0xc083125f, 0x144976b4, 0xe622f5b7, 0xf5720643, 0x07198540,
     0x590ab964, 0xab613a67, 0xb831c993, 0x4a5a4a90, 0x9e902e7b, 0x6cfbad78,
     0x7fab5e8c, 0x8dc0dd8f, 0xe330a81a, 0x115b2b19, 0x020bd8ed, 0xf0605bee,
     0x24aa3f05, 0xd6c1bc06, 0xc5914ff2, 0x37faccf1, 0x69e9f0d5, 0x9b8273d6,
     0x88d28022, 0x7ab90321, 0xae7367ca, 0x5c18e4c9, 0x4f48173d, 0xbd23943e,
     0xf36e6f75, 0x0105ec76, 0x12551f82, 0xe03e9c81, 0x34f4f86a, 0xc69f7b69,
     0xd5cf889d, 0x27a40b9e, 0x79b737ba, 0x8bdcb4b9, 0x988c474d, 0x6ae7c44e,
     0xbe2da0a5, 0x4c4623a6, 0x5f16d052, 0xad7d5351
  ]"

definition kCRC32Xor :: u32 where
  "kCRC32Xor = 0xffffffff"

text \<open>One iteration of the loop of \<^verbatim>\<open>ExtendPortable\<close>.\<close>

definition table_step :: "u32 \<Rightarrow> u8 \<Rightarrow> u32" where
  "table_step l p =
     (let c = (l AND 0xff) XOR ucast p in kByteExtensionTable ! unat c XOR drop_bit 8 l)"

definition ExtendPortable :: "u32 \<Rightarrow> bytes \<Rightarrow> u32" where
  "ExtendPortable crc data = foldl table_step (crc XOR kCRC32Xor) data XOR kCRC32Xor"

text \<open>
  \<^verbatim>\<open>ExtendHardware\<close>: on \<^verbatim>\<open>x86_64\<close> eight bytes at a time through the 64-bit instruction, on
  \<^verbatim>\<open>i386\<close> four bytes at a time through the 32-bit one, read little-endian, then the remaining
  bytes one at a time. The target of the compilation is an argument.
\<close>

definition le_word :: "bytes \<Rightarrow> 'a::len word" where
  "le_word bs = be_word (rev bs)"

function hardware_wide :: "(u64 \<Rightarrow> u64 \<Rightarrow> u64) \<Rightarrow> u64 \<Rightarrow> bytes \<Rightarrow> u64 \<times> bytes" where
  "hardware_wide crc32_u64 wide data =
     (if length data \<ge> 8
      then hardware_wide crc32_u64 (crc32_u64 wide (le_word (take 8 data))) (drop 8 data)
      else (wide, data))"
  by pat_completeness auto
termination
  by (relation "measure (\<lambda>(f, w, d). length d)") auto

function hardware_narrow :: "(u32 \<Rightarrow> u32 \<Rightarrow> u32) \<Rightarrow> u32 \<Rightarrow> bytes \<Rightarrow> u32 \<times> bytes" where
  "hardware_narrow crc32_u32 value data =
     (if length data \<ge> 4
      then hardware_narrow crc32_u32 (crc32_u32 value (le_word (take 4 data))) (drop 4 data)
      else (value, data))"
  by pat_completeness auto
termination
  by (relation "measure (\<lambda>(f, v, d). length d)") auto

text \<open>The three instructions of the processor that the routine uses.\<close>

record crc_instructions =
  cpu_u64 :: "u64 \<Rightarrow> u64 \<Rightarrow> u64"
  cpu_u32 :: "u32 \<Rightarrow> u32 \<Rightarrow> u32"
  cpu_u8 :: "u32 \<Rightarrow> u8 \<Rightarrow> u32"

definition ExtendHardware :: "bool \<Rightarrow> crc_instructions \<Rightarrow> u32 \<Rightarrow> bytes \<Rightarrow> u32" where
  "ExtendHardware x86_64 cpu crc data =
     (let value = crc XOR kCRC32Xor;
          (value, rest) =
            (if x86_64
             then (let (wide, rest) = hardware_wide (cpu_u64 cpu) (ucast value) data in (ucast wide, rest))
             else hardware_narrow (cpu_u32 cpu) value data)
      in foldl (cpu_u8 cpu) value rest XOR kCRC32Xor)"

text \<open>
  \<^verbatim>\<open>Extend\<close> with the dispatch of \<^verbatim>\<open>SelectExtension\<close>: the portable routine unless the
  processor supports the instructions.
\<close>

definition Extend_on :: "bool \<Rightarrow> bool \<Rightarrow> crc_instructions \<Rightarrow> u32 \<Rightarrow> bytes \<Rightarrow> u32" where
  "Extend_on x86_64 supports_sse42 cpu crc data =
     (if data = [] then crc
      else if supports_sse42 then ExtendHardware x86_64 cpu crc data
      else ExtendPortable crc data)"

definition Extend :: "u32 \<Rightarrow> bytes \<Rightarrow> u32" where
  "Extend crc data = (if data = [] then crc else ExtendPortable crc data)"

definition crc32c_Value :: "bytes \<Rightarrow> u32" where
  "crc32c_Value data = Extend 0 data"

definition kMaskDelta :: u32 where
  "kMaskDelta = 0xa282ead8"

definition Mask :: "u32 \<Rightarrow> u32" where
  "Mask crc = (drop_bit 15 crc OR push_bit 17 crc) + kMaskDelta"

definition Unmask :: "u32 \<Rightarrow> u32" where
  "Unmask masked_crc =
     (let rot = masked_crc - kMaskDelta in drop_bit 17 rot OR push_bit 15 rot)"

section \<open>The bitwise reference\<close>

text \<open>
  The reference is the shift register of the CRC-32C polynomial in reflected form: one
  bit at a time, the register shifts right and the polynomial is added when a one falls
  out.
\<close>

definition crc_bit :: "u32 \<Rightarrow> u32" where
  "crc_bit l = drop_bit 1 l XOR (if bit l 0 then 0x82f63b78 else 0)"

definition crc_byte :: "u32 \<Rightarrow> u32" where
  "crc_byte l = (crc_bit ^^ 8) l"

definition crc_reference :: "u32 \<Rightarrow> bytes \<Rightarrow> u32" where
  "crc_reference l data = foldl (\<lambda>l p. crc_byte (l XOR ucast p)) l data"

lemma crc_bit_xor: "crc_bit (x XOR y) = crc_bit x XOR crc_bit y"
  by (rule bit_word_eqI) (auto simp: crc_bit_def bit_simps)

lemma crc_bits_xor: "(crc_bit ^^ n) (x XOR y) = (crc_bit ^^ n) x XOR (crc_bit ^^ n) y"
  by (induction n) (simp_all add: crc_bit_xor)

lemma crc_bits_shift: "(\<forall>i<n. \<not> bit x i) \<Longrightarrow> (crc_bit ^^ n) x = drop_bit n x"
proof (induction n arbitrary: x)
  case 0
  then show ?case by simp
next
  case (Suc n)
  have 1: "crc_bit x = drop_bit 1 x" using Suc.prems by (simp add: crc_bit_def)
  have "\<forall>i<n. \<not> bit (drop_bit 1 x) i" using Suc.prems by (simp add: bit_drop_bit_eq)
  then have "(crc_bit ^^ n) (drop_bit 1 x) = drop_bit n (drop_bit 1 x)" by (rule Suc.IH)
  then show ?case by (simp add: funpow_Suc_right 1 del: funpow.simps)
qed

lemma byte_mask: "(0xff :: u32) = mask 8"
  by (simp add: mask_eq_exp_minus_1)

lemma crc_byte_split: "crc_byte l = crc_byte (l AND mask 8) XOR drop_bit 8 l"
proof -
  have "l = (l AND mask 8) XOR (l AND NOT (mask 8))"
    by (rule bit_word_eqI) (auto simp: bit_simps)
  then have "crc_byte l = crc_byte (l AND mask 8) XOR crc_byte (l AND NOT (mask 8))"
    unfolding crc_byte_def using crc_bits_xor by metis
  also have "crc_byte (l AND NOT (mask 8)) = drop_bit 8 (l AND NOT (mask 8))"
    unfolding crc_byte_def by (rule crc_bits_shift) (auto simp: bit_simps)
  also have "drop_bit 8 (l AND NOT (mask 8)) = drop_bit 8 l"
    by (rule bit_word_eqI) (auto simp: bit_and_iff bit_not_iff bit_mask_iff bit_drop_bit_eq
        dest: bit_imp_le_length)
  finally show ?thesis .
qed

text \<open>
  The reference table doubles: the upper half of the first \<open>2 ^ Suc k\<close> entries is the
  lower half with entry \<open>2 ^ k\<close> added.
\<close>

definition crc_table :: "nat \<Rightarrow> u32 list" where
  "crc_table k = map (\<lambda>n. crc_byte (word_of_nat n)) [0..<2 ^ k]"

lemma word_of_nat_upper_half:
  assumes "n < 2 ^ k"
  shows "(word_of_nat (2 ^ k + n) :: u32) = 2 ^ k XOR word_of_nat n"
proof -
  have "take_bit k n = n" using assms by (rule take_bit_nat_eq_self)
  then have "bit n i \<Longrightarrow> i < k" for i by (metis bit_take_bit_iff)
  then have "and (2 ^ k) n = (0 :: nat)"
    by (intro bit_eqI) (auto simp: bit_and_iff bit_exp_iff)
  then have "2 ^ k + n = (xor (2 ^ k) n :: nat)"
    by (simp add: disjunctive_add_eq_xor)
  then have "(word_of_nat (2 ^ k + n) :: u32) = word_of_nat (xor (2 ^ k) n)" by simp
  also have "\<dots> = word_of_nat (2 ^ k) XOR word_of_nat n" by (rule of_nat_xor_eq)
  finally show ?thesis by simp
qed

lemma crc_table_Suc:
  "crc_table (Suc k) = crc_table k @ map (\<lambda>v. crc_byte (2 ^ k) XOR v) (crc_table k)"
proof -
  have upt: "[0..<2 ^ Suc k] = [0..<2 ^ k] @ map (\<lambda>n. 2 ^ k + n) [0..<2 ^ k]"
    using upt_add_eq_append [of 0 "2 ^ k" "2 ^ k"]
    by (simp add: map_add_upt mult_2 add.commute)
  show ?thesis
    unfolding crc_table_def upt map_append map_map crc_byte_def
    by (simp add: word_of_nat_upper_half crc_bits_xor del: of_nat_add)
qed

lemma crc_byte_unfold:
  "crc_byte l = crc_bit (crc_bit (crc_bit (crc_bit (crc_bit (crc_bit (crc_bit (crc_bit l)))))))"
  by (simp add: crc_byte_def eval_nat_numeral)

lemma crc_byte_basis:
  "crc_byte 0 = 0"
  "crc_byte 1 = 0xf26b8303" "crc_byte 2 = 0xe13b70f7" "crc_byte 4 = 0xc79a971f"
  "crc_byte 8 = 0x8ad958cf" "crc_byte 16 = 0x105ec76f" "crc_byte 32 = 0x20bd8ede"
  "crc_byte 64 = 0x417b1dbc" "crc_byte 128 = 0x82f63b78"
  by (simp_all add: crc_byte_unfold crc_bit_def)

lemma table_is_crc: "kByteExtensionTable = crc_table 8"
proof -
  have t0: "crc_table 0 = [0]"
    by (simp add: crc_table_def crc_byte_basis)
  have t4: "crc_table 4 = take 16 kByteExtensionTable"
    by (simp add: eval_nat_numeral(2,3) t0 crc_table_Suc crc_byte_basis kByteExtensionTable_def)
  have t5: "crc_table 5 = take 32 kByteExtensionTable"
    using crc_table_Suc [of 4] by (simp add: t4 crc_byte_basis kByteExtensionTable_def)
  have t6: "crc_table 6 = take 64 kByteExtensionTable"
    using crc_table_Suc [of 5] by (simp add: t5 crc_byte_basis kByteExtensionTable_def)
  have t7: "crc_table 7 = take 128 kByteExtensionTable"
    using crc_table_Suc [of 6] by (simp add: t6 crc_byte_basis kByteExtensionTable_def)
  show ?thesis
    using crc_table_Suc [of 7] by (simp add: t7 crc_byte_basis kByteExtensionTable_def)
qed

lemma table_nth: "n < 256 \<Longrightarrow> kByteExtensionTable ! n = crc_byte (word_of_nat n)"
  by (simp add: table_is_crc crc_table_def)

lemma table_step_crc: "table_step l p = crc_byte (l XOR ucast p)"
proof -
  let ?c = "(l AND mask 8) XOR ucast p"
  have c: "?c = (l XOR ucast p) AND mask 8"
    by (rule bit_word_eqI) (auto simp: bit_simps dest: bit_imp_le_length)
  then have "?c = take_bit 8 (l XOR ucast p)"
    by (simp add: take_bit_eq_mask)
  then have "unat ?c < 256"
    using take_bit_nat_less_exp [of 8 "unat (l XOR ucast p)"]
    by (simp only: unsigned_take_bit_eq) simp
  then have "kByteExtensionTable ! unat ?c = crc_byte ?c"
    by (simp add: table_nth)
  moreover have "drop_bit 8 (l XOR ucast p) = drop_bit 8 l"
    by (rule bit_word_eqI) (auto simp: bit_simps dest: bit_imp_le_length)
  ultimately show ?thesis
    unfolding table_step_def Let_def byte_mask crc_byte_split [of "l XOR ucast p"] c by simp
qed

text \<open>
  The portable routine is the bitwise reference with the register complemented before
  and after.
\<close>

lemma xor_cancel [simp]: "(x XOR y) XOR y = (x :: u32)" "y XOR (y XOR x) = (x :: u32)"
  by (simp_all add: xor.assoc)

lemma xor_inject [simp]: "x XOR z = y XOR z \<longleftrightarrow> x = (y :: u32)" "z XOR x = z XOR y \<longleftrightarrow> x = (y :: u32)"
  by (metis xor_cancel)+

lemma table_step_eq: "table_step = (\<lambda>l p. crc_byte (l XOR ucast p))"
  by (intro ext) (rule table_step_crc)

lemma ExtendPortable_reference:
  "ExtendPortable crc data = crc_reference (crc XOR kCRC32Xor) data XOR kCRC32Xor"
  by (simp add: ExtendPortable_def crc_reference_def table_step_eq)

lemma Extend_reference: "Extend crc data = crc_reference (crc XOR kCRC32Xor) data XOR kCRC32Xor"
  by (simp add: Extend_def ExtendPortable_reference crc_reference_def)

lemma Extend_append: "Extend (Extend crc xs) ys = Extend crc (xs @ ys)"
  by (simp add: Extend_reference crc_reference_def)

text \<open>
  The register update is a bijection, so no single changed byte goes unnoticed.
\<close>

lemma inj_crc_bit: "inj crc_bit"
proof (rule injI)
  fix x y :: u32 assume eq: "crc_bit x = crc_bit y"
  have top: "bit (crc_bit z) 31 = bit z 0" for z
    using bit_imp_le_length [of z 32]
    by (auto simp: crc_bit_def bit_simps bit_numeral_word_iff)
  from eq have b0: "bit x 0 = bit y 0" using top by metis
  then have "drop_bit 1 x = drop_bit 1 y"
    using eq by (auto simp: crc_bit_def split: if_splits)
  then have "bit (drop_bit 1 x) i = bit (drop_bit 1 y) i" for i by simp
  with b0 have "bit x i = bit y i" for i
    by (cases i) (auto simp: bit_drop_bit_eq)
  then show "x = y" by (simp add: bit_word_eqI)
qed

lemma inj_crc_byte: "inj crc_byte"
  unfolding crc_byte_def using inj_crc_bit by (rule inj_fn)

lemma crc_reference_inject [simp]: "crc_reference x data = crc_reference y data \<longleftrightarrow> x = y"
proof (induction data arbitrary: x y)
  case Nil
  show ?case by (simp add: crc_reference_def)
next
  case (Cons p data)
  have "crc_reference x (p # data) = crc_reference y (p # data) \<longleftrightarrow>
      crc_byte (x XOR ucast p) = crc_byte (y XOR ucast p)"
    using Cons by (simp add: crc_reference_def)
  also have "\<dots> \<longleftrightarrow> x XOR ucast p = y XOR ucast p"
    by (simp add: inj_eq [OF inj_crc_byte])
  also have "\<dots> \<longleftrightarrow> x = y" by simp
  finally show ?case .
qed

lemma ucast_up_down: "LENGTH('a) \<le> LENGTH('b) \<Longrightarrow> ucast (ucast (x :: 'a::len word) :: 'b::len word) = x"
  by (rule bit_word_eqI) (auto simp: bit_simps)

lemma crc32c_single_byte:
  assumes "a \<noteq> b"
  shows "crc32c_Value (pre @ a # post) \<noteq> crc32c_Value (pre @ b # post)"
proof
  assume "crc32c_Value (pre @ a # post) = crc32c_Value (pre @ b # post)"
  moreover define l where "l = crc_reference (0 XOR kCRC32Xor) pre"
  ultimately have "crc_reference (crc_byte (l XOR ucast a)) post XOR kCRC32Xor
      = crc_reference (crc_byte (l XOR ucast b)) post XOR kCRC32Xor"
    by (simp add: crc32c_Value_def Extend_reference crc_reference_def)
  then have "crc_reference (crc_byte (l XOR ucast a)) post
      = crc_reference (crc_byte (l XOR ucast b)) post"
    by simp
  then have "l XOR ucast a = l XOR ucast b"
    by (simp add: inj_eq [OF inj_crc_byte])
  then have "(ucast a :: u32) = ucast b" by simp
  then have "(ucast (ucast a :: u32) :: u8) = ucast (ucast b :: u32)" by simp
  then have "a = b" by (simp add: ucast_up_down)
  with assms show False by simp
qed

section \<open>The hardware routine\<close>

declare hardware_wide.simps [simp del] hardware_narrow.simps [simp del]

lemma hardware_wide_append:
  assumes "\<And>l bs. length bs = 8 \<Longrightarrow>
      crc32_u64 (ucast (l :: u32)) (le_word bs) = ucast (crc_reference l bs)"
  shows "\<exists>l'. hardware_wide crc32_u64 (ucast (l :: u32)) data = (ucast l', snd (hardware_wide crc32_u64 (ucast l) data)) \<and>
     crc_reference l' (snd (hardware_wide crc32_u64 (ucast l) data)) = crc_reference l data"
proof (induction "length data" arbitrary: data l rule: less_induct)
  case less
  show ?case
  proof (cases "length data \<ge> 8")
    case False
    then show ?thesis by (auto simp: hardware_wide.simps)
  next
    case True
    let ?l = "crc_reference l (take 8 data)"
    from True have step: "hardware_wide crc32_u64 (ucast l) data = hardware_wide crc32_u64 (ucast ?l) (drop 8 data)"
      by (subst hardware_wide.simps) (simp add: assms)
    have "crc_reference ?l (drop 8 data) = crc_reference l data"
      by (simp add: crc_reference_def flip: foldl_append)
    with less [of "drop 8 data" ?l] True step show ?thesis by auto
  qed
qed

lemma hardware_narrow_append:
  assumes "\<And>l bs. length bs = 4 \<Longrightarrow> crc32_u32 l (le_word bs) = crc_reference l bs"
  shows "crc_reference (fst (hardware_narrow crc32_u32 l data)) (snd (hardware_narrow crc32_u32 l data)) = crc_reference l data"
proof (induction "length data" arbitrary: data l rule: less_induct)
  case less
  show ?case
  proof (cases "length data \<ge> 4")
    case False
    then show ?thesis by (simp add: hardware_narrow.simps)
  next
    case True
    let ?l = "crc_reference l (take 4 data)"
    from True have step: "hardware_narrow crc32_u32 l data = hardware_narrow crc32_u32 ?l (drop 4 data)"
      by (subst hardware_narrow.simps) (simp add: assms)
    have "crc_reference ?l (drop 4 data) = crc_reference l data"
      by (simp add: crc_reference_def flip: foldl_append)
    with less [of "drop 4 data" ?l] True step show ?thesis by auto
  qed
qed

text \<open>What the instructions do: run the register over the bytes of the operand in memory order.\<close>

definition documented :: "crc_instructions \<Rightarrow> bool" where
  "documented cpu \<longleftrightarrow>
     (\<forall>l bs. length bs = 8 \<longrightarrow> cpu_u64 cpu (ucast (l :: u32)) (le_word bs) = ucast (crc_reference l bs)) \<and>
     (\<forall>l bs. length bs = 4 \<longrightarrow> cpu_u32 cpu l (le_word bs) = crc_reference l bs) \<and>
     (\<forall>l p. cpu_u8 cpu l p = crc_byte (l XOR ucast p))"

lemma ExtendHardware_reference:
  assumes "documented cpu"
  shows "ExtendHardware x86_64 cpu crc data = ExtendPortable crc data"
proof -
  let ?v = "crc XOR kCRC32Xor"
  have u8: "cpu_u8 cpu = (\<lambda>l p. crc_byte (l XOR ucast p))" using assms by (intro ext) (simp add: documented_def)
  show ?thesis
  proof (cases x86_64)
    case True
    let ?w = "hardware_wide (cpu_u64 cpu) (ucast ?v) data"
    have "\<And>l bs. length bs = 8 \<Longrightarrow> cpu_u64 cpu (ucast (l :: u32)) (le_word bs) = ucast (crc_reference l bs)"
      using assms by (simp add: documented_def)
    from hardware_wide_append [OF this, of ?v data] obtain l' rest where
      r: "?w = (ucast l', rest)" "crc_reference l' rest = crc_reference ?v data" by (metis snd_conv)
    then have "foldl (cpu_u8 cpu) (ucast (ucast l' :: u64)) rest = crc_reference ?v data"
      by (simp add: u8 crc_reference_def ucast_up_down)
    with True show ?thesis by (simp add: ExtendHardware_def ExtendPortable_reference r(1))
  next
    case False
    obtain v rest where r: "hardware_narrow (cpu_u32 cpu) ?v data = (v, rest)" by fastforce
    have "crc_reference v rest = crc_reference ?v data"
      using hardware_narrow_append [of "cpu_u32 cpu" ?v data] assms r by (simp add: documented_def)
    then have "foldl (cpu_u8 cpu) v rest = crc_reference ?v data" by (simp add: u8 crc_reference_def)
    with False show ?thesis by (simp add: ExtendHardware_def ExtendPortable_reference r)
  qed
qed

section \<open>Masking\<close>

lemma rotate_back:
  "drop_bit 17 (drop_bit 15 x OR push_bit 17 x) OR push_bit 15 (drop_bit 15 x OR push_bit 17 x)
     = (x :: u32)"
proof (rule bit_word_eqI)
  fix n assume "n < LENGTH(32)"
  then show "bit (drop_bit 17 (drop_bit 15 x OR push_bit 17 x) OR push_bit 15 (drop_bit 15 x OR push_bit 17 x)) n
      = bit x n"
    by (cases "n < 15") (auto simp: bit_simps dest: bit_imp_le_length)
qed

lemma Unmask_Mask: "Unmask (Mask crc) = crc"
  unfolding Unmask_def Mask_def Let_def add_diff_cancel_right' by (rule rotate_back)

section \<open>Properties\<close>

text \<open>
  C28: whichever routine the dispatch selects, on either target, the checksum is the one of
  the portable routine, and that is the bitwise CRC-32C register run over the data with its
  bits inverted before and after, provided the processor's 8-, 32- and 64-bit instructions run
  the register over the bytes of their operand in memory order.
\<close>

theorem crc_dispatch_agrees:
  assumes "documented cpu"
  shows "Extend_on x86_64 supports_sse42 cpu crc data = Extend crc data \<and>
    Extend crc data = crc_reference (crc XOR kCRC32Xor) data XOR kCRC32Xor"
proof
  show "Extend_on x86_64 supports_sse42 cpu crc data = Extend crc data"
    by (simp add: Extend_on_def Extend_def ExtendHardware_reference [OF assms])
qed (rule Extend_reference)

text \<open>Instructions that behave as documented.\<close>

definition reference_cpu :: crc_instructions where
  "reference_cpu =
     \<lparr>cpu_u64 = \<lambda>w v. ucast (crc_reference (ucast w) (rev (AppendU64 v))),
      cpu_u32 = \<lambda>l v. crc_reference l (rev (AppendU32 v)),
      cpu_u8 = \<lambda>l p. crc_byte (l XOR ucast p)\<rparr>"

lemma reference_cpu_documented: "documented reference_cpu"
  by (simp add: documented_def reference_cpu_def le_word_def Append_be_word ucast_up_down)

theorem crc_dispatch_agrees_witness:
  "Extend_on True True reference_cpu 0 [1, 2, 3, 4, 5, 6, 7, 8, 9] = Extend 0 [1, 2, 3, 4, 5, 6, 7, 8, 9] \<and>
   Extend_on False True reference_cpu 0 [1, 2, 3, 4, 5, 6, 7, 8, 9] = Extend 0 [1, 2, 3, 4, 5, 6, 7, 8, 9]"
  using crc_dispatch_agrees [OF reference_cpu_documented] by simp

text \<open>
  C29: a change of any one byte of a record changes its checksum, so every decoder that
  compares the stored checksum notices it.
\<close>

theorem crc_detects_byte_change:
  assumes "data' = data[i := b]" and "i < length data" and "b \<noteq> data ! i"
  shows "crc32c_Value data' \<noteq> crc32c_Value data"
proof -
  have d: "data = take i data @ data ! i # drop (Suc i) data"
    using assms(2) by (simp add: id_take_nth_drop)
  have d': "data' = take i data @ b # drop (Suc i) data"
    using assms(1,2) by (simp add: upd_conv_take_nth_drop)
  show ?thesis
    using crc32c_single_byte [OF assms(3), of "take i data" "drop (Suc i) data"] d d' by metis
qed

theorem crc_detects_byte_change_witness:
  "crc32c_Value [1, 2, 4] \<noteq> crc32c_Value [1, 2, 3]"
  using crc_detects_byte_change [of "[1, 2, 4]" "[1, 2, 3]" 2 4] by simp

end
