(* ===== verification/Record_Checksum.thy ===== *)
theory Record_Checksum
  imports Crc32c
begin

text \<open>
  The checksum trailer that every persistent record of the store carries: the last four
  bytes are the big-endian CRC-32C of everything before them. \<open>seal\<close> appends the
  trailer, \<open>sealed\<close> tests it, and the locale \<open>checked_decoder\<close> is the contract of a decoder
  that tests it before it trusts the record: such a decoder reports corruption whenever
  one byte of a stored record changes.
\<close>

definition seal :: "bytes \<Rightarrow> bytes" where
  "seal body = body @ AppendU32 (crc32c_Value body)"

definition sealed :: "bytes \<Rightarrow> bool" where
  "sealed s \<longleftrightarrow>
     4 \<le> length s \<and>
     be_word (drop (length s - 4) s) = crc32c_Value (take (length s - 4) s)"

lemma length_seal [simp]: "length (seal body) = length body + 4"
  by (simp add: seal_def)

lemma sealed_seal [simp]: "sealed (seal body)"
  by (simp add: sealed_def seal_def)

lemma sealed_iff: "sealed s \<longleftrightarrow> (\<exists>body. s = seal body)"
proof
  assume s: "sealed s"
  then have "AppendU32 (be_word (drop (length s - 4) s)) = drop (length s - 4) s"
    by (intro Append_be_word) (simp add: sealed_def)
  with s have "s = seal (take (length s - 4) s)"
    by (simp add: sealed_def seal_def)
  then show "\<exists>body. s = seal body" ..
qed auto

lemma sealed_eq: "sealed s \<Longrightarrow> s = seal (take (length s - 4) s)"
  by (auto simp: sealed_iff seal_def)

lemma ReadU32_trailer: "4 \<le> length s \<Longrightarrow>
   ReadU32 s (length s - 4) = Some (be_word (drop (length s - 4) s), length s)"
  by (simp add: ReadU32_def)

text \<open>The test the decoders make at the trailer is \<open>sealed\<close>.\<close>

lemma rbind_trailer:
  "4 \<le> length s \<Longrightarrow>
   rbind (ReadU32 s (length s - 4)) e
     (\<lambda>stored _. if stored \<noteq> crc32c_Value (take (length s - 4) s) then e else k)
   = (if sealed s then k else e)"
  by (simp add: ReadU32_trailer sealed_def)

lemma rbind_unsealed:
  "4 \<le> length s \<Longrightarrow> \<not> sealed s \<Longrightarrow>
   rbind (ReadU32 s (length s - 4)) e
     (\<lambda>stored _. if stored \<noteq> crc32c_Value (take (length s - 4) s) then e else k) = e"
  by (simp add: rbind_trailer)

lemma be_word_inj32:
  "length xs = 4 \<Longrightarrow> length ys = 4 \<Longrightarrow> (be_word xs :: u32) = be_word ys \<Longrightarrow> xs = ys"
  by (metis Append_be_word(2))

lemma crc32c_update:
  assumes "i < length s" "b \<noteq> s ! i"
  shows "crc32c_Value (s[i := b]) \<noteq> crc32c_Value s"
  using crc32c_single_byte [OF assms(2), of "take i s" "drop (Suc i) s"] assms(1)
  by (simp add: upd_conv_take_nth_drop flip: id_take_nth_drop)

lemma update_breaks_seal:
  assumes "sealed s" "i < length s" "b \<noteq> s ! i"
  shows "\<not> sealed (s[i := b])"
proof (cases "i < length s - 4")
  case True
  then have "crc32c_Value (take (length s - 4) (s[i := b])) \<noteq> crc32c_Value (take (length s - 4) s)"
    using assms crc32c_update [of i "take (length s - 4) s" b] by (simp add: take_update_swap)
  with True assms(1) show ?thesis
    by (simp add: sealed_def)
next
  case False
  then have "drop (length s - 4) (s[i := b]) \<noteq> drop (length s - 4) s"
    using assms(2,3) by (auto simp: list_eq_iff_nth_eq intro!: exI [of _ "i - (length s - 4)"])
  moreover have "length (drop (length s - 4) (s[i := b])) = 4" "length (drop (length s - 4) s) = 4"
    using assms(1) by (simp_all add: sealed_def)
  ultimately have "be_word (drop (length s - 4) (s[i := b])) \<noteq> (be_word (drop (length s - 4) s) :: u32)"
    by (metis be_word_inj32)
  with assms(1) False show ?thesis
    by (simp add: sealed_def)
qed

locale checked_decoder =
  fixes decode :: "bytes \<Rightarrow> 'a status_or"
  assumes unsealed: "\<not> sealed s \<Longrightarrow> has_code kCorruption (decode s)"
begin

lemma decode_sealed: "decode s = Inr x \<Longrightarrow> sealed s"
  using unsealed [of s] by (auto simp: has_code_def)

lemma byte_change_rejected:
  "sealed s \<Longrightarrow> i < length s \<Longrightarrow> b \<noteq> s ! i \<Longrightarrow> has_code kCorruption (decode (s[i := b]))"
  by (rule unsealed [OF update_breaks_seal])

lemma decoded_byte_change_rejected:
  "decode s = Inr x \<Longrightarrow> i < length s \<Longrightarrow> b \<noteq> s ! i \<Longrightarrow> has_code kCorruption (decode (s[i := b]))"
  by (rule byte_change_rejected [OF decode_sealed])

end

end
