(* ===== verification/Fact_Codec.thy ===== *)
theory Fact_Codec
  imports Facts Record_Checksum
begin

text \<open>
  \<^verbatim>\<open>src/src/storage/facts/fact_codec.cc\<close>: the 32-byte fact keys and the checksummed fact
  value records of the primary column family. Both codecs are shown to be bijections
  between the valid objects and the byte strings their decoders accept, keys are shown
  to sort in the order the readers seek in, and every single-byte change of a value
  record is detected. The big-endian primitives are in the prelude.
\<close>

section \<open>Value and identity payloads\<close>

definition kFactKeyVersion :: u8 where "kFactKeyVersion = 2"
definition kFactValueVersion :: u8 where "kFactValueVersion = 1"
definition kNoValueKind :: u8 where "kNoValueKind = 0"
definition kEdgeIdentityValueKind :: u8 where "kEdgeIdentityValueKind = 9"
definition kFactValueHeaderBytes :: nat where "kFactValueHeaderBytes = 11"
definition kFactValueChecksumBytes :: nat where "kFactValueChecksumBytes = 4"
definition kMaxFactValuePayloadBytes :: nat where "kMaxFactValuePayloadBytes = 16 * 1024 * 1024"
definition kEncodedFactKeyBytes :: nat where "kEncodedFactKeyBytes = 32"

lemmas fact_codec_constants =
  kFactKeyVersion_def kFactValueVersion_def kNoValueKind_def kEdgeIdentityValueKind_def
  kFactValueHeaderBytes_def kFactValueChecksumBytes_def kMaxFactValuePayloadBytes_def
  kEncodedFactKeyBytes_def

definition IsPhysicalType :: "u8 \<Rightarrow> bool" where
  "IsPhysicalType b \<longleftrightarrow> physical_type_byte kBool \<le> b \<and> b \<le> physical_type_byte kBinary"

fun value_payload :: "val \<Rightarrow> bytes" where
  "value_payload (VBool b) = [if b then 1 else 0]"
| "value_payload (VInt32 w) = AppendU32 w"
| "value_payload (VInt64 w) = AppendU64 w"
| "value_payload (VFloat32 bits) = AppendU32 bits"
| "value_payload (VFloat64 bits) = AppendU64 bits"
| "value_payload (VTimestamp w) = AppendU64 w"
| "value_payload (VString s) = s"
| "value_payload (VBinary s) = s"

definition EncodeValuePayload :: "val \<Rightarrow> bytes status_or" where
  "EncodeValuePayload v =
     (let payload = value_payload v in
      if length payload > kMaxFactValuePayloadBytes
      then InvalidArgument ''fact value'' ''payload exceeds size limit''
      else Inr payload)"

text \<open>A fixed-width payload must be consumed completely.\<close>

definition exact_read :: "('a \<times> nat) option \<Rightarrow> bytes \<Rightarrow> ('a \<Rightarrow> val) \<Rightarrow> val status_or" where
  "exact_read r payload mk =
     rbind r (Corruption ''fact value'' ''invalid physical value payload'') (\<lambda>w off.
       if off = length payload then Inr (mk w)
       else Corruption ''fact value'' ''invalid physical value payload'')"

fun DecodeValuePayload :: "physical_type \<Rightarrow> bytes \<Rightarrow> val status_or" where
  "DecodeValuePayload kBool payload =
     (if length payload \<noteq> 1 \<or> (payload ! 0 \<noteq> 0 \<and> payload ! 0 \<noteq> 1)
      then Corruption ''fact value'' ''invalid physical value payload''
      else Inr (VBool (payload ! 0 = 1)))"
| "DecodeValuePayload kInt32 payload = exact_read (ReadU32 payload 0) payload VInt32"
| "DecodeValuePayload kInt64 payload = exact_read (ReadU64 payload 0) payload VInt64"
| "DecodeValuePayload kFloat32 payload = exact_read (ReadU32 payload 0) payload VFloat32"
| "DecodeValuePayload kFloat64 payload = exact_read (ReadU64 payload 0) payload VFloat64"
| "DecodeValuePayload kTimestamp64 payload = exact_read (ReadU64 payload 0) payload VTimestamp"
| "DecodeValuePayload kString payload = Inr (VString payload)"
| "DecodeValuePayload kBinary payload = Inr (VBinary payload)"
| "DecodeValuePayload (PhysicalOther _) payload =
     Corruption ''fact value'' ''invalid physical value payload''"

definition EncodeEdgeIdentityPayload :: "edge_identity \<Rightarrow> bytes status_or" where
  "EncodeEdgeIdentityPayload i =
     sbind (EdgeIdentity_Validate i) (\<lambda>_. Inr
       (AppendU32 (ei_home i) @ AppendU64 (ei_edge i) @ AppendU32 (ei_source_part i) @
        AppendU64 (ei_source i) @ AppendU32 (ei_target_part i) @ AppendU64 (ei_target i) @
        AppendU64 (ei_type i)))"

definition DecodeEdgeIdentityPayload :: "bytes \<Rightarrow> edge_identity status_or" where
  "DecodeEdgeIdentityPayload payload =
     (let bad = Corruption ''edge identity fact'' ''invalid identity payload'' in
      if length payload \<noteq> 44
      then Corruption ''edge identity fact'' ''invalid identity payload length''
      else
       rbind (ReadU32 payload 0) bad (\<lambda>home off.
       rbind (ReadU64 payload off) bad (\<lambda>edge off.
       rbind (ReadU32 payload off) bad (\<lambda>source_part off.
       rbind (ReadU64 payload off) bad (\<lambda>source off.
       rbind (ReadU32 payload off) bad (\<lambda>target_part off.
       rbind (ReadU64 payload off) bad (\<lambda>target off.
       rbind (ReadU64 payload off) bad (\<lambda>type off.
         if off \<noteq> length payload then bad
         else
          let i = EdgeIdentity_init \<lparr>er_home = home, er_edge = edge\<rparr>
                    \<lparr>vr_part = source_part, vr_vertex = source\<rparr>
                    \<lparr>vr_part = target_part, vr_vertex = target\<rparr> type
          in sbind (as_corruption ''edge identity fact'' (EdgeIdentity_Validate i)) (\<lambda>_. Inr i)))))))))"

section \<open>Keys\<close>

record decoded_fact_key =
  dk_ref :: fact_ref
  dk_valid_from :: valid_time
  dk_commit_seq :: commit_seq

definition EncodeFactKey :: "fact_ref \<Rightarrow> valid_time \<Rightarrow> commit_seq \<Rightarrow> bytes" where
  "EncodeFactKey r valid_from seq =
     (if \<not> ok (FactRef_Validate r) \<or> seq = 0 then []
      else [kFactKeyVersion] @ AppendU32 (ref_part r) @ [family_byte (ref_family r)] @
           AppendU16 (ref_property r) @ AppendU64 (ref_entity r) @
           AppendU64 (NOT valid_from) @ AppendU64 (NOT seq))"

definition DecodeFactKey :: "bytes \<Rightarrow> decoded_fact_key status_or" where
  "DecodeFactKey encoded =
     (let bad = Corruption ''fact key'' ''invalid key encoding'' in
      if length encoded \<noteq> kEncodedFactKeyBytes
      then Corruption ''fact key'' ''incorrect fixed key length''
      else if encoded ! 0 \<noteq> kFactKeyVersion then bad
      else
       rbind (ReadU32 encoded 1) bad (\<lambda>part off.
         if off \<ge> length encoded then bad
         else
          let family = encoded ! off; off = off + 1 in
          rbind (ReadU16 encoded off) bad (\<lambda>prop off.
          rbind (ReadU64 encoded off) bad (\<lambda>entity off.
          rbind (ReadU64 encoded off) bad (\<lambda>valid_from_desc off.
          rbind (ReadU64 encoded off) bad (\<lambda>commit_seq_desc off.
            let r = \<lparr>ref_part = part, ref_family = family_of family, ref_property = prop,
                     ref_entity = entity\<rparr>;
                seq = NOT commit_seq_desc
            in if \<not> ok (FactRef_Validate r) \<or> seq = 0
               then Corruption ''fact key'' ''invalid fact identity''
               else Inr \<lparr>dk_ref = r, dk_valid_from = NOT valid_from_desc, dk_commit_seq = seq\<rparr>))))))"

section \<open>Value records\<close>

definition EncodeFactValue :: "fact_event \<Rightarrow> bytes status_or" where
  "EncodeFactValue e =
     sbind (FactEvent_Validate e) (\<lambda>_.
     sbind (case ev_identity e of
              Some i \<Rightarrow> sbind (EncodeEdgeIdentityPayload i) (\<lambda>p. Inr (kEdgeIdentityValueKind, p))
            | None \<Rightarrow>
               (case ev_value e of
                  Some v \<Rightarrow> sbind (EncodeValuePayload v) (\<lambda>p. Inr (physical_type_byte (val_type v), p))
                | None \<Rightarrow> Inr (kNoValueKind, [])))
       (\<lambda>(kind, payload).
         let encoded = [kFactValueVersion] @ [operation_byte (ev_operation e)] @
               AppendU32 (ev_schema_epoch e) @ [kind] @
               AppendU32 (of_nat (length payload)) @ payload
         in Inr (encoded @ AppendU32 (crc32c_Value encoded))))"

definition DecodeFactValue ::
  "fact_ref \<Rightarrow> valid_time \<Rightarrow> commit_seq \<Rightarrow> bytes \<Rightarrow> fact_event status_or" where
  "DecodeFactValue r valid_from seq encoded =
     (if length encoded < kFactValueHeaderBytes + kFactValueChecksumBytes
      then Corruption ''fact value'' ''truncated value record''
      else
       let version = encoded ! 0; operation = encoded ! 1;
           bad_format = Corruption ''fact value'' ''unsupported value format'';
           bad_length = Corruption ''fact value'' ''invalid payload length'';
           bad_crc = Corruption ''fact value'' ''CRC32C mismatch'' in
       if version \<noteq> kFactValueVersion then bad_format
       else
        rbind (ReadU32 encoded 2) bad_format (\<lambda>schema_epoch off.
        let kind = encoded ! off in
        rbind (ReadU32 encoded (off + 1)) bad_length (\<lambda>payload_length off.
        if unat payload_length > kMaxFactValuePayloadBytes \<or>
           length encoded - off \<noteq> unat payload_length + kFactValueChecksumBytes
        then bad_length
        else
         let checksum_offset = length encoded - kFactValueChecksumBytes in
         rbind (ReadU32 encoded checksum_offset) bad_crc (\<lambda>stored_checksum _.
         if stored_checksum \<noteq> crc32c_Value (take checksum_offset encoded) then bad_crc
         else
          let payload = take (unat payload_length) (drop off encoded);
              event = (\<lambda>value identity.
                 \<lparr>ev_ref = r, ev_valid_from = valid_from, ev_commit_seq = seq,
                  ev_operation = operation_of operation, ev_schema_epoch = schema_epoch,
                  ev_value = value, ev_identity = identity\<rparr>);
              finish = (\<lambda>e. sbind (as_corruption ''fact value'' (FactEvent_Validate e)) (\<lambda>_. Inr e))
          in
          if kind = kEdgeIdentityValueKind
          then sbind (DecodeEdgeIdentityPayload payload) (\<lambda>i. finish (event None (Some i)))
          else if kind = kNoValueKind
          then (if payload_length \<noteq> 0 then Corruption ''fact value'' ''missing value kind''
                else finish (event None None))
          else if \<not> IsPhysicalType kind
          then Corruption ''fact value'' ''unknown physical value kind''
          else sbind (DecodeValuePayload (physical_type_of kind) payload)
                 (\<lambda>v. finish (event (Some v) None))))))"

section \<open>Payload codecs\<close>

lemma val_type_not_other [simp]: "val_type v \<noteq> PhysicalOther b"
  by (cases v) simp_all

lemma exact_read_Inr_iff:
  "exact_read r payload mk = Inr v \<longleftrightarrow> (\<exists>w. r = Some (w, length payload) \<and> v = mk w)"
  by (auto simp: exact_read_def rbind_Inr_iff)

lemma Read_all_iff:
  "ReadU32 s 0 = Some (b, length s) \<longleftrightarrow> s = AppendU32 b"
  "ReadU64 s 0 = Some (c, length s) \<longleftrightarrow> s = AppendU64 c"
  using Read_drop(2) [of s 0 b "length s"] Read_drop(3) [of s 0 c "length s"]
  by (auto simp: codec_simps)

lemma single_byte_iff: "length s = Suc 0 \<and> s ! 0 = b \<longleftrightarrow> s = [b]"
  by (cases s) auto

lemma DecodeValuePayload_iff:
  "DecodeValuePayload t s = Inr v \<longleftrightarrow> t = val_type v \<and> s = value_payload v"
proof (cases t)
  case kBool
  then show ?thesis
    using single_byte_iff [of s 0] single_byte_iff [of s 1] by (cases v) auto
qed (cases v; auto simp: exact_read_Inr_iff Read_all_iff)+

lemma EncodeValuePayload_iff:
  "EncodeValuePayload v = Inr s \<longleftrightarrow> s = value_payload v \<and> length s \<le> kMaxFactValuePayloadBytes"
  by (auto simp: EncodeValuePayload_def Let_def)

definition identity_payload :: "edge_identity \<Rightarrow> bytes" where
  "identity_payload i =
     AppendU32 (ei_home i) @ AppendU64 (ei_edge i) @ AppendU32 (ei_source_part i) @
     AppendU64 (ei_source i) @ AppendU32 (ei_target_part i) @ AppendU64 (ei_target i) @
     AppendU64 (ei_type i)"

lemma length_identity_payload [simp]: "length (identity_payload i) = 44"
  by (simp add: identity_payload_def)

lemma EncodeEdgeIdentityPayload_iff:
  "EncodeEdgeIdentityPayload i = Inr s \<longleftrightarrow> EdgeIdentity_Validate i = OK \<and> s = identity_payload i"
  by (auto simp: EncodeEdgeIdentityPayload_def identity_payload_def sbind_Inr_iff)

lemma DecodeEdgeIdentityPayload_payload:
  "EdgeIdentity_Validate i = OK \<Longrightarrow> DecodeEdgeIdentityPayload (identity_payload i) = Inr i"
  by (cases i) (simp add: DecodeEdgeIdentityPayload_def identity_payload_def codec_simps
      EdgeIdentity_init_def)

text \<open>The seven field reads of an identity, shared with the metadata record.\<close>

lemma identity_reads:
  assumes r: "ReadU32 s 0 = Some (home, o1)" "ReadU64 s o1 = Some (edge, o2)"
    "ReadU32 s o2 = Some (sp, o3)" "ReadU64 s o3 = Some (src, o4)"
    "ReadU32 s o4 = Some (tp, o5)" "ReadU64 s o5 = Some (tgt, o6)"
    "ReadU64 s o6 = Some (ty, length s)"
  shows "s = identity_payload (EdgeIdentity_init \<lparr>er_home = home, er_edge = edge\<rparr>
    \<lparr>vr_part = sp, vr_vertex = src\<rparr> \<lparr>vr_part = tp, vr_vertex = tgt\<rparr> ty)"
  unfolding identity_payload_def EdgeIdentity_init_def
  using Read_drop(2) [OF r(1)] Read_drop(3) [OF r(2)] Read_drop(2) [OF r(3)]
    Read_drop(3) [OF r(4)] Read_drop(2) [OF r(5)] Read_drop(3) [OF r(6)]
    Read_drop(3) [OF r(7)] by simp

lemma DecodeEdgeIdentityPayload_Inr:
  "DecodeEdgeIdentityPayload s = Inr i \<Longrightarrow> EdgeIdentity_Validate i = OK \<and> s = identity_payload i"
  by (auto simp: DecodeEdgeIdentityPayload_def Let_def rbind_Inr_iff sbind_Inr_iff
      split: if_splits intro: identity_reads)

lemma DecodeEdgeIdentityPayload_iff:
  "DecodeEdgeIdentityPayload s = Inr i \<longleftrightarrow> EdgeIdentity_Validate i = OK \<and> s = identity_payload i"
  using DecodeEdgeIdentityPayload_Inr DecodeEdgeIdentityPayload_payload by blast

section \<open>Key codec\<close>

definition key_layout :: "fact_ref \<Rightarrow> valid_time \<Rightarrow> commit_seq \<Rightarrow> bytes" where
  "key_layout r valid_from seq =
     [kFactKeyVersion] @ AppendU32 (ref_part r) @ [family_byte (ref_family r)] @
     AppendU16 (ref_property r) @ AppendU64 (ref_entity r) @
     AppendU64 (NOT valid_from) @ AppendU64 (NOT seq)"

lemma length_key_layout [simp]: "length (key_layout r v c) = kEncodedFactKeyBytes"
  by (simp add: key_layout_def fact_codec_constants)

lemma EncodeFactKey_layout:
  "FactRef_Validate r = OK \<Longrightarrow> c \<noteq> 0 \<Longrightarrow> EncodeFactKey r v c = key_layout r v c"
  by (simp add: EncodeFactKey_def key_layout_def)

lemma DecodeFactKey_layout:
  assumes "FactRef_Validate r = OK" "c \<noteq> 0"
  shows "DecodeFactKey (key_layout r v c)
           = Inr \<lparr>dk_ref = r, dk_valid_from = v, dk_commit_seq = c\<rparr>"
proof -
  have "IsKnownFamily (ref_family r)"
    using assms(1) by (simp add: FactRef_Validate_OK_iff)
  with assms show ?thesis
    by (cases r) (simp add: DecodeFactKey_def key_layout_def codec_simps fact_codec_constants
        nth_append)
qed

lemma DecodeFactKey_Inr:
  assumes "DecodeFactKey s = Inr k"
  shows "FactRef_Validate (dk_ref k) = OK \<and> dk_commit_seq k \<noteq> 0 \<and>
         s = key_layout (dk_ref k) (dk_valid_from k) (dk_commit_seq k)"
proof -
  from assms obtain part p e v c o2 o3 o4 o5 where
    s: "length s = 32" "s ! 0 = kFactKeyVersion"
    and r: "ReadU32 s 1 = Some (part, 5)" "ReadU16 s 6 = Some (p, o2)"
       "ReadU64 s o2 = Some (e, o3)" "ReadU64 s o3 = Some (v, o4)" "ReadU64 s o4 = Some (c, o5)"
    and k: "k = \<lparr>dk_ref = \<lparr>ref_part = part, ref_family = family_of (s ! 5), ref_property = p,
                              ref_entity = e\<rparr>, dk_valid_from = NOT v, dk_commit_seq = NOT c\<rparr>"
    and valid: "FactRef_Validate (dk_ref k) = OK" "dk_commit_seq k \<noteq> 0"
    by (auto simp: DecodeFactKey_def Let_def rbind_Inr_iff kEncodedFactKeyBytes_def
        dest: Read_bounds split: if_splits)
  have "drop o5 s = []"
    using Read_bounds(1) [OF r(2)] Read_bounds(3) [OF r(3)] Read_bounds(3) [OF r(4)]
      Read_bounds(3) [OF r(5)] s(1) by simp
  moreover have "s = s ! 0 # drop 1 s" "drop 5 s = s ! 5 # drop 6 s"
    using nth_drop [of 0 s] nth_drop [of 5 s] s(1) by simp_all
  ultimately have "s = key_layout (dk_ref k) (dk_valid_from k) (dk_commit_seq k)"
    using Read_drop(2) [OF r(1)] Read_drop(1) [OF r(2)] Read_drop(3) [OF r(3)]
      Read_drop(3) [OF r(4)] Read_drop(3) [OF r(5)] s(2)
    by (simp add: key_layout_def k)
  with valid show ?thesis by simp
qed

lemma bytes_less_AppendU64_end:
  "bytes_less (AppendU64 c) (AppendU64 c') \<longleftrightarrow> c < c'"
  using bytes_less_Append(3) [of c "[]" c' "[]"] by simp

lemma key_layout_less:
  "bytes_less (key_layout r v c) (key_layout r' v' c') \<longleftrightarrow>
     ref_part r < ref_part r' \<or> ref_part r = ref_part r' \<and>
     (family_byte (ref_family r) < family_byte (ref_family r') \<or>
      family_byte (ref_family r) = family_byte (ref_family r') \<and>
     (ref_property r < ref_property r' \<or> ref_property r = ref_property r' \<and>
     (ref_entity r < ref_entity r' \<or> ref_entity r = ref_entity r' \<and>
     (v' < v \<or> v = v' \<and> c' < c))))"
  by (auto simp: key_layout_def bytes_less_Append bytes_less_AppendU64_end)

section \<open>Value record codec\<close>

definition value_body :: "u8 \<Rightarrow> u32 \<Rightarrow> u8 \<Rightarrow> bytes \<Rightarrow> bytes" where
  "value_body op epoch kind payload =
     [kFactValueVersion] @ [op] @ AppendU32 epoch @ [kind] @
     AppendU32 (of_nat (length payload)) @ payload"

definition event_kind :: "fact_event \<Rightarrow> u8" where
  "event_kind e =
     (case ev_identity e of Some i \<Rightarrow> kEdgeIdentityValueKind
      | None \<Rightarrow> (case ev_value e of Some v \<Rightarrow> physical_type_byte (val_type v) | None \<Rightarrow> kNoValueKind))"

definition event_payload :: "fact_event \<Rightarrow> bytes" where
  "event_payload e =
     (case ev_identity e of Some i \<Rightarrow> identity_payload i
      | None \<Rightarrow> (case ev_value e of Some v \<Rightarrow> value_payload v | None \<Rightarrow> []))"

text \<open>What an accepted event is stored as.\<close>

definition event_record :: "fact_event \<Rightarrow> bytes" where
  "event_record e =
     seal (value_body (operation_byte (ev_operation e)) (ev_schema_epoch e) (event_kind e)
             (event_payload e))"

definition storable :: "fact_event \<Rightarrow> bool" where
  "storable e \<longleftrightarrow>
     FactEvent_Validate e = OK \<and> length (event_payload e) \<le> kMaxFactValuePayloadBytes"

lemma FactEvent_identity_valid:
  "FactEvent_Validate e = OK \<Longrightarrow> ev_identity e = Some i \<Longrightarrow>
     EdgeIdentity_Validate i = OK \<and> ev_value e = None"
  by (auto simp: FactEvent_Validate_def sbind_Inr_iff split: if_splits)

lemma EncodeFactValue_iff: "EncodeFactValue e = Inr s \<longleftrightarrow> storable e \<and> s = event_record e"
proof (cases "ev_identity e")
  case None
  then show ?thesis
    by (cases "ev_value e")
      (auto simp: EncodeFactValue_def storable_def event_record_def event_kind_def
        event_payload_def sbind_Inr_iff EncodeValuePayload_iff seal_def value_body_def Let_def)
next
  case (Some i)
  then show ?thesis
    by (auto simp: EncodeFactValue_def storable_def event_record_def event_kind_def
        event_payload_def sbind_Inr_iff EncodeEdgeIdentityPayload_iff seal_def value_body_def
        Let_def kMaxFactValuePayloadBytes_def dest: FactEvent_identity_valid)
qed

text \<open>The decoder after the header and the checksum have been accepted.\<close>

definition value_tail ::
  "fact_ref \<Rightarrow> valid_time \<Rightarrow> commit_seq \<Rightarrow> u8 \<Rightarrow> u32 \<Rightarrow> u8 \<Rightarrow> bytes \<Rightarrow> fact_event status_or" where
  "value_tail r v c op epoch kind payload =
     (let event = (\<lambda>value identity.
            \<lparr>ev_ref = r, ev_valid_from = v, ev_commit_seq = c, ev_operation = operation_of op,
             ev_schema_epoch = epoch, ev_value = value, ev_identity = identity\<rparr>);
          finish = (\<lambda>e. sbind (as_corruption ''fact value'' (FactEvent_Validate e)) (\<lambda>_. Inr e))
      in if kind = kEdgeIdentityValueKind
         then sbind (DecodeEdgeIdentityPayload payload) (\<lambda>i. finish (event None (Some i)))
         else if kind = kNoValueKind
         then (if payload \<noteq> [] then Corruption ''fact value'' ''missing value kind''
               else finish (event None None))
         else if \<not> IsPhysicalType kind
         then Corruption ''fact value'' ''unknown physical value kind''
         else sbind (DecodeValuePayload (physical_type_of kind) payload)
                (\<lambda>w. finish (event (Some w) None)))"

lemma val_type_of_byte [simp]: "physical_type_of (physical_type_byte (val_type v)) = val_type v"
  by (cases v) (simp_all add: physical_type_of_def)

lemma physical_type_byte_of [simp]: "physical_type_byte (physical_type_of b) = b"
  by (simp add: physical_type_of_def)

lemma physical_type_of_eq: "physical_type_of b = t \<Longrightarrow> physical_type_byte t = b"
  by auto

lemma IsPhysicalType_val_type [simp]: "IsPhysicalType (physical_type_byte (val_type v))"
  by (cases v) (simp_all add: IsPhysicalType_def)

lemma kind_neq [simp]: "kNoValueKind \<noteq> kEdgeIdentityValueKind" "kEdgeIdentityValueKind \<noteq> kNoValueKind"
  by (simp_all add: fact_codec_constants)

lemma val_type_byte_kind [simp]:
  "physical_type_byte (val_type v) \<noteq> kEdgeIdentityValueKind"
  "physical_type_byte (val_type v) \<noteq> kNoValueKind"
  by (cases v; simp add: fact_codec_constants)+

lemma value_tail_iff:
  "value_tail r v c op epoch kind payload = Inr e \<longleftrightarrow>
     FactEvent_Validate e = OK \<and> ev_ref e = r \<and> ev_valid_from e = v \<and> ev_commit_seq e = c \<and>
     operation_byte (ev_operation e) = op \<and> ev_schema_epoch e = epoch \<and>
     event_kind e = kind \<and> event_payload e = payload"
  (is "?tail = Inr e \<longleftrightarrow> ?rhs")
proof
  assume "?tail = Inr e"
  then show ?rhs
    by (auto simp: value_tail_def Let_def sbind_Inr_iff DecodeEdgeIdentityPayload_iff
        DecodeValuePayload_iff event_kind_def event_payload_def physical_type_of_eq
        split: if_splits)
next
  assume rhs: ?rhs
  then have op: "operation_of op = ev_operation e"
    using FactEvent_Validate_op [of e] by auto
  show "?tail = Inr e"
  proof (cases "ev_identity e")
    case None
    with rhs op show ?thesis
      by (cases e; cases "ev_value e")
        (auto simp: value_tail_def event_kind_def event_payload_def
          DecodeValuePayload_iff sbind_Inr_iff)
  next
    case (Some i)
    with rhs op FactEvent_identity_valid [of e i] show ?thesis
      by (cases e) (auto simp: value_tail_def event_kind_def event_payload_def
          DecodeEdgeIdentityPayload_iff sbind_Inr_iff)
  qed
qed

lemma DecodeFactValue_seal:
  assumes "length payload \<le> kMaxFactValuePayloadBytes"
  shows "DecodeFactValue r v c (seal (value_body op epoch kind payload))
           = value_tail r v c op epoch kind payload"
proof -
  have n: "unat (of_nat (length payload) :: u32) = length payload"
    using assms by (simp add: unat_of_nat_small kMaxFactValuePayloadBytes_def)
  then have z: "(of_nat (length payload) :: u32) = 0 \<longleftrightarrow> payload = []"
    by (metis length_0_conv unat_eq_zero)
  define s where "s = seal (value_body op epoch kind payload)"
  have h: "s ! 0 = kFactValueVersion" "s ! 1 = op" "s ! 6 = kind"
    "ReadU32 s 2 = Some (epoch, 6)" "ReadU32 s 7 = Some (of_nat (length payload), 11)"
    "take (length payload) (drop 11 s) = payload"
    by (simp_all add: s_def seal_def value_body_def codec_simps nth_append)
  have len: "\<not> length s < 15" "4 \<le> length s" "length s - 11 = length payload + 4"
    by (simp_all add: s_def value_body_def)
  have "sealed s" by (simp add: s_def)
  then have t: "rbind (ReadU32 s (length s - 4)) err
      (\<lambda>stored _. if stored \<noteq> crc32c_Value (take (length s - 4) s) then err else k) = k"
    for err and k :: "fact_event status_or"
    by (simp add: rbind_trailer [OF len(2)])
  show ?thesis
    unfolding DecodeFactValue_def value_tail_def s_def [symmetric]
    using assms by (simp add: h [simplified] t len n z fact_codec_constants Let_def)
qed

lemma DecodeFactValue_unsealed:
  assumes "\<not> sealed s"
  shows "has_code kCorruption (DecodeFactValue r v c s)"
proof (cases "length s < 15")
  case True
  then show ?thesis by (simp add: DecodeFactValue_def fact_codec_constants)
next
  case False
  then have "4 \<le> length s" by simp
  from False show ?thesis
    by (simp add: DecodeFactValue_def Let_def fact_codec_constants
        rbind_unsealed [OF \<open>4 \<le> length s\<close> assms] has_code_rbind)
qed

interpretation fact_value: checked_decoder "DecodeFactValue r v c" for r v c
  by unfold_locales (rule DecodeFactValue_unsealed)

lemma DecodeFactValue_shape:
  assumes "DecodeFactValue r v c s = Inr e"
  shows "\<exists>op epoch kind payload. s = seal (value_body op epoch kind payload) \<and>
           length payload \<le> kMaxFactValuePayloadBytes"
proof -
  note D = assms [unfolded DecodeFactValue_def Let_def fact_codec_constants]
  from D have s: "15 \<le> length s" "s ! 0 = kFactValueVersion"
    by (simp_all add: kFactValueVersion_def split: if_splits)
  with D obtain epoch where r1: "ReadU32 s 2 = Some (epoch, 6)"
    by (cases "ReadU32 s 2") (auto simp: kFactValueVersion_def dest: Read_bounds)
  with D s obtain pl where r2: "ReadU32 s 7 = Some (pl, 11)"
    by (cases "ReadU32 s 7") (auto simp: kFactValueVersion_def dest: Read_bounds)
  with D s r1 have pl: "unat pl \<le> kMaxFactValuePayloadBytes" "length s - 11 = unat pl + 4"
    by (simp_all add: kFactValueVersion_def kMaxFactValuePayloadBytes_def split: if_splits)
  define payload where "payload = take (unat pl) (drop 11 s)"
  have len: "length payload = unat pl"
    using s(1) pl(2) by (simp add: payload_def)
  then have ofn: "of_nat (length payload) = pl"
    by simp
  have u: "s = s ! 0 # s ! 1 # drop 2 s"
    by (rule uncons2) (use s(1) in simp)
  have d6: "drop 6 s = s ! 6 # drop 7 s"
    using nth_drop [of 6 s] s(1) by simp
  have d11: "drop 11 s = payload @ drop (length s - 4) s"
  proof -
    have "length s - 4 = 11 + unat pl" using s(1) pl(2) by linarith
    then show ?thesis using drop_split [OF payload_def [symmetric]] by simp
  qed
  have "s ! 0 # s ! 1 # drop 2 s
      = value_body (s ! 1) epoch (s ! 6) payload @ drop (length s - 4) s"
    by (simp add: value_body_def Read_drop(2) [OF r1] Read_drop(2) [OF r2] s(2) d6 d11 ofn
        del: drop_Suc_Cons)
  with u have "s = value_body (s ! 1) epoch (s ! 6) payload @ drop (length s - 4) s"
    by (rule trans)
  moreover have "length (value_body (s ! 1) epoch (s ! 6) payload) = length s - 4"
    using len pl(2) s(1) by (simp add: value_body_def)
  ultimately have "take (length s - 4) s = value_body (s ! 1) epoch (s ! 6) payload"
    by (metis append_eq_conv_conj)
  with sealed_eq [OF fact_value.decode_sealed [OF assms]] len pl(1) show ?thesis
    by metis
qed

lemma DecodeFactValue_iff:
  "DecodeFactValue r v c s = Inr e \<longleftrightarrow>
     storable e \<and> ev_ref e = r \<and> ev_valid_from e = v \<and> ev_commit_seq e = c \<and> s = event_record e"
  (is "_ \<longleftrightarrow> ?rhs")
proof
  assume d: "DecodeFactValue r v c s = Inr e"
  from DecodeFactValue_shape [OF this] obtain op epoch kind payload where
    s: "s = seal (value_body op epoch kind payload)" "length payload \<le> kMaxFactValuePayloadBytes"
    by blast
  with d have "value_tail r v c op epoch kind payload = Inr e"
    by (simp add: DecodeFactValue_seal)
  then show ?rhs
    using s by (auto simp: value_tail_iff storable_def event_record_def)
next
  assume ?rhs
  then show "DecodeFactValue r v c s = Inr e"
    by (auto simp: event_record_def storable_def DecodeFactValue_seal value_tail_iff)
qed

lemma EncodeFactValue_sealed: "EncodeFactValue e = Inr s \<Longrightarrow> sealed s"
  by (simp add: EncodeFactValue_iff event_record_def)

section \<open>Properties\<close>

text \<open>
  C25: \<^verbatim>\<open>DecodeFactKey\<close> accepts exactly the strings \<^verbatim>\<open>EncodeFactKey\<close> produces for valid
  references and non-zero commit sequences, and returns what was encoded. The key
  encoding is therefore injective, the decoder is its inverse, and no second byte string
  denotes the same key.
\<close>

theorem fact_key_bijective:
  "DecodeFactKey s = Inr k \<longleftrightarrow>
     FactRef_Validate (dk_ref k) = OK \<and> dk_commit_seq k \<noteq> 0 \<and>
     s = EncodeFactKey (dk_ref k) (dk_valid_from k) (dk_commit_seq k)"
  using DecodeFactKey_Inr [of s k] DecodeFactKey_layout [of "dk_ref k" "dk_commit_seq k"]
    EncodeFactKey_layout [of "dk_ref k" "dk_commit_seq k"]
  by (cases k) auto

text \<open>
  C26: under the bytewise comparator of the store, fact keys sort by partition, family,
  property and entity, and within one fact by valid time and then commit sequence, both
  newest first. A forward scan from the key of \<open>(valid time, snapshot)\<close> therefore meets
  the corrections of the latest visible boundary first.
\<close>

theorem fact_key_order:
  assumes "FactRef_Validate r = OK" "c \<noteq> 0" "FactRef_Validate r' = OK" "c' \<noteq> 0"
  shows "bytes_less (EncodeFactKey r v c) (EncodeFactKey r' v' c') \<longleftrightarrow>
     ref_part r < ref_part r' \<or> ref_part r = ref_part r' \<and>
     (family_byte (ref_family r) < family_byte (ref_family r') \<or>
      family_byte (ref_family r) = family_byte (ref_family r') \<and>
     (ref_property r < ref_property r' \<or> ref_property r = ref_property r' \<and>
     (ref_entity r < ref_entity r' \<or> ref_entity r = ref_entity r' \<and>
     (v' < v \<or> v = v' \<and> c' < c))))"
  unfolding EncodeFactKey_layout [OF assms(1,2)] EncodeFactKey_layout [OF assms(3,4)]
  by (rule key_layout_less)

theorem fact_key_order_witness:
  "bytes_less (EncodeFactKey (EntityFact_Vertex \<lparr>vr_part = 1, vr_vertex = 7\<rparr>) 20 3)
              (EncodeFactKey (EntityFact_Vertex \<lparr>vr_part = 1, vr_vertex = 7\<rparr>) 10 9)"
  using fact_key_order [of "EntityFact_Vertex \<lparr>vr_part = 1, vr_vertex = 7\<rparr>" 3
      "EntityFact_Vertex \<lparr>vr_part = 1, vr_vertex = 7\<rparr>" 9 20 10] EntityFact_valid(1)
  by simp

text \<open>
  C24: \<^verbatim>\<open>DecodeFactValue\<close> inverts \<^verbatim>\<open>EncodeFactValue\<close>, and accepts nothing else: a record
  decodes to an event under the key \<open>(r, v, c)\<close> exactly when the event carries that key and
  encodes to that record.
\<close>

theorem fact_value_bijective:
  "DecodeFactValue r v c s = Inr e \<longleftrightarrow>
     EncodeFactValue e = Inr s \<and> ev_ref e = r \<and> ev_valid_from e = v \<and> ev_commit_seq e = c"
  by (auto simp: DecodeFactValue_iff EncodeFactValue_iff)

text \<open>
  Encoding an event succeeds exactly when the event is valid and its payload is
  within the 16 MiB limit, so the round trip covers every event the store accepts.
\<close>

theorem fact_value_encode_total:
  "ok (EncodeFactValue e) \<longleftrightarrow>
     FactEvent_Validate e = OK \<and>
     (case ev_value e of None \<Rightarrow> True | Some w \<Rightarrow> length (value_payload w) \<le> 16777216)"
proof -
  have "ok (EncodeFactValue e) \<longleftrightarrow> storable e"
    using EncodeFactValue_iff [of e] by (cases "EncodeFactValue e") auto
  then show ?thesis
    using FactEvent_identity_valid [of e]
    by (auto simp: storable_def event_payload_def kMaxFactValuePayloadBytes_def
        split: option.splits)
qed

text \<open>
  C27: whatever single byte of a stored value record changes (header, payload or
  checksum), and whatever key it is read under, \<^verbatim>\<open>DecodeFactValue\<close> reports corruption.
\<close>

theorem fact_value_byte_change:
  assumes "EncodeFactValue e = Inr s" "i < length s" "b \<noteq> s ! i"
  shows "has_code kCorruption (DecodeFactValue r v c (s[i := b]))"
  by (rule fact_value.byte_change_rejected [OF EncodeFactValue_sealed [OF assms(1)] assms(2,3)])

definition sample_event :: fact_event where
  "sample_event =
     \<lparr>ev_ref = PropertyFact_Vertex \<lparr>vr_part = 1, vr_vertex = 7\<rparr> 3, ev_valid_from = 10,
      ev_commit_seq = 4, ev_operation = kPut, ev_schema_epoch = 1, ev_value = Some (VInt64 5),
      ev_identity = None\<rparr>"

lemma sample_event_encodes: "EncodeFactValue sample_event = Inr (event_record sample_event)"
  using PropertyFact_valid(1) [of "\<lparr>vr_part = 1, vr_vertex = 7\<rparr>" 3]
  by (simp add: EncodeFactValue_iff storable_def FactEvent_Validate_def ValidateMutation_def
      sample_event_def IsKnownOperation_def IsProperty_def IsStateFamily_def PropertyFact_Vertex_def
      event_payload_def kMaxFactValuePayloadBytes_def)

theorem fact_value_byte_change_witness:
  "has_code kCorruption
     (DecodeFactValue (ev_ref sample_event) 10 4 ((event_record sample_event)[1 := 2]))"
proof (rule fact_value_byte_change [OF sample_event_encodes])
  show "1 < length (event_record sample_event)" "2 \<noteq> event_record sample_event ! 1"
    by (simp_all add: event_record_def seal_def value_body_def sample_event_def)
qed

end
