(* ===== verification/Record_Framing.thy ===== *)
theory Record_Framing
  imports Record_Checksum
begin

text \<open>
  The record frame that \<^verbatim>\<open>meta_codec.cc\<close> and \<^verbatim>\<open>prepared_commit_codec.cc\<close> both define for
  themselves: a version byte, a kind byte, a 32-bit payload length, the payload and the
  checksum trailer. The two copies differ only in the context string of their errors,
  which is a parameter here. A framed decoder accepts exactly the frames of its kind.
  The locale \<open>record_codec\<close> is the contract of a typed record on top of a frame.
\<close>

section \<open>Frames\<close>

definition kRecordVersion :: u8 where "kRecordVersion = 1"
definition kRecordHeaderBytes :: nat where "kRecordHeaderBytes = 6"
definition kRecordChecksumBytes :: nat where "kRecordChecksumBytes = 4"
definition kMaxPayloadBytes :: nat where "kMaxPayloadBytes = 16 * 1024 * 1024"

lemmas frame_constants =
  kRecordVersion_def kRecordHeaderBytes_def kRecordChecksumBytes_def kMaxPayloadBytes_def

definition EncodeFramed :: "string \<Rightarrow> u8 \<Rightarrow> bytes \<Rightarrow> bytes status_or" where
  "EncodeFramed ctx kind payload =
     (if length payload > kMaxPayloadBytes
      then InvalidArgument ctx ''payload exceeds size limit''
      else
       let encoded = [kRecordVersion] @ [kind] @ AppendU32 (of_nat (length payload)) @ payload
       in Inr (encoded @ AppendU32 (crc32c_Value encoded)))"

definition DecodeFramed :: "string \<Rightarrow> u8 \<Rightarrow> bytes \<Rightarrow> bytes status_or" where
  "DecodeFramed ctx expected_kind encoded =
     (if length encoded < kRecordHeaderBytes + kRecordChecksumBytes
      then Corruption ctx ''truncated record''
      else
       let version = encoded ! 0; kind = encoded ! 1;
           bad_header = Corruption ctx ''invalid record header'';
           bad_crc = Corruption ctx ''CRC32C mismatch'' in
       if version \<noteq> kRecordVersion \<or> kind \<noteq> expected_kind then bad_header
       else
        rbind (ReadU32 encoded 2) bad_header (\<lambda>payload_length off.
        if unat payload_length > kMaxPayloadBytes \<or>
           length encoded - off \<noteq> unat payload_length + kRecordChecksumBytes
        then bad_header
        else
         let checksum_offset = length encoded - kRecordChecksumBytes in
         rbind (ReadU32 encoded checksum_offset) bad_crc (\<lambda>stored_checksum _.
         if stored_checksum \<noteq> crc32c_Value (take checksum_offset encoded) then bad_crc
         else Inr (take (unat payload_length) (drop off encoded)))))"

section \<open>Frames are a bijection\<close>

definition frame :: "u8 \<Rightarrow> bytes \<Rightarrow> bytes" where
  "frame kind payload =
     seal ([kRecordVersion] @ [kind] @ AppendU32 (of_nat (length payload)) @ payload)"

lemma EncodeFramed_iff:
  "EncodeFramed ctx kind payload = Inr s \<longleftrightarrow>
     length payload \<le> kMaxPayloadBytes \<and> s = frame kind payload"
  by (auto simp: EncodeFramed_def frame_def seal_def Let_def)

lemma length_frame [simp]: "length (frame kind payload) = length payload + 10"
  by (simp add: frame_def)

lemma frame_nth [simp]:
  "frame kind payload ! 0 = kRecordVersion" "frame kind payload ! Suc 0 = kind"
  by (simp_all add: frame_def seal_def)

lemma DecodeFramed_frame:
  assumes "length payload \<le> kMaxPayloadBytes"
  shows "DecodeFramed ctx kind (frame kind payload) = Inr payload"
proof -
  have n: "unat (of_nat (length payload) :: u32) = length payload"
    using assms by (simp add: unat_of_nat_small kMaxPayloadBytes_def)
  define s where "s = frame kind payload"
  have h: "s ! 0 = kRecordVersion" "s ! Suc 0 = kind"
    "ReadU32 s 2 = Some (of_nat (length payload), 6)"
    "take (length payload) (drop 6 s) = payload"
    by (simp_all add: s_def) (simp_all add: frame_def seal_def codec_simps)
  have len: "\<not> length s < 10" "4 \<le> length s" "length s - 6 = length payload + 4"
    by (simp_all add: s_def)
  have "sealed s" by (simp add: s_def frame_def)
  then have t: "rbind (ReadU32 s (length s - 4)) err
      (\<lambda>stored _. if stored \<noteq> crc32c_Value (take (length s - 4) s) then err else k) = k"
    for err and k :: "bytes status_or"
    by (simp add: rbind_trailer [OF len(2)])
  show ?thesis
    unfolding DecodeFramed_def s_def [symmetric]
    using assms by (simp add: h t len n frame_constants Let_def)
qed

lemma DecodeFramed_unsealed:
  assumes "\<not> sealed s"
  shows "has_code kCorruption (DecodeFramed ctx kind s)"
proof (cases "length s < 10")
  case True
  then show ?thesis by (simp add: DecodeFramed_def frame_constants)
next
  case False
  then have "4 \<le> length s" by simp
  from False show ?thesis
    by (simp add: DecodeFramed_def Let_def frame_constants
        rbind_unsealed [OF \<open>4 \<le> length s\<close> assms] has_code_rbind)
qed

interpretation framed: checked_decoder "DecodeFramed ctx kind" for ctx kind
  by unfold_locales (rule DecodeFramed_unsealed)

lemma DecodeFramed_Inl: "DecodeFramed ctx kind s = Inl e \<Longrightarrow> error_code e = kCorruption"
  by (auto simp: DecodeFramed_def rbind_def Let_def Status_init_def
      split: if_splits option.splits)

lemma DecodeFramed_Inr:
  assumes "DecodeFramed ctx kind s = Inr payload"
  shows "length payload \<le> kMaxPayloadBytes \<and> s = frame kind payload"
proof -
  note D = assms [unfolded DecodeFramed_def Let_def frame_constants]
  from D have s: "10 \<le> length s" "s ! 0 = kRecordVersion" "s ! 1 = kind"
    by (simp_all add: kRecordVersion_def split: if_splits)
  with D obtain pl where r: "ReadU32 s 2 = Some (pl, 6)"
    by (cases "ReadU32 s 2") (auto simp: kRecordVersion_def dest: Read_bounds)
  with D s have pl: "unat pl \<le> kMaxPayloadBytes" "length s - 6 = unat pl + 4"
    by (simp_all add: kRecordVersion_def kMaxPayloadBytes_def split: if_splits)
  from D s r pl have p: "payload = take (unat pl) (drop 6 s)"
    by (auto simp: kRecordVersion_def kMaxPayloadBytes_def rbind_Inr_iff split: if_splits)
  have len: "length payload = unat pl"
    using s(1) pl(2) by (simp add: p)
  have u: "s = s ! 0 # s ! 1 # drop 2 s"
    by (rule uncons2) (use s(1) in simp)
  have d6: "drop 6 s = payload @ drop (length s - 4) s"
  proof -
    have "length s - 4 = 6 + unat pl" using s(1) pl(2) by linarith
    then show ?thesis using drop_split [OF p [symmetric]] by simp
  qed
  let ?body = "[kRecordVersion] @ [kind] @ AppendU32 (of_nat (length payload)) @ payload"
  have "s ! 0 # s ! 1 # drop 2 s = ?body @ drop (length s - 4) s"
    by (simp add: Read_drop(2) [OF r] s(2,3) [simplified] d6 len)
  with u have "s = ?body @ drop (length s - 4) s"
    by (rule trans)
  moreover have "length ?body = length s - 4"
    using len pl(2) s(1) by simp
  ultimately have "take (length s - 4) s = ?body"
    by (metis append_eq_conv_conj)
  with sealed_eq [OF framed.decode_sealed [OF assms]] have "s = frame kind payload"
    unfolding frame_def by metis
  with len pl(1) show ?thesis by simp
qed

lemma DecodeFramed_iff:
  "DecodeFramed ctx kind s = Inr payload \<longleftrightarrow>
     length payload \<le> kMaxPayloadBytes \<and> s = frame kind payload"
  using DecodeFramed_Inr DecodeFramed_frame by blast

lemma frame_inject:
  assumes "length p \<le> kMaxPayloadBytes" "length q \<le> kMaxPayloadBytes"
  shows "frame k p = frame l q \<longleftrightarrow> k = l \<and> p = q"
  by (metis assms DecodeFramed_frame frame_nth(2) sum.inject(2))

section \<open>Typed records\<close>

text \<open>
  A typed record is encoded by framing the payload of a valid object, and decoded by
  accepting exactly those frames.
\<close>

locale record_codec =
  fixes kind :: u8
    and valid :: "'a \<Rightarrow> bool"
    and payload :: "'a \<Rightarrow> bytes"
    and encode :: "'a \<Rightarrow> bytes status_or"
    and decode :: "bytes \<Rightarrow> 'a status_or"
  assumes encode_iff: "encode x = Inr s \<longleftrightarrow>
      valid x \<and> length (payload x) \<le> kMaxPayloadBytes \<and> s = frame kind (payload x)"
    and decode_iff: "decode s = Inr x \<longleftrightarrow>
      valid x \<and> length (payload x) \<le> kMaxPayloadBytes \<and> s = frame kind (payload x)"
begin

lemma decode_encode: "decode s = Inr x \<longleftrightarrow> encode x = Inr s"
  by (simp add: decode_iff encode_iff)

lemma encode_inject: "encode x = Inr s \<Longrightarrow> encode y = Inr s \<Longrightarrow> x = y"
  by (metis decode_encode sum.inject(2))

lemma other_kind_rejected: "k \<noteq> kind \<Longrightarrow> \<not> ok (decode (frame k p))"
proof
  assume "k \<noteq> kind" "ok (decode (frame k p))"
  then obtain x where "frame k p = frame kind (payload x)"
    by (cases "decode (frame k p)") (auto simp: decode_iff)
  then have "frame k p ! Suc 0 = frame kind (payload x) ! Suc 0" by simp
  with \<open>k \<noteq> kind\<close> show False by simp
qed

end

end
