(* ===== verification/Meta_Codec.thy ===== *)
theory Meta_Codec
  imports Fact_Codec Record_Framing
begin

text \<open>
  \<^verbatim>\<open>src/include/cedar/fact/meta_codec.h\<close>, \<^verbatim>\<open>src/include/cedar/schema.h\<close> and
  \<^verbatim>\<open>src/src/storage/facts/meta_codec.cc\<close>: the keys and the framed records of the metadata
  column family, except the sequence records (theory \<open>Sequence_Codec\<close>). Each typed record
  is shown to satisfy the \<open>record_codec\<close> contract.
\<close>

section \<open>Data\<close>

datatype meta_record_kind =
    MetaSystemIdentity | MetaWatermark | MetaPropertyDefinition | MetaEdgeIdentity
  | MetaIdAllocator | MetaTransactionOutcome | MetaSequence | MetaVacuumState
  | MetaSequenceV2 | MetaSequenceFormat

fun meta_kind_byte :: "meta_record_kind \<Rightarrow> u8" where
  "meta_kind_byte MetaSystemIdentity = 1"
| "meta_kind_byte MetaWatermark = 2"
| "meta_kind_byte MetaPropertyDefinition = 3"
| "meta_kind_byte MetaEdgeIdentity = 4"
| "meta_kind_byte MetaIdAllocator = 5"
| "meta_kind_byte MetaTransactionOutcome = 6"
| "meta_kind_byte MetaSequence = 7"
| "meta_kind_byte MetaVacuumState = 8"
| "meta_kind_byte MetaSequenceV2 = 9"
| "meta_kind_byte MetaSequenceFormat = 10"

definition kMaxPropertyNameBytes :: nat where "kMaxPropertyNameBytes = 4096"

datatype id_kind = IdVertex | IdEdge | IdTransaction | IdOther u8

fun id_kind_byte :: "id_kind \<Rightarrow> u8" where
  "id_kind_byte IdVertex = 1"
| "id_kind_byte IdEdge = 2"
| "id_kind_byte IdTransaction = 3"
| "id_kind_byte (IdOther b) = b"

definition id_kind_of :: "u8 \<Rightarrow> id_kind" where
  "id_kind_of b =
     (if b = 1 then IdVertex else if b = 2 then IdEdge else if b = 3 then IdTransaction
      else IdOther b)"

record id_allocator_state =
  ia_kind :: id_kind
  ia_next_id :: u64

datatype transaction_outcome = OutcomeCommitted | OutcomeOther u8

fun outcome_byte :: "transaction_outcome \<Rightarrow> u8" where
  "outcome_byte OutcomeCommitted = 1"
| "outcome_byte (OutcomeOther b) = b"

definition outcome_of :: "u8 \<Rightarrow> transaction_outcome" where
  "outcome_of b = (if b = 1 then OutcomeCommitted else OutcomeOther b)"

record transaction_outcome_record =
  to_txn_id :: txn_id
  to_commit_seq :: commit_seq
  to_outcome :: transaction_outcome

datatype vacuum_phase = VacuumPrepared | VacuumRunning | VacuumOther u8

fun vacuum_phase_byte :: "vacuum_phase \<Rightarrow> u8" where
  "vacuum_phase_byte VacuumPrepared = 1"
| "vacuum_phase_byte VacuumRunning = 2"
| "vacuum_phase_byte (VacuumOther b) = b"

definition vacuum_phase_of :: "u8 \<Rightarrow> vacuum_phase" where
  "vacuum_phase_of b =
     (if b = 1 then VacuumPrepared else if b = 2 then VacuumRunning else VacuumOther b)"

record vacuum_state =
  vs_target :: commit_seq
  vs_phase :: vacuum_phase
  vs_cursor :: bytes

record system_identity =
  si_system :: bytes
  si_system_format :: u32
  si_fact_key_format :: bytes
  si_facts_table_format :: bytes
  si_comparator_digest :: bytes

datatype property_entity_kind = PropVertex | PropEdge | PropOther u8

fun entity_kind_byte :: "property_entity_kind \<Rightarrow> u8" where
  "entity_kind_byte PropVertex = 1"
| "entity_kind_byte PropEdge = 2"
| "entity_kind_byte (PropOther b) = b"

definition entity_kind_of :: "u8 \<Rightarrow> property_entity_kind" where
  "entity_kind_of b = (if b = 1 then PropVertex else if b = 2 then PropEdge else PropOther b)"

record property_definition =
  pd_property_id :: property_id
  pd_schema_epoch :: u32
  pd_name :: bytes
  pd_entity_kind :: property_entity_kind
  pd_physical_type :: physical_type
  pd_blob_threshold :: u64

section \<open>Validation\<close>

text \<open>
  \<^verbatim>\<open>IsPhysicalType\<close> on the byte of a physical type: \<open>PhysicalOther\<close> stands for the bytes that
  name no enumerator, so the test is whether the type is a named one
  (\<open>known_physical_type_of\<close> below).
\<close>

fun known_physical_type :: "physical_type \<Rightarrow> bool" where
  "known_physical_type (PhysicalOther _) = False"
| "known_physical_type _ = True"

definition PropertyDefinition_Validate :: "property_definition \<Rightarrow> status" where
  "PropertyDefinition_Validate d =
     (if pd_property_id d = 0 \<or> pd_schema_epoch d = 0 \<or> pd_name d = [] \<or>
         length (pd_name d) > kMaxPropertyNameBytes \<or> pd_blob_threshold d = 0 \<or>
         (pd_entity_kind d \<noteq> PropVertex \<and> pd_entity_kind d \<noteq> PropEdge) \<or>
         \<not> known_physical_type (pd_physical_type d)
      then InvalidArgument ''property definition'' ''invalid schema definition''
      else OK)"

definition IdAllocatorState_Validate :: "id_allocator_state \<Rightarrow> status" where
  "IdAllocatorState_Validate a =
     (if ia_next_id a = 0 \<or>
         (ia_kind a \<noteq> IdVertex \<and> ia_kind a \<noteq> IdEdge \<and> ia_kind a \<noteq> IdTransaction)
      then InvalidArgument ''ID allocator'' ''invalid allocator state''
      else OK)"

definition TransactionOutcomeRecord_Validate :: "transaction_outcome_record \<Rightarrow> status" where
  "TransactionOutcomeRecord_Validate t =
     (if to_txn_id t = 0 \<or> to_commit_seq t = 0 \<or> to_outcome t \<noteq> OutcomeCommitted
      then InvalidArgument ''transaction outcome'' ''invalid outcome record''
      else OK)"

definition VacuumState_Validate :: "vacuum_state \<Rightarrow> status" where
  "VacuumState_Validate v =
     (if vs_target v = 0 \<or> (vs_phase v \<noteq> VacuumPrepared \<and> vs_phase v \<noteq> VacuumRunning) \<or>
         (vs_cursor v \<noteq> [] \<and> length (vs_cursor v) \<noteq> kEncodedFactKeyBytes)
      then InvalidArgument ''vacuum state'' ''zero vacuum target''
      else OK)"

definition SystemIdentity_Validate :: "system_identity \<Rightarrow> status" where
  "SystemIdentity_Validate i =
     (if si_system i \<noteq> ascii ''cedar.authoritative-columnar'' \<or> si_system_format i \<noteq> 1 \<or>
         si_fact_key_format i \<noteq> ascii ''part32.fact.v2'' \<or>
         si_facts_table_format i \<noteq> ascii ''cedar.parquet.facts.v3'' \<or>
         si_comparator_digest i \<noteq> ascii ''cedar.v2.internal-key.bytewise.v1''
      then InvalidArgument ''system identity'' ''unsupported identity''
      else OK)"

section \<open>Keys\<close>

definition EncodeCurrentFormatKey :: bytes where
  "EncodeCurrentFormatKey = ascii ''format/current''"

definition EncodeSchemaMetaKey :: "property_id \<Rightarrow> u32 \<Rightarrow> bytes status_or" where
  "EncodeSchemaMetaKey p epoch =
     (if p = 0 \<or> epoch = 0 then InvalidArgument ''schema key'' ''zero property ID or epoch''
      else Inr (ascii ''schema/'' @ AppendU16 p @ ascii ''/'' @ AppendU32 epoch))"

definition EncodeEdgeIdentityMetaKey :: "edge_ref \<Rightarrow> bytes status_or" where
  "EncodeEdgeIdentityMetaKey e =
     (if er_edge e = 0 then InvalidArgument ''edge key'' ''zero edge ID''
      else Inr (ascii ''edge/'' @ AppendU32 (er_home e) @ AppendU64 (er_edge e)))"

fun EncodeAllocatorMetaKey :: "id_kind \<Rightarrow> bytes" where
  "EncodeAllocatorMetaKey IdVertex = ascii ''allocator/vertex_next''"
| "EncodeAllocatorMetaKey IdEdge = ascii ''allocator/edge_next''"
| "EncodeAllocatorMetaKey IdTransaction = ascii ''allocator/transaction_next''"
| "EncodeAllocatorMetaKey (IdOther _) = ascii ''allocator/invalid''"

definition EncodeTransactionMetaKey :: "txn_id \<Rightarrow> bytes status_or" where
  "EncodeTransactionMetaKey t =
     (if t = 0 then InvalidArgument ''transaction key'' ''zero transaction ID''
      else Inr (ascii ''txn/'' @ AppendU64 t))"

definition EncodeSequenceMetaKey :: "commit_seq \<Rightarrow> bytes status_or" where
  "EncodeSequenceMetaKey c =
     (if c = 0 then InvalidArgument ''sequence key'' ''zero commit sequence''
      else Inr (ascii ''sequence/'' @ AppendU64 c))"

definition EncodeVisibleWatermarkKey :: bytes where
  "EncodeVisibleWatermarkKey = ascii ''watermark/visible''"

definition EncodeOldestReadableWatermarkKey :: bytes where
  "EncodeOldestReadableWatermarkKey = ascii ''watermark/oldest_readable''"

definition EncodeSequenceRetentionWatermarkKey :: bytes where
  "EncodeSequenceRetentionWatermarkKey = ascii ''watermark/sequence-retention''"

definition EncodeVacuumStateKey :: bytes where
  "EncodeVacuumStateKey = ascii ''vacuum/state''"

definition EncodeSequenceFormatKey :: bytes where
  "EncodeSequenceFormatKey = ascii ''format/sequence-record-format''"

section \<open>Records\<close>

definition AppendString :: "bytes \<Rightarrow> bytes" where
  "AppendString v = AppendU16 (of_nat (length v)) @ v"

definition ReadString :: "bytes reader" where
  "ReadString input off =
     (case ReadU16 input off of
        None \<Rightarrow> None
      | Some (len, off) \<Rightarrow>
          if length input - off < unat len then None
          else Some (take (unat len) (drop off input), off + unat len))"

definition EncodeRecord :: "meta_record_kind \<Rightarrow> bytes \<Rightarrow> bytes status_or" where
  "EncodeRecord kind payload = EncodeFramed ''metadata'' (meta_kind_byte kind) payload"

definition DecodeRecordView :: "meta_record_kind \<Rightarrow> bytes \<Rightarrow> bytes status_or" where
  "DecodeRecordView kind encoded = DecodeFramed ''metadata'' (meta_kind_byte kind) encoded"

definition DecodeRecord :: "meta_record_kind \<Rightarrow> bytes \<Rightarrow> bytes status_or" where
  "DecodeRecord kind encoded = sbind (DecodeRecordView kind encoded) Inr"

definition EncodeSequenceFormat :: "u32 \<Rightarrow> bytes status_or" where
  "EncodeSequenceFormat format = EncodeRecord MetaSequenceFormat (AppendU32 format)"

definition DecodeSequenceFormat :: "bytes \<Rightarrow> u32 status_or" where
  "DecodeSequenceFormat encoded =
     sbind (DecodeRecord MetaSequenceFormat encoded) (\<lambda>payload.
       let bad = Corruption ''sequence format'' ''invalid sequence format marker record'' in
       rbind (ReadU32 payload 0) bad (\<lambda>format off.
         if off \<noteq> 4 then bad else Inr format))"

definition EncodeSystemIdentity :: "system_identity \<Rightarrow> bytes status_or" where
  "EncodeSystemIdentity i =
     sbind (SystemIdentity_Validate i) (\<lambda>_.
       EncodeRecord MetaSystemIdentity
         (AppendString (si_system i) @ AppendU32 (si_system_format i) @
          AppendString (si_fact_key_format i) @ AppendString (si_facts_table_format i) @
          AppendString (si_comparator_digest i)))"

definition DecodeSystemIdentity :: "bytes \<Rightarrow> system_identity status_or" where
  "DecodeSystemIdentity encoded =
     sbind (DecodeRecord MetaSystemIdentity encoded) (\<lambda>payload.
       let bad = Corruption ''system identity'' ''invalid identity record'' in
       rbind (ReadString payload 0) bad (\<lambda>system off.
       rbind (ReadU32 payload off) bad (\<lambda>system_format off.
       rbind (ReadString payload off) bad (\<lambda>key_format off.
       rbind (ReadString payload off) bad (\<lambda>table_format off.
       rbind (ReadString payload off) bad (\<lambda>digest off.
         if off \<noteq> length payload then bad
         else
          let i = \<lparr>si_system = system, si_system_format = system_format,
                   si_fact_key_format = key_format, si_facts_table_format = table_format,
                   si_comparator_digest = digest\<rparr>
          in sbind (as_corruption ''system identity'' (SystemIdentity_Validate i)) (\<lambda>_. Inr i)))))))"

definition EncodeWatermark :: "commit_seq \<Rightarrow> bytes status_or" where
  "EncodeWatermark watermark = EncodeRecord MetaWatermark (AppendU64 watermark)"

definition DecodeWatermark :: "bytes \<Rightarrow> commit_seq status_or" where
  "DecodeWatermark encoded =
     sbind (DecodeRecord MetaWatermark encoded) (\<lambda>payload.
       let bad = Corruption ''watermark'' ''invalid watermark record'' in
       rbind (ReadU64 payload 0) bad (\<lambda>watermark off.
         if off \<noteq> 8 then bad else Inr watermark))"

definition EncodePropertyDefinition :: "property_definition \<Rightarrow> bytes status_or" where
  "EncodePropertyDefinition d =
     sbind (PropertyDefinition_Validate d) (\<lambda>_.
       EncodeRecord MetaPropertyDefinition
         (AppendU16 (pd_property_id d) @ AppendU32 (pd_schema_epoch d) @
          [entity_kind_byte (pd_entity_kind d)] @ [physical_type_byte (pd_physical_type d)] @
          AppendU64 (pd_blob_threshold d) @ AppendU16 (of_nat (length (pd_name d))) @ pd_name d))"

definition DecodePropertyDefinition :: "bytes \<Rightarrow> property_definition status_or" where
  "DecodePropertyDefinition encoded =
     sbind (DecodeRecord MetaPropertyDefinition encoded) (\<lambda>payload.
       let truncated = Corruption ''property definition'' ''truncated schema record'';
           bad = Corruption ''property definition'' ''invalid schema record'' in
       rbind (ReadU16 payload 0) truncated (\<lambda>property_id off.
       rbind (ReadU32 payload off) truncated (\<lambda>epoch off.
       if off + 2 > length payload then truncated
       else
        let entity_kind = payload ! off; physical_type = payload ! (off + 1) in
        rbind (ReadU64 payload (off + 2)) bad (\<lambda>blob_threshold off.
        rbind (ReadU16 payload off) bad (\<lambda>name_length off.
        if unat name_length \<noteq> length payload - off then bad
        else
         let d = \<lparr>pd_property_id = property_id, pd_schema_epoch = epoch,
                  pd_name = drop off payload, pd_entity_kind = entity_kind_of entity_kind,
                  pd_physical_type = physical_type_of physical_type,
                  pd_blob_threshold = blob_threshold\<rparr>
         in sbind (as_corruption ''property definition'' (PropertyDefinition_Validate d))
              (\<lambda>_. Inr d))))))"

definition EncodeEdgeIdentity :: "edge_identity \<Rightarrow> bytes status_or" where
  "EncodeEdgeIdentity i =
     sbind (EdgeIdentity_Validate i) (\<lambda>_.
       EncodeRecord MetaEdgeIdentity
         (AppendU32 (ei_home i) @ AppendU64 (ei_edge i) @ AppendU32 (ei_source_part i) @
          AppendU64 (ei_source i) @ AppendU32 (ei_target_part i) @ AppendU64 (ei_target i) @
          AppendU64 (ei_type i)))"

definition DecodeEdgeIdentity :: "bytes \<Rightarrow> edge_identity status_or" where
  "DecodeEdgeIdentity encoded =
     sbind (DecodeRecord MetaEdgeIdentity encoded) (\<lambda>payload.
       let bad = Corruption ''edge identity'' ''invalid edge record'' in
       rbind (ReadU32 payload 0) bad (\<lambda>home off.
       rbind (ReadU64 payload off) bad (\<lambda>edge off.
       rbind (ReadU32 payload off) bad (\<lambda>source_part off.
       rbind (ReadU64 payload off) bad (\<lambda>source off.
       rbind (ReadU32 payload off) bad (\<lambda>target_part off.
       rbind (ReadU64 payload off) bad (\<lambda>target off.
       rbind (ReadU64 payload off) bad (\<lambda>type off.
         if off \<noteq> length payload then bad
         else
          let i = EdgeIdentity_init \<lparr>er_home = home, er_edge = edge\<rparr>
                    \<lparr>vr_part = source_part, vr_vertex = source\<rparr>
                    \<lparr>vr_part = target_part, vr_vertex = target\<rparr> type
          in sbind (as_corruption ''edge identity'' (EdgeIdentity_Validate i)) (\<lambda>_. Inr i)))))))))"

definition EncodeIdAllocatorState :: "id_allocator_state \<Rightarrow> bytes status_or" where
  "EncodeIdAllocatorState a =
     sbind (IdAllocatorState_Validate a) (\<lambda>_.
       EncodeRecord MetaIdAllocator ([id_kind_byte (ia_kind a)] @ AppendU64 (ia_next_id a)))"

definition DecodeIdAllocatorState :: "bytes \<Rightarrow> id_allocator_state status_or" where
  "DecodeIdAllocatorState encoded =
     sbind (DecodeRecord MetaIdAllocator encoded) (\<lambda>payload.
       if length payload \<noteq> 9 then Corruption ''ID allocator'' ''invalid allocator record''
       else
        rbind (ReadU64 payload 1) (Corruption ''ID allocator'' ''truncated allocator record'')
          (\<lambda>next_id off.
            let a = \<lparr>ia_kind = id_kind_of (payload ! 0), ia_next_id = next_id\<rparr>
            in sbind (as_corruption ''ID allocator'' (IdAllocatorState_Validate a)) (\<lambda>_. Inr a)))"

definition EncodeTransactionOutcome :: "transaction_outcome_record \<Rightarrow> bytes status_or" where
  "EncodeTransactionOutcome t =
     sbind (TransactionOutcomeRecord_Validate t) (\<lambda>_.
       EncodeRecord MetaTransactionOutcome
         (AppendU64 (to_txn_id t) @ AppendU64 (to_commit_seq t) @ [outcome_byte (to_outcome t)]))"

definition DecodeTransactionOutcome :: "bytes \<Rightarrow> transaction_outcome_record status_or" where
  "DecodeTransactionOutcome encoded =
     sbind (DecodeRecord MetaTransactionOutcome encoded) (\<lambda>payload.
       if length payload \<noteq> 17 then Corruption ''transaction outcome'' ''invalid outcome record''
       else
        let truncated = Corruption ''transaction outcome'' ''truncated outcome record'' in
        rbind (ReadU64 payload 0) truncated (\<lambda>txn off.
        rbind (ReadU64 payload off) truncated (\<lambda>seq off.
          let t = \<lparr>to_txn_id = txn, to_commit_seq = seq, to_outcome = outcome_of (payload ! off)\<rparr>
          in sbind (as_corruption ''transaction outcome'' (TransactionOutcomeRecord_Validate t))
               (\<lambda>_. Inr t))))"

definition EncodeVacuumState :: "vacuum_state \<Rightarrow> bytes status_or" where
  "EncodeVacuumState v =
     sbind (VacuumState_Validate v) (\<lambda>_.
       EncodeRecord MetaVacuumState
         ([vacuum_phase_byte (vs_phase v)] @ AppendU64 (vs_target v) @
          AppendU32 (of_nat (length (vs_cursor v))) @ vs_cursor v))"

definition DecodeVacuumState :: "bytes \<Rightarrow> vacuum_state status_or" where
  "DecodeVacuumState encoded =
     sbind (DecodeRecord MetaVacuumState encoded) (\<lambda>payload.
       let bad = Corruption ''vacuum state'' ''invalid vacuum state record'' in
       if payload = [] then bad
       else
        rbind (ReadU64 payload 1) bad (\<lambda>target off.
        rbind (ReadU32 payload off) bad (\<lambda>cursor_size off.
        if unat cursor_size \<noteq> length payload - off then bad
        else
         let v = \<lparr>vs_target = target, vs_phase = vacuum_phase_of (payload ! 0),
                  vs_cursor = drop off payload\<rparr>
         in sbind (as_corruption ''vacuum state'' (VacuumState_Validate v)) (\<lambda>_. Inr v))))"

section \<open>The typed records satisfy the codec contract\<close>

lemma EncodeRecord_iff:
  "EncodeRecord k p = Inr s \<longleftrightarrow> length p \<le> kMaxPayloadBytes \<and> s = frame (meta_kind_byte k) p"
  by (simp add: EncodeRecord_def EncodeFramed_iff)

lemma DecodeRecord_iff:
  "DecodeRecord k s = Inr p \<longleftrightarrow> length p \<le> kMaxPayloadBytes \<and> s = frame (meta_kind_byte k) p"
  by (auto simp: DecodeRecord_def DecodeRecordView_def DecodeFramed_iff sbind_Inr_iff)

text \<open>
  A typed codec built by framing a payload satisfies the contract when its decoder
  returns only valid objects whose payload is the frame's, and accepts all of them.
\<close>

lemma record_codecI:
  assumes e: "\<And>x. encode x = sbind (validate x) (\<lambda>_. EncodeRecord k (payload x))"
    and d: "\<And>s x. decode s = Inr x \<Longrightarrow> validate x = OK \<and> DecodeRecord k s = Inr (payload x)"
    and c: "\<And>s x. validate x = OK \<Longrightarrow> DecodeRecord k s = Inr (payload x) \<Longrightarrow> decode s = Inr x"
  shows "record_codec (meta_kind_byte k) (\<lambda>x. validate x = OK) payload encode decode"
proof
  fix x s
  show "encode x = Inr s \<longleftrightarrow> validate x = OK \<and> length (payload x) \<le> kMaxPayloadBytes \<and>
      s = frame (meta_kind_byte k) (payload x)"
    by (auto simp: e EncodeRecord_iff sbind_Inr_iff)
  show "decode s = Inr x \<longleftrightarrow> validate x = OK \<and> length (payload x) \<le> kMaxPayloadBytes \<and>
      s = frame (meta_kind_byte k) (payload x)"
    using d [of s x] c [of x s] by (auto simp: DecodeRecord_iff)
qed

lemma kind_byte_inverses [simp]:
  "id_kind_byte (id_kind_of b) = b" "outcome_byte (outcome_of b) = b"
  "vacuum_phase_byte (vacuum_phase_of b) = b" "entity_kind_byte (entity_kind_of b) = b"
  by (simp_all add: id_kind_of_def outcome_of_def vacuum_phase_of_def entity_kind_of_def)

lemma Read_last:
  "length s = off + 8 \<Longrightarrow> ReadU64 s off = Some (c, off') \<Longrightarrow> drop off s = AppendU64 c"
  using Read_drop(3) [of s off c off'] Read_bounds(3) [of s off c off'] by simp

interpretation edge_identity_record: record_codec "meta_kind_byte MetaEdgeIdentity"
  "\<lambda>i. EdgeIdentity_Validate i = OK" identity_payload EncodeEdgeIdentity DecodeEdgeIdentity
proof (rule record_codecI)
  fix s i
  show "DecodeEdgeIdentity s = Inr i \<Longrightarrow>
      EdgeIdentity_Validate i = OK \<and> DecodeRecord MetaEdgeIdentity s = Inr (identity_payload i)"
    by (auto simp: DecodeEdgeIdentity_def Let_def rbind_Inr_iff sbind_Inr_iff split: if_splits
        intro: identity_reads)
  show "EdgeIdentity_Validate i = OK \<Longrightarrow> DecodeRecord MetaEdgeIdentity s = Inr (identity_payload i) \<Longrightarrow>
      DecodeEdgeIdentity s = Inr i"
    by (cases i) (simp add: DecodeEdgeIdentity_def identity_payload_def codec_simps EdgeIdentity_init_def)
qed (simp add: EncodeEdgeIdentity_def identity_payload_def)

definition allocator_payload :: "id_allocator_state \<Rightarrow> bytes" where
  "allocator_payload a = [id_kind_byte (ia_kind a)] @ AppendU64 (ia_next_id a)"

interpretation allocator_record: record_codec "meta_kind_byte MetaIdAllocator"
  "\<lambda>a. IdAllocatorState_Validate a = OK" allocator_payload
  EncodeIdAllocatorState DecodeIdAllocatorState
proof (rule record_codecI)
  fix s a
  show "DecodeIdAllocatorState s = Inr a \<Longrightarrow>
      IdAllocatorState_Validate a = OK \<and> DecodeRecord MetaIdAllocator s = Inr (allocator_payload a)"
  proof -
    assume "DecodeIdAllocatorState s = Inr a"
    then obtain p next_id off where p: "DecodeRecord MetaIdAllocator s = Inr p" "length p = 9"
      "ReadU64 p 1 = Some (next_id, off)" "IdAllocatorState_Validate a = OK"
      "a = \<lparr>ia_kind = id_kind_of (p ! 0), ia_next_id = next_id\<rparr>"
      by (auto simp: DecodeIdAllocatorState_def Let_def rbind_Inr_iff sbind_Inr_iff split: if_splits)
    with Read_last [OF _ p(3)] nth_drop [of 0 p] show ?thesis
      by (simp add: allocator_payload_def)
  qed
  show "IdAllocatorState_Validate a = OK \<Longrightarrow>
      DecodeRecord MetaIdAllocator s = Inr (allocator_payload a) \<Longrightarrow> DecodeIdAllocatorState s = Inr a"
    by (cases a) (auto simp: DecodeIdAllocatorState_def allocator_payload_def codec_simps
        IdAllocatorState_Validate_def id_kind_of_def split: if_splits)
qed (simp add: EncodeIdAllocatorState_def allocator_payload_def)

definition outcome_payload :: "transaction_outcome_record \<Rightarrow> bytes" where
  "outcome_payload t =
     AppendU64 (to_txn_id t) @ AppendU64 (to_commit_seq t) @ [outcome_byte (to_outcome t)]"

interpretation outcome_record: record_codec "meta_kind_byte MetaTransactionOutcome"
  "\<lambda>t. TransactionOutcomeRecord_Validate t = OK" outcome_payload
  EncodeTransactionOutcome DecodeTransactionOutcome
proof (rule record_codecI)
  fix s t
  show "DecodeTransactionOutcome s = Inr t \<Longrightarrow> TransactionOutcomeRecord_Validate t = OK \<and>
      DecodeRecord MetaTransactionOutcome s = Inr (outcome_payload t)"
  proof -
    assume "DecodeTransactionOutcome s = Inr t"
    then obtain p x y o1 o2 where p: "DecodeRecord MetaTransactionOutcome s = Inr p" "length p = 17"
      "ReadU64 p 0 = Some (x, o1)" "ReadU64 p o1 = Some (y, o2)"
      "TransactionOutcomeRecord_Validate t = OK"
      "t = \<lparr>to_txn_id = x, to_commit_seq = y, to_outcome = outcome_of (p ! o2)\<rparr>"
      by (auto simp: DecodeTransactionOutcome_def Let_def rbind_Inr_iff sbind_Inr_iff split: if_splits)
    then have "o1 = 8" "o2 = 16" "drop 16 p = [p ! 16]"
      using Read_bounds(3) [OF p(3)] Read_bounds(3) [OF p(4)] nth_drop [of 16 p] by simp_all
    with p Read_drop(3) [OF p(3)] Read_drop(3) [OF p(4)] show ?thesis
      by (simp add: outcome_payload_def)
  qed
  show "TransactionOutcomeRecord_Validate t = OK \<Longrightarrow>
      DecodeRecord MetaTransactionOutcome s = Inr (outcome_payload t) \<Longrightarrow>
      DecodeTransactionOutcome s = Inr t"
    by (cases t) (auto simp: DecodeTransactionOutcome_def outcome_payload_def codec_simps nth_append
        TransactionOutcomeRecord_Validate_def outcome_of_def split: if_splits)
qed (simp add: EncodeTransactionOutcome_def outcome_payload_def)

definition vacuum_payload :: "vacuum_state \<Rightarrow> bytes" where
  "vacuum_payload v =
     [vacuum_phase_byte (vs_phase v)] @ AppendU64 (vs_target v) @
     AppendU32 (of_nat (length (vs_cursor v))) @ vs_cursor v"

interpretation vacuum_record: record_codec "meta_kind_byte MetaVacuumState"
  "\<lambda>v. VacuumState_Validate v = OK" vacuum_payload EncodeVacuumState DecodeVacuumState
proof (rule record_codecI)
  fix s v
  show "DecodeVacuumState s = Inr v \<Longrightarrow>
      VacuumState_Validate v = OK \<and> DecodeRecord MetaVacuumState s = Inr (vacuum_payload v)"
  proof -
    assume "DecodeVacuumState s = Inr v"
    then obtain p x y o1 o2 where p: "DecodeRecord MetaVacuumState s = Inr p" "p \<noteq> []"
      "ReadU64 p 1 = Some (x, o1)" "ReadU32 p o1 = Some (y, o2)" "unat y = length p - o2"
      "VacuumState_Validate v = OK"
      "v = \<lparr>vs_target = x, vs_phase = vacuum_phase_of (p ! 0), vs_cursor = drop o2 p\<rparr>"
      by (auto simp: DecodeVacuumState_def Let_def rbind_Inr_iff sbind_Inr_iff split: if_splits)
    have "of_nat (length p - o2) = y"
      by (simp flip: p(5))
    with p Read_drop(3) [OF p(3)] Read_drop(2) [OF p(4)] nth_drop [of 0 p] show ?thesis
      by (simp add: vacuum_payload_def)
  qed
  show "VacuumState_Validate v = OK \<Longrightarrow> DecodeRecord MetaVacuumState s = Inr (vacuum_payload v) \<Longrightarrow>
      DecodeVacuumState s = Inr v"
    by (cases v) (auto simp: DecodeVacuumState_def vacuum_payload_def codec_simps
        VacuumState_Validate_def vacuum_phase_of_def kEncodedFactKeyBytes_def unat_of_nat_small
        split: if_splits)
qed (simp add: EncodeVacuumState_def vacuum_payload_def)

definition property_payload :: "property_definition \<Rightarrow> bytes" where
  "property_payload d =
     AppendU16 (pd_property_id d) @ AppendU32 (pd_schema_epoch d) @
     [entity_kind_byte (pd_entity_kind d)] @ [physical_type_byte (pd_physical_type d)] @
     AppendU64 (pd_blob_threshold d) @ AppendU16 (of_nat (length (pd_name d))) @ pd_name d"

lemma known_physical_type_of: "known_physical_type (physical_type_of b) \<longleftrightarrow> IsPhysicalType b"
proof -
  have "IsPhysicalType b \<longleftrightarrow> unat b \<in> {1..8}"
    by (auto simp: IsPhysicalType_def word_le_nat_alt)
  also have "\<dots> \<longleftrightarrow> b \<in> {1, 2, 3, 4, 5, 6, 7, 8}"
    by (auto simp: word_unat_eq_iff)
  also have "\<dots> \<longleftrightarrow> known_physical_type (physical_type_of b)"
    by (auto simp: physical_type_of_def)
  finally show ?thesis by simp
qed

lemma known_physical_type_byte [simp]:
  "known_physical_type t \<Longrightarrow> physical_type_of (physical_type_byte t) = t"
  by (cases t) (simp_all add: physical_type_of_def)

interpretation property_record: record_codec "meta_kind_byte MetaPropertyDefinition"
  "\<lambda>d. PropertyDefinition_Validate d = OK" property_payload
  EncodePropertyDefinition DecodePropertyDefinition
proof (rule record_codecI)
  fix s d
  show "DecodePropertyDefinition s = Inr d \<Longrightarrow> PropertyDefinition_Validate d = OK \<and>
      DecodeRecord MetaPropertyDefinition s = Inr (property_payload d)"
  proof -
    assume "DecodePropertyDefinition s = Inr d"
    then obtain p pid ep bl nl o1 o2 o3 o4 where
      p: "DecodeRecord MetaPropertyDefinition s = Inr p"
      "ReadU16 p 0 = Some (pid, o1)" "ReadU32 p o1 = Some (ep, o2)" "o2 + 2 \<le> length p"
      "ReadU64 p (o2 + 2) = Some (bl, o3)" "ReadU16 p o3 = Some (nl, o4)" "unat nl = length p - o4"
      "PropertyDefinition_Validate d = OK"
      "d = \<lparr>pd_property_id = pid, pd_schema_epoch = ep, pd_name = drop o4 p,
            pd_entity_kind = entity_kind_of (p ! o2), pd_physical_type = physical_type_of (p ! (o2 + 1)),
            pd_blob_threshold = bl\<rparr>"
      by (auto simp: DecodePropertyDefinition_def Let_def rbind_Inr_iff sbind_Inr_iff not_less
          split: if_splits)
    have "of_nat (length p - o4) = nl"
      by (simp flip: p(7))
    with p Read_drop(1) [OF p(2)] Read_drop(2) [OF p(3)] Read_drop(3) [OF p(5)] Read_drop(1) [OF p(6)]
      nth_drop [of o2 p] nth_drop [of "o2 + 1" p] show ?thesis
      by (simp add: property_payload_def)
  qed
  show "PropertyDefinition_Validate d = OK \<Longrightarrow>
      DecodeRecord MetaPropertyDefinition s = Inr (property_payload d) \<Longrightarrow>
      DecodePropertyDefinition s = Inr d"
    by (cases d) (auto simp: DecodePropertyDefinition_def property_payload_def codec_simps nth_append
        PropertyDefinition_Validate_def entity_kind_of_def kMaxPropertyNameBytes_def unat_of_nat_u16
        split: if_splits)
qed (simp add: EncodePropertyDefinition_def property_payload_def)

subsection \<open>System identity\<close>

lemma length_AppendString [simp]: "length (AppendString v) = length v + 2"
  by (simp add: AppendString_def)

lemma ReadString_drop:
  assumes "ReadString s off = Some (v, off')"
  shows "drop off s = AppendString v @ drop off' s"
proof -
  from assms obtain len b where r: "ReadU16 s off = Some (len, b)" "unat len \<le> length s - b"
    "take (unat len) (drop b s) = v" "off' = b + unat len"
    by (auto simp: ReadString_def split: option.splits if_splits)
  then have "length v = unat len" by auto
  then show ?thesis
    using Read_drop(1) [OF r(1)] drop_split [OF r(3)] r(4) by (simp add: AppendString_def)
qed

lemma ReadString_at [codec_simps]:
  "length v < 65536 \<Longrightarrow> ReadString (AppendString v) 0 = Some (v, length v + 2)"
  "length v < 65536 \<Longrightarrow> ReadString (AppendString v @ s) 0 = Some (v, length v + 2)"
  by (simp_all add: ReadString_def AppendString_def codec_simps unat_of_nat_u16)

lemma ReadString_skip [codec_simps]:
  "length xs \<le> off \<Longrightarrow> ReadString (xs @ s) off
     = map_option (\<lambda>(v, o'). (v, o' + length xs)) (ReadString s (off - length xs))"
proof -
  assume "length xs \<le> off"
  then obtain k where "off = length xs + k" by (auto simp: le_iff_add)
  then show ?thesis
    by (cases "ReadU16 s k") (auto simp: ReadString_def Read_skip)
qed

definition identity_record_payload :: "system_identity \<Rightarrow> bytes" where
  "identity_record_payload i =
     AppendString (si_system i) @ AppendU32 (si_system_format i) @
     AppendString (si_fact_key_format i) @ AppendString (si_facts_table_format i) @
     AppendString (si_comparator_digest i)"

interpretation system_identity_record: record_codec "meta_kind_byte MetaSystemIdentity"
  "\<lambda>i. SystemIdentity_Validate i = OK" identity_record_payload
  EncodeSystemIdentity DecodeSystemIdentity
proof (rule record_codecI)
  fix s i
  show "DecodeSystemIdentity s = Inr i \<Longrightarrow> SystemIdentity_Validate i = OK \<and>
      DecodeRecord MetaSystemIdentity s = Inr (identity_record_payload i)"
  proof -
    assume "DecodeSystemIdentity s = Inr i"
    then obtain p a b c d e o1 o2 o3 o4 where
      p: "DecodeRecord MetaSystemIdentity s = Inr p"
      "ReadString p 0 = Some (a, o1)" "ReadU32 p o1 = Some (b, o2)" "ReadString p o2 = Some (c, o3)"
      "ReadString p o3 = Some (d, o4)" "ReadString p o4 = Some (e, length p)"
      "SystemIdentity_Validate i = OK"
      "i = \<lparr>si_system = a, si_system_format = b, si_fact_key_format = c,
            si_facts_table_format = d, si_comparator_digest = e\<rparr>"
      by (auto simp: DecodeSystemIdentity_def Let_def rbind_Inr_iff sbind_Inr_iff split: if_splits)
    with p ReadString_drop [OF p(2)] Read_drop(2) [OF p(3)] ReadString_drop [OF p(4)]
      ReadString_drop [OF p(5)] ReadString_drop [OF p(6)] show ?thesis
      by (simp add: identity_record_payload_def)
  qed
  show "SystemIdentity_Validate i = OK \<Longrightarrow>
      DecodeRecord MetaSystemIdentity s = Inr (identity_record_payload i) \<Longrightarrow>
      DecodeSystemIdentity s = Inr i"
    by (cases i) (auto simp: DecodeSystemIdentity_def identity_record_payload_def codec_simps
        SystemIdentity_Validate_def split: if_splits)
qed (simp add: EncodeSystemIdentity_def identity_record_payload_def)

section \<open>Watermarks and the format marker\<close>

lemma Read_first_iff:
  "ReadU32 p 0 = Some (b, off) \<longleftrightarrow> off = 4 \<and> (\<exists>rest. p = AppendU32 b @ rest)"
  "ReadU64 p 0 = Some (c, off) \<longleftrightarrow> off = 8 \<and> (\<exists>rest. p = AppendU64 c @ rest)"
  using Read_drop(2) [of p 0 b off] Read_drop(3) [of p 0 c off] Read_bounds(2) [of p 0 b off]
    Read_bounds(3) [of p 0 c off]
  by (auto simp: codec_simps)

lemma DecodeRecord_frame [simp]:
  "length p \<le> kMaxPayloadBytes \<Longrightarrow> DecodeRecord k (frame (meta_kind_byte k) p) = Inr p"
  by (simp add: DecodeRecord_iff)

lemma DecodeWatermark_iff:
  "DecodeWatermark s = Inr w \<longleftrightarrow>
     (\<exists>rest. length rest + 8 \<le> kMaxPayloadBytes \<and>
        s = frame (meta_kind_byte MetaWatermark) (AppendU64 w @ rest))"
  (is "_ \<longleftrightarrow> ?rhs")
proof
  assume "DecodeWatermark s = Inr w"
  then show ?rhs
    by (auto simp: DecodeWatermark_def Let_def sbind_Inr_iff rbind_Inr_iff DecodeRecord_iff
        Read_first_iff add.commute)
next
  assume ?rhs
  then show "DecodeWatermark s = Inr w"
    by (auto simp: DecodeWatermark_def codec_simps simp del: meta_kind_byte.simps)
qed

lemma DecodeSequenceFormat_iff:
  "DecodeSequenceFormat s = Inr f \<longleftrightarrow>
     (\<exists>rest. length rest + 4 \<le> kMaxPayloadBytes \<and>
        s = frame (meta_kind_byte MetaSequenceFormat) (AppendU32 f @ rest))"
  (is "_ \<longleftrightarrow> ?rhs")
proof
  assume "DecodeSequenceFormat s = Inr f"
  then show ?rhs
    by (auto simp: DecodeSequenceFormat_def Let_def sbind_Inr_iff rbind_Inr_iff DecodeRecord_iff
        Read_first_iff add.commute)
next
  assume ?rhs
  then show "DecodeSequenceFormat s = Inr f"
    by (auto simp: DecodeSequenceFormat_def codec_simps simp del: meta_kind_byte.simps)
qed

lemma ascii_Cons [simp]: "ascii [] = []" "ascii (c # cs) = of_char c # ascii cs"
  by (simp_all add: ascii_def)

section \<open>Properties\<close>

text \<open>
  C30: for system identities, property definitions, edge identities, ID allocators,
  transaction outcomes and vacuum states, the decoder accepts a record and returns an
  object exactly when the encoder turns that object into that record: encoding loses
  nothing, decoding accepts no second spelling, and invalid objects are never returned.
\<close>

theorem meta_records_bijective:
  "(DecodeSystemIdentity s = Inr i \<longleftrightarrow> EncodeSystemIdentity i = Inr s) \<and>
   (DecodePropertyDefinition s = Inr d \<longleftrightarrow> EncodePropertyDefinition d = Inr s) \<and>
   (DecodeEdgeIdentity s = Inr e \<longleftrightarrow> EncodeEdgeIdentity e = Inr s) \<and>
   (DecodeIdAllocatorState s = Inr a \<longleftrightarrow> EncodeIdAllocatorState a = Inr s) \<and>
   (DecodeTransactionOutcome s = Inr t \<longleftrightarrow> EncodeTransactionOutcome t = Inr s) \<and>
   (DecodeVacuumState s = Inr v \<longleftrightarrow> EncodeVacuumState v = Inr s)"
  by (intro conjI system_identity_record.decode_encode property_record.decode_encode
      edge_identity_record.decode_encode allocator_record.decode_encode
      outcome_record.decode_encode vacuum_record.decode_encode)

text \<open>
  A watermark record and a sequence-format marker decode to what was encoded; unlike
  the other records they also decode when further payload bytes follow the value, because
  the decoders compare the offset with the field width instead of the payload size.
\<close>

theorem watermark_trailing_bytes_accepted:
  "EncodeWatermark w = Inr (frame (meta_kind_byte MetaWatermark) (AppendU64 w)) \<and>
   EncodeSequenceFormat f = Inr (frame (meta_kind_byte MetaSequenceFormat) (AppendU32 f)) \<and>
   (DecodeWatermark s = Inr w \<longleftrightarrow>
     (\<exists>rest. length rest + 8 \<le> kMaxPayloadBytes \<and>
        s = frame (meta_kind_byte MetaWatermark) (AppendU64 w @ rest))) \<and>
   (DecodeSequenceFormat s = Inr f \<longleftrightarrow>
     (\<exists>rest. length rest + 4 \<le> kMaxPayloadBytes \<and>
        s = frame (meta_kind_byte MetaSequenceFormat) (AppendU32 f @ rest)))"
  by (simp add: EncodeWatermark_def EncodeSequenceFormat_def EncodeRecord_iff DecodeWatermark_iff
      DecodeSequenceFormat_iff kMaxPayloadBytes_def)

text \<open>
  Sequence keys sort in commit order under the bytewise comparator, which is what the
  recovery and retention scans over \<^verbatim>\<open>sequence/*\<close> rely on.
\<close>

theorem sequence_keys_in_commit_order:
  assumes "EncodeSequenceMetaKey c = Inr s" "EncodeSequenceMetaKey c' = Inr s'"
  shows "bytes_less s s' \<longleftrightarrow> c < c'"
  using assms bytes_less_AppendU64_end by (auto simp: EncodeSequenceMetaKey_def simp del: ascii_Cons split: if_splits)

theorem sequence_keys_in_commit_order_witness:
  "bytes_less (ascii ''sequence/'' @ AppendU64 255) (ascii ''sequence/'' @ AppendU64 256)"
  using sequence_keys_in_commit_order [of 255 "ascii ''sequence/'' @ AppendU64 255" 256
      "ascii ''sequence/'' @ AppendU64 256"]
  by (simp add: EncodeSequenceMetaKey_def)

text \<open>
  After a single-byte change of any metadata record, of whatever kind, the framing
  check of every typed decoder reports corruption.
\<close>

theorem meta_record_byte_change:
  assumes "DecodeRecord k s = Inr p" "i < length s" "b \<noteq> s ! i"
  shows "has_code kCorruption (DecodeRecord k' (s[i := b]))"
proof -
  have "DecodeFramed ''metadata'' (meta_kind_byte k) s = Inr p"
    using assms(1) by (simp add: DecodeRecord_iff DecodeFramed_iff)
  then have "sealed s"
    by (rule framed.decode_sealed)
  from framed.byte_change_rejected [OF this assms(2,3)] show ?thesis
    by (simp add: DecodeRecord_def DecodeRecordView_def)
qed

theorem meta_record_byte_change_witness:
  "has_code kCorruption (DecodeRecord MetaWatermark
     ((frame (meta_kind_byte MetaWatermark) (AppendU64 7))[13 := 9]))"
proof (rule meta_record_byte_change [of MetaWatermark _ "AppendU64 7"])
  show "DecodeRecord MetaWatermark (frame (meta_kind_byte MetaWatermark) (AppendU64 7))
      = Inr (AppendU64 7)"
    by (rule DecodeRecord_frame) (simp add: kMaxPayloadBytes_def)
  show "9 \<noteq> frame (meta_kind_byte MetaWatermark) (AppendU64 7) ! 13"
    by (simp add: frame_def seal_def AppendU64_def AppendU32_def nth_append)
qed simp

end
