(* ===== verification/Sequence_Codec.thy ===== *)
theory Sequence_Codec
  imports Meta_Codec
begin

text \<open>
  The commit sequence records of \<^verbatim>\<open>src/src/storage/facts/meta_codec.cc\<close>: one record per
  commit, stored under \<^verbatim>\<open>sequence/<seq>\<close>, that lists the facts of the commit as 23-byte
  descriptors from which the 32-byte fact keys are rebuilt. The materializing decoder and
  the view decoder are modelled, with the rejection of legacy records.
\<close>

section \<open>Data\<close>

record sequence_record =
  sr_commit_seq :: commit_seq
  sr_txn_id :: txn_id
  sr_system_hlc :: u64
  sr_fact_keys :: "bytes list"

record sequence_record_view =
  sv_commit_seq :: commit_seq
  sv_txn_id :: txn_id
  sv_system_hlc :: u64
  sv_fact_count :: u32
  sv_identities :: bytes

record sequence_v2_layout =
  sl_txn_id :: txn_id
  sl_system_hlc :: u64
  sl_fact_count :: u32
  sl_facts_offset :: nat

definition kSequenceV2PayloadVersion :: u8 where "kSequenceV2PayloadVersion = 1"
definition kSequenceV2HeaderBytes :: nat where "kSequenceV2HeaderBytes = 22"
definition kSequenceV2FactBytes :: nat where "kSequenceV2FactBytes = 23"

lemmas sequence_constants =
  kSequenceV2PayloadVersion_def kSequenceV2HeaderBytes_def kSequenceV2FactBytes_def

definition LegacyMetaSequenceFormatError :: "string \<Rightarrow> 'a status_or" where
  "LegacyMetaSequenceFormatError detail =
     NotSupported ''meta sequence'' (detail @
       ''; this Cedar release supports only meta sequence format 2 (v2); v1 '' @
       ''sequence records are unsupported, and migration/downgrade is not '' @
       ''supported. Delete and recreate the database, or restore a format-2 '' @
       ''backup.'')"

section \<open>Validation\<close>

text \<open>The loop of both \<^verbatim>\<open>Validate\<close> methods, with the set of keys seen so far.\<close>

fun check_keys :: "commit_seq \<Rightarrow> bytes set \<Rightarrow> bytes list \<Rightarrow> status" where
  "check_keys c seen [] = OK"
| "check_keys c seen (key # keys) =
     (case DecodeFactKey key of
        Inl _ \<Rightarrow> InvalidArgument ''sequence record'' ''invalid fact key''
      | Inr d \<Rightarrow>
          if dk_commit_seq d \<noteq> c
          then InvalidArgument ''sequence record'' ''fact key commit sequence disagrees''
          else if key \<in> seen
          then InvalidArgument ''sequence record'' ''duplicate fact key''
          else check_keys c (insert key seen) keys)"

definition SequenceRecord_Validate :: "sequence_record \<Rightarrow> status" where
  "SequenceRecord_Validate r =
     (if sr_commit_seq r = 0 \<or> sr_txn_id r = 0 \<or> sr_fact_keys r = [] \<or>
         length (sr_fact_keys r) > 4294967295
      then InvalidArgument ''sequence record'' ''invalid sequence metadata''
      else check_keys (sr_commit_seq r) {} (sr_fact_keys r))"

fun split_keys :: "nat \<Rightarrow> bytes \<Rightarrow> bytes list" where
  "split_keys 0 s = []"
| "split_keys (Suc n) s = take kEncodedFactKeyBytes s # split_keys n (drop kEncodedFactKeyBytes s)"

definition SequenceRecordView_Validate :: "sequence_record_view \<Rightarrow> status" where
  "SequenceRecordView_Validate v =
     (if sv_commit_seq v = 0 \<or> sv_txn_id v = 0 \<or> sv_fact_count v = 0 \<or>
         length (sv_identities v) \<noteq> unat (sv_fact_count v) * kEncodedFactKeyBytes
      then InvalidArgument ''sequence record'' ''invalid sequence metadata''
      else check_keys (sv_commit_seq v) {} (split_keys (unat (sv_fact_count v)) (sv_identities v)))"

section \<open>Decoding\<close>

definition PeekRecordKind :: "bytes \<Rightarrow> u8 status_or" where
  "PeekRecordKind encoded =
     (if length encoded < 2 then Corruption ''metadata'' ''truncated record''
      else Inr (encoded ! 1))"

definition ParseSequenceV2Payload :: "bytes \<Rightarrow> sequence_v2_layout status_or" where
  "ParseSequenceV2Payload payload =
     (let bad = Corruption ''sequence record'' ''invalid sequence record'' in
      if length payload < kSequenceV2HeaderBytes then bad
      else if payload ! 0 \<noteq> kSequenceV2PayloadVersion
      then Corruption ''sequence record'' ''unsupported sequence payload version''
      else if payload ! 1 \<noteq> kFactKeyVersion
      then Corruption ''sequence record'' ''unsupported fact key version''
      else
       rbind (ReadU64 payload 2) bad (\<lambda>txn off.
       rbind (ReadU64 payload off) bad (\<lambda>hlc off.
       rbind (ReadU32 payload off) bad (\<lambda>count off.
         if count = 0 \<or> unat count > (length payload - off) div kSequenceV2FactBytes \<or>
            length payload - off \<noteq> unat count * kSequenceV2FactBytes
         then bad
         else Inr \<lparr>sl_txn_id = txn, sl_system_hlc = hlc, sl_fact_count = count,
                   sl_facts_offset = off\<rparr>))))"

definition ReadSequenceV2Fact :: "bytes \<Rightarrow> nat \<Rightarrow> ((fact_ref \<times> valid_time) \<times> nat) status_or" where
  "ReadSequenceV2Fact payload off =
     (let bad = Corruption ''sequence record'' ''invalid sequence record'' in
      rbind (ReadU32 payload off) bad (\<lambda>part off.
      if off \<ge> length payload then bad
      else
       let family = payload ! off in
       rbind (ReadU16 payload (off + 1)) bad (\<lambda>prop off.
       rbind (ReadU64 payload off) bad (\<lambda>entity off.
       rbind (ReadU64 payload off) bad (\<lambda>valid_from_desc off.
         let r = \<lparr>ref_part = part, ref_family = family_of family, ref_property = prop,
                  ref_entity = entity\<rparr>
         in sbind (as_corruption ''sequence record'' (FactRef_Validate r))
              (\<lambda>_. Inr ((r, NOT valid_from_desc), off)))))))"

definition RebuildSequenceV2FactKey ::
  "bytes \<Rightarrow> commit_seq \<Rightarrow> nat \<Rightarrow> (bytes \<times> nat) status_or" where
  "RebuildSequenceV2FactKey payload c off =
     sbind (ReadSequenceV2Fact payload off) (\<lambda>((r, valid_from), off).
       let key = EncodeFactKey r valid_from c in
       if key = [] then Corruption ''sequence record'' ''invalid fact identity''
       else Inr (key, off))"

fun rebuild_keys :: "bytes \<Rightarrow> commit_seq \<Rightarrow> nat \<Rightarrow> nat \<Rightarrow> bytes list status_or" where
  "rebuild_keys payload c 0 off = Inr []"
| "rebuild_keys payload c (Suc n) off =
     sbind (RebuildSequenceV2FactKey payload c off) (\<lambda>(key, off).
     sbind (rebuild_keys payload c n off) (\<lambda>keys. Inr (key # keys)))"

definition DecodeSequenceRecordV2 :: "bytes \<Rightarrow> commit_seq \<Rightarrow> sequence_record status_or" where
  "DecodeSequenceRecordV2 encoded c =
     (if c = 0
      then Corruption ''sequence record'' ''v2 sequence record requires its commit sequence''
      else
       sbind (DecodeRecord MetaSequenceV2 encoded) (\<lambda>payload.
       sbind (ParseSequenceV2Payload payload) (\<lambda>header.
       sbind (rebuild_keys payload c (unat (sl_fact_count header)) (sl_facts_offset header)) (\<lambda>keys.
         let r = \<lparr>sr_commit_seq = c, sr_txn_id = sl_txn_id header,
                  sr_system_hlc = sl_system_hlc header, sr_fact_keys = keys\<rparr>
         in sbind (as_corruption ''sequence record'' (SequenceRecord_Validate r)) (\<lambda>_. Inr r)))))"

definition DecodeSequenceRecordViewV2 :: "bytes \<Rightarrow> commit_seq \<Rightarrow> sequence_record_view status_or" where
  "DecodeSequenceRecordViewV2 encoded c =
     (if c = 0
      then Corruption ''sequence record'' ''v2 sequence record requires its commit sequence''
      else
       sbind (DecodeRecordView MetaSequenceV2 encoded) (\<lambda>payload.
       sbind (ParseSequenceV2Payload payload) (\<lambda>header.
       sbind (rebuild_keys payload c (unat (sl_fact_count header)) (sl_facts_offset header)) (\<lambda>keys.
         Inr \<lparr>sv_commit_seq = c, sv_txn_id = sl_txn_id header,
              sv_system_hlc = sl_system_hlc header, sv_fact_count = sl_fact_count header,
              sv_identities = concat keys\<rparr>))))"

definition DecodeSequenceRecord :: "bytes \<Rightarrow> commit_seq \<Rightarrow> sequence_record status_or" where
  "DecodeSequenceRecord encoded c =
     sbind (PeekRecordKind encoded) (\<lambda>kind.
       if kind = meta_kind_byte MetaSequence
       then LegacyMetaSequenceFormatError
              ''database contains a legacy v1 meta sequence record (on-disk kind 7)''
       else DecodeSequenceRecordV2 encoded c)"

definition DecodeSequenceRecordView :: "bytes \<Rightarrow> commit_seq \<Rightarrow> sequence_record_view status_or" where
  "DecodeSequenceRecordView encoded c =
     sbind (PeekRecordKind encoded) (\<lambda>kind.
       if kind = meta_kind_byte MetaSequence
       then LegacyMetaSequenceFormatError
              ''database contains a legacy v1 meta sequence record (on-disk kind 7)''
       else DecodeSequenceRecordViewV2 encoded c)"

section \<open>Encoding\<close>

fun descriptors :: "commit_seq \<Rightarrow> bytes list \<Rightarrow> bytes status_or" where
  "descriptors c [] = Inr []"
| "descriptors c (key # keys) =
     sbind (DecodeFactKey key) (\<lambda>fact.
       if EncodeFactKey (dk_ref fact) (dk_valid_from fact) c \<noteq> key
       then InvalidArgument ''sequence record''
              ''fact key is not representable in meta sequence v2''
       else sbind (descriptors c keys) (\<lambda>rest. Inr
              (AppendU32 (ref_part (dk_ref fact)) @ [family_byte (ref_family (dk_ref fact))] @
               AppendU16 (ref_property (dk_ref fact)) @ AppendU64 (ref_entity (dk_ref fact)) @
               AppendU64 (NOT (dk_valid_from fact)) @ rest)))"

definition EncodeSequenceRecordV2 :: "sequence_record \<Rightarrow> bytes status_or" where
  "EncodeSequenceRecordV2 r =
     sbind (SequenceRecord_Validate r) (\<lambda>_.
     sbind (descriptors (sr_commit_seq r) (sr_fact_keys r)) (\<lambda>facts.
       EncodeRecord MetaSequenceV2
         ([kSequenceV2PayloadVersion] @ [kFactKeyVersion] @ AppendU64 (sr_txn_id r) @
          AppendU64 (sr_system_hlc r) @ AppendU32 (of_nat (length (sr_fact_keys r))) @ facts)))"

section \<open>Descriptors\<close>

definition descriptor :: "fact_ref \<times> valid_time \<Rightarrow> bytes" where
  "descriptor = (\<lambda>(r, v). AppendU32 (ref_part r) @ [family_byte (ref_family r)] @
     AppendU16 (ref_property r) @ AppendU64 (ref_entity r) @ AppendU64 (NOT v))"

definition fact_key :: "commit_seq \<Rightarrow> fact_ref \<times> valid_time \<Rightarrow> bytes" where
  "fact_key c = (\<lambda>(r, v). EncodeFactKey r v c)"

definition facts_valid :: "(fact_ref \<times> valid_time) list \<Rightarrow> bool" where
  "facts_valid fs \<longleftrightarrow> (\<forall>f \<in> set fs. FactRef_Validate (fst f) = OK)"

lemma facts_valid_simps [simp]:
  "facts_valid []" "facts_valid (f # fs) \<longleftrightarrow> FactRef_Validate (fst f) = OK \<and> facts_valid fs"
  by (simp_all add: facts_valid_def)

lemma length_descriptor [simp]: "length (descriptor f) = 23"
  by (simp add: descriptor_def split: prod.splits)

lemma length_descriptors [simp]: "length (concat (map descriptor fs)) = 23 * length fs"
  by (induction fs) simp_all

lemma length_fact_key [simp]: "FactRef_Validate (fst f) = OK \<Longrightarrow> c \<noteq> 0 \<Longrightarrow> length (fact_key c f) = 32"
  by (cases f) (simp add: fact_key_def EncodeFactKey_layout kEncodedFactKeyBytes_def)

lemma fact_key_not_Nil [simp]: "FactRef_Validate (fst f) = OK \<Longrightarrow> c \<noteq> 0 \<Longrightarrow> fact_key c f \<noteq> []"
  using length_fact_key [of f c] by force

lemma DecodeFactKey_fact_key:
  "FactRef_Validate r = OK \<Longrightarrow> c \<noteq> 0 \<Longrightarrow>
     DecodeFactKey (fact_key c (r, v)) = Inr \<lparr>dk_ref = r, dk_valid_from = v, dk_commit_seq = c\<rparr>"
  by (simp add: fact_key_def EncodeFactKey_layout DecodeFactKey_layout)

lemma DecodeFactKey_as_fact:
  "DecodeFactKey k = Inr d \<and> dk_commit_seq d = c \<Longrightarrow>
     c \<noteq> 0 \<and> FactRef_Validate (dk_ref d) = OK \<and> k = fact_key c (dk_ref d, dk_valid_from d)"
  using DecodeFactKey_Inr [of k d] by (auto simp: fact_key_def EncodeFactKey_layout)

lemma ReadSequenceV2Fact_at:
  assumes "FactRef_Validate r = OK"
  shows "ReadSequenceV2Fact (pre @ descriptor (r, v) @ post) (length pre) = Inr ((r, v), length pre + 23)"
proof -
  have "IsKnownFamily (ref_family r)"
    using assms by (simp add: FactRef_Validate_OK_iff)
  with assms show ?thesis
    by (cases r) (simp add: ReadSequenceV2Fact_def descriptor_def codec_simps nth_append)
qed

lemma ReadSequenceV2Fact_Inr:
  assumes "ReadSequenceV2Fact s off = Inr (f, off')"
  shows "off' = off + 23 \<and> FactRef_Validate (fst f) = OK \<and> drop off s = descriptor f @ drop off' s"
proof -
  from assms obtain part p e v o1 o2 o3 o4 where
    r: "ReadU32 s off = Some (part, o1)" "o1 < length s" "ReadU16 s (o1 + 1) = Some (p, o2)"
       "ReadU64 s o2 = Some (e, o3)" "ReadU64 s o3 = Some (v, off')"
    and f: "f = (\<lparr>ref_part = part, ref_family = family_of (s ! o1), ref_property = p,
                 ref_entity = e\<rparr>, NOT v)"
    and valid: "FactRef_Validate (fst f) = OK"
    by (auto simp: ReadSequenceV2Fact_def Let_def rbind_Inr_iff sbind_Inr_iff split: if_splits)
  have "off' = off + 23"
    using Read_bounds(2) [OF r(1)] Read_bounds(1) [OF r(3)] Read_bounds(3) [OF r(4)]
      Read_bounds(3) [OF r(5)] by simp
  moreover have "drop off s = descriptor f @ drop off' s"
    using Read_drop(2) [OF r(1)] nth_drop [OF r(2)] Read_drop(1) [OF r(3)] Read_drop(3) [OF r(4)]
      Read_drop(3) [OF r(5)] by (simp add: descriptor_def f)
  ultimately show ?thesis using valid by simp
qed

lemma rebuild_keys_at:
  "facts_valid fs \<Longrightarrow> c \<noteq> 0 \<Longrightarrow>
   rebuild_keys (pre @ concat (map descriptor fs) @ post) c (length fs) (length pre)
     = Inr (map (fact_key c) fs)"
proof (induction fs arbitrary: pre)
  case (Cons f fs)
  obtain r v where f: "f = (r, v)" by (cases f)
  have "RebuildSequenceV2FactKey (pre @ descriptor f @ concat (map descriptor fs) @ post) c (length pre)
      = Inr (fact_key c f, length pre + 23)"
    using Cons.prems fact_key_not_Nil [of f c]
    by (simp add: RebuildSequenceV2FactKey_def f ReadSequenceV2Fact_at fact_key_def)
  with Cons.IH [of "pre @ descriptor f"] Cons.prems show ?case by simp
qed simp

lemma rebuild_keys_Inr:
  "rebuild_keys s c n off = Inr keys \<Longrightarrow>
   \<exists>fs. length fs = n \<and> facts_valid fs \<and> keys = map (fact_key c) fs \<and>
        drop off s = concat (map descriptor fs) @ drop (off + 23 * n) s"
proof (induction n arbitrary: off keys)
  case (Suc n)
  from Suc.prems obtain f off1 ks where
    r: "ReadSequenceV2Fact s off = Inr (f, off1)" "rebuild_keys s c n off1 = Inr ks"
       "keys = fact_key c f # ks"
    by (auto simp: RebuildSequenceV2FactKey_def fact_key_def sbind_Inr_iff Let_def split: if_splits)
  from Suc.IH [OF r(2)] obtain fs where
    "length fs = n" "facts_valid fs" "ks = map (fact_key c) fs"
    "drop off1 s = concat (map descriptor fs) @ drop (off1 + 23 * n) s"
    by blast
  with ReadSequenceV2Fact_Inr [OF r(1)] r(3) show ?case
    by (intro exI [of _ "f # fs"]) (simp add: add.assoc)
qed simp

section \<open>Validation\<close>

lemma check_keys_OK_iff:
  "check_keys c seen keys = OK \<longleftrightarrow>
     distinct keys \<and> set keys \<inter> seen = {} \<and>
     (\<forall>k \<in> set keys. \<exists>d. DecodeFactKey k = Inr d \<and> dk_commit_seq d = c)"
  by (induction c seen keys rule: check_keys.induct) (auto split: sum.splits)

lemma keys_as_facts:
  "(\<forall>k \<in> set keys. \<exists>d. DecodeFactKey k = Inr d \<and> dk_commit_seq d = c) \<Longrightarrow>
   \<exists>fs. keys = map (fact_key c) fs \<and> facts_valid fs"
proof (induction keys)
  case (Cons k keys)
  then obtain fs d where "keys = map (fact_key c) fs" "facts_valid fs"
    "DecodeFactKey k = Inr d \<and> dk_commit_seq d = c"
    by auto
  with DecodeFactKey_as_fact [of k d c] show ?case
    by (intro exI [of _ "(dk_ref d, dk_valid_from d) # fs"]) simp
qed simp

lemma check_keys_facts:
  "c \<noteq> 0 \<Longrightarrow> check_keys c {} keys = OK \<longleftrightarrow>
     (\<exists>fs. keys = map (fact_key c) fs \<and> facts_valid fs \<and> distinct keys)"
proof -
  assume "c \<noteq> 0"
  then have "\<exists>d. DecodeFactKey (fact_key c f) = Inr d \<and> dk_commit_seq d = c"
    if "FactRef_Validate (fst f) = OK" for f
    using that by (cases f) (simp add: DecodeFactKey_fact_key)
  then have "\<forall>k \<in> set (map (fact_key c) fs). \<exists>d. DecodeFactKey k = Inr d \<and> dk_commit_seq d = c"
    if "facts_valid fs" for fs
    using that unfolding facts_valid_def by simp
  then show ?thesis
    using keys_as_facts [of keys c] unfolding check_keys_OK_iff by blast
qed

lemma descriptors_facts:
  "facts_valid fs \<Longrightarrow> c \<noteq> 0 \<Longrightarrow>
     descriptors c (map (fact_key c) fs) = Inr (concat (map descriptor fs))"
proof (induction fs)
  case (Cons f fs)
  then show ?case
    by (cases f) (simp add: DecodeFactKey_fact_key, simp add: fact_key_def descriptor_def)
qed simp

section \<open>Payloads\<close>

definition sequence_payload :: "txn_id \<Rightarrow> u64 \<Rightarrow> (fact_ref \<times> valid_time) list \<Rightarrow> bytes" where
  "sequence_payload txn hlc fs =
     [kSequenceV2PayloadVersion] @ [kFactKeyVersion] @ AppendU64 txn @ AppendU64 hlc @
     AppendU32 (of_nat (length fs)) @ concat (map descriptor fs)"

lemma length_sequence_payload [simp]: "length (sequence_payload txn hlc fs) = 22 + 23 * length fs"
  by (simp add: sequence_payload_def)

lemma ParseSequenceV2Payload_Inr:
  assumes "ParseSequenceV2Payload p = Inr h"
  shows "sl_facts_offset h = 22 \<and> sl_fact_count h \<noteq> 0 \<and>
    length p = 22 + 23 * unat (sl_fact_count h) \<and>
    p = [kSequenceV2PayloadVersion] @ [kFactKeyVersion] @ AppendU64 (sl_txn_id h) @
        AppendU64 (sl_system_hlc h) @ AppendU32 (sl_fact_count h) @ drop 22 p"
proof -
  from assms obtain txn hlc n o1 o2 o3 where
    r: "ReadU64 p 2 = Some (txn, o1)" "ReadU64 p o1 = Some (hlc, o2)" "ReadU32 p o2 = Some (n, o3)"
    and v: "22 \<le> length p" "p ! 0 = kSequenceV2PayloadVersion" "p ! 1 = kFactKeyVersion" "n \<noteq> 0"
       "length p - o3 = unat n * 23"
    and h: "h = \<lparr>sl_txn_id = txn, sl_system_hlc = hlc, sl_fact_count = n, sl_facts_offset = o3\<rparr>"
    by (auto simp: ParseSequenceV2Payload_def Let_def rbind_Inr_iff kSequenceV2HeaderBytes_def
        kSequenceV2FactBytes_def split: if_splits)
  have "o3 = 22"
    using Read_bounds(3) [OF r(1)] Read_bounds(3) [OF r(2)] Read_bounds(2) [OF r(3)] by simp
  have "p ! 0 # p ! 1 # drop 2 p =
      [kSequenceV2PayloadVersion] @ [kFactKeyVersion] @ AppendU64 (sl_txn_id h) @
        AppendU64 (sl_system_hlc h) @ AppendU32 (sl_fact_count h) @ drop 22 p"
    using Read_drop(3) [OF r(1)] Read_drop(3) [OF r(2)] Read_drop(2) [OF r(3)] v(2,3) \<open>o3 = 22\<close>
    by (simp add: h)
  moreover have "p = p ! 0 # p ! 1 # drop 2 p"
    by (rule uncons2) (use v(1) in simp)
  ultimately show ?thesis
    using v \<open>o3 = 22\<close> by (simp add: h)
qed

lemma ParseSequenceV2Payload_payload:
  "fs \<noteq> [] \<Longrightarrow> length fs < 4294967296 \<Longrightarrow>
   ParseSequenceV2Payload (sequence_payload txn hlc fs) = Inr
     \<lparr>sl_txn_id = txn, sl_system_hlc = hlc, sl_fact_count = of_nat (length fs), sl_facts_offset = 22\<rparr>"
proof -
  assume "fs \<noteq> []" "length fs < 4294967296"
  then have "(of_nat (length fs) :: u32) \<noteq> 0" "unat (of_nat (length fs) :: u32) = length fs"
    using unat_of_nat_small(1) [of "length fs"] by (metis length_greater_0_conv less_irrefl unat_0)+
  then show ?thesis
    by (simp add: ParseSequenceV2Payload_def sequence_payload_def sequence_constants codec_simps)
qed

text \<open>The decoding steps both decoders share, characterised through the list of facts.\<close>

definition stored_facts ::
  "bytes \<Rightarrow> txn_id \<Rightarrow> u64 \<Rightarrow> (fact_ref \<times> valid_time) list \<Rightarrow> bool" where
  "stored_facts s txn hlc fs \<longleftrightarrow>
     facts_valid fs \<and> fs \<noteq> [] \<and> length (sequence_payload txn hlc fs) \<le> kMaxPayloadBytes \<and>
     s = frame (meta_kind_byte MetaSequenceV2) (sequence_payload txn hlc fs)"

lemma stored_facts_count:
  "stored_facts s txn hlc fs \<Longrightarrow> length fs < 4294967296"
  by (simp add: stored_facts_def kMaxPayloadBytes_def)

lemma sequence_steps_iff:
  assumes "c \<noteq> 0"
  shows "(\<exists>p. DecodeRecord MetaSequenceV2 s = Inr p \<and> ParseSequenceV2Payload p = Inr h \<and>
            rebuild_keys p c (unat (sl_fact_count h)) (sl_facts_offset h) = Inr keys) \<longleftrightarrow>
         (\<exists>fs. stored_facts s (sl_txn_id h) (sl_system_hlc h) fs \<and> keys = map (fact_key c) fs \<and>
            sl_fact_count h = of_nat (length fs) \<and> sl_facts_offset h = 22)"
  (is "?l \<longleftrightarrow> ?r")
proof
  assume ?l
  then obtain p where d: "DecodeRecord MetaSequenceV2 s = Inr p" "ParseSequenceV2Payload p = Inr h"
    "rebuild_keys p c (unat (sl_fact_count h)) (sl_facts_offset h) = Inr keys"
    by blast
  note h = ParseSequenceV2Payload_Inr [OF d(2)]
  from rebuild_keys_Inr [OF d(3)] h obtain fs where
    fs: "length fs = unat (sl_fact_count h)" "facts_valid fs" "keys = map (fact_key c) fs"
      "drop 22 p = concat (map descriptor fs)"
    by auto
  have "p = sequence_payload (sl_txn_id h) (sl_system_hlc h) fs"
    using h fs(1,4) by (simp add: sequence_payload_def)
  moreover have "fs \<noteq> []"
    using h fs(1) by (auto simp: unat_eq_0)
  ultimately have "stored_facts s (sl_txn_id h) (sl_system_hlc h) fs"
    using d(1) fs(2) by (simp add: stored_facts_def DecodeRecord_iff)
  moreover have "of_nat (length fs) = sl_fact_count h"
    by (simp add: fs(1))
  ultimately show ?r
    using fs(3) h by auto
next
  assume ?r
  then obtain fs where fs: "stored_facts s (sl_txn_id h) (sl_system_hlc h) fs"
    "keys = map (fact_key c) fs" "sl_fact_count h = of_nat (length fs)" "sl_facts_offset h = 22"
    by blast
  note n = stored_facts_count [OF fs(1)]
  let ?p = "sequence_payload (sl_txn_id h) (sl_system_hlc h) fs"
  have "DecodeRecord MetaSequenceV2 s = Inr ?p"
    using fs(1) by (simp add: stored_facts_def DecodeRecord_iff)
  moreover have "ParseSequenceV2Payload ?p = Inr h"
    using fs n by (cases h) (simp add: ParseSequenceV2Payload_payload stored_facts_def)
  moreover have "rebuild_keys ?p c (unat (sl_fact_count h)) (sl_facts_offset h) = Inr keys"
    using rebuild_keys_at [of fs c "[kSequenceV2PayloadVersion] @ [kFactKeyVersion] @
        AppendU64 (sl_txn_id h) @ AppendU64 (sl_system_hlc h) @ AppendU32 (of_nat (length fs))" "[]"]
      fs n assms
    by (simp add: sequence_payload_def stored_facts_def unat_of_nat_small)
  ultimately show ?l by blast
qed

lemma DecodeSequenceRecordV2_iff:
  "DecodeSequenceRecordV2 s c = Inr r \<longleftrightarrow>
     c \<noteq> 0 \<and> sr_commit_seq r = c \<and> SequenceRecord_Validate r = OK \<and>
     (\<exists>fs. stored_facts s (sr_txn_id r) (sr_system_hlc r) fs \<and> sr_fact_keys r = map (fact_key c) fs)"
  (is "_ \<longleftrightarrow> ?rhs")
proof
  assume "DecodeSequenceRecordV2 s c = Inr r"
  then obtain p h keys where c: "c \<noteq> 0" and d: "DecodeRecord MetaSequenceV2 s = Inr p"
      "ParseSequenceV2Payload p = Inr h"
      "rebuild_keys p c (unat (sl_fact_count h)) (sl_facts_offset h) = Inr keys"
    and r: "r = \<lparr>sr_commit_seq = c, sr_txn_id = sl_txn_id h, sr_system_hlc = sl_system_hlc h,
                 sr_fact_keys = keys\<rparr>" "SequenceRecord_Validate r = OK"
    by (auto simp: DecodeSequenceRecordV2_def Let_def sbind_Inr_iff split: if_splits)
  then have "\<exists>fs. stored_facts s (sl_txn_id h) (sl_system_hlc h) fs \<and> keys = map (fact_key c) fs"
    using sequence_steps_iff [OF c, of s h keys] by blast
  with c r show ?rhs by simp
next
  assume rhs: ?rhs
  then obtain fs where fs: "stored_facts s (sr_txn_id r) (sr_system_hlc r) fs"
    "sr_fact_keys r = map (fact_key c) fs" and c: "c \<noteq> 0" by blast
  let ?h = "\<lparr>sl_txn_id = sr_txn_id r, sl_system_hlc = sr_system_hlc r,
             sl_fact_count = of_nat (length fs), sl_facts_offset = 22\<rparr>"
  from fs sequence_steps_iff [OF c, of s ?h "sr_fact_keys r"] obtain p where
    "DecodeRecord MetaSequenceV2 s = Inr p" "ParseSequenceV2Payload p = Inr ?h"
    "rebuild_keys p c (unat (sl_fact_count ?h)) (sl_facts_offset ?h) = Inr (sr_fact_keys r)"
    by auto
  with rhs show "DecodeSequenceRecordV2 s c = Inr r"
    by (cases r) (simp add: DecodeSequenceRecordV2_def)
qed

lemma DecodeSequenceRecordViewV2_iff:
  "DecodeSequenceRecordViewV2 s c = Inr v \<longleftrightarrow>
     c \<noteq> 0 \<and> sv_commit_seq v = c \<and>
     (\<exists>fs. stored_facts s (sv_txn_id v) (sv_system_hlc v) fs \<and>
        sv_fact_count v = of_nat (length fs) \<and> sv_identities v = concat (map (fact_key c) fs))"
  (is "_ \<longleftrightarrow> ?rhs")
proof
  assume "DecodeSequenceRecordViewV2 s c = Inr v"
  then obtain p h keys where c: "c \<noteq> 0" and d: "DecodeRecord MetaSequenceV2 s = Inr p"
      "ParseSequenceV2Payload p = Inr h"
      "rebuild_keys p c (unat (sl_fact_count h)) (sl_facts_offset h) = Inr keys"
    and v: "v = \<lparr>sv_commit_seq = c, sv_txn_id = sl_txn_id h, sv_system_hlc = sl_system_hlc h,
                 sv_fact_count = sl_fact_count h, sv_identities = concat keys\<rparr>"
    by (auto simp: DecodeSequenceRecordViewV2_def DecodeRecord_def sbind_Inr_iff split: if_splits)
  then have "\<exists>fs. stored_facts s (sl_txn_id h) (sl_system_hlc h) fs \<and> keys = map (fact_key c) fs \<and>
      sl_fact_count h = of_nat (length fs)"
    using sequence_steps_iff [OF c, of s h keys] by blast
  with c v show ?rhs by auto
next
  assume rhs: ?rhs
  then obtain fs where fs: "stored_facts s (sv_txn_id v) (sv_system_hlc v) fs"
    "sv_fact_count v = of_nat (length fs)" "sv_identities v = concat (map (fact_key c) fs)"
    and c: "c \<noteq> 0" by blast
  let ?h = "\<lparr>sl_txn_id = sv_txn_id v, sl_system_hlc = sv_system_hlc v,
             sl_fact_count = sv_fact_count v, sl_facts_offset = 22\<rparr>"
  from fs sequence_steps_iff [OF c, of s ?h "map (fact_key c) fs"] obtain p where
    "DecodeRecord MetaSequenceV2 s = Inr p" "ParseSequenceV2Payload p = Inr ?h"
    "rebuild_keys p c (unat (sl_fact_count ?h)) (sl_facts_offset ?h) = Inr (map (fact_key c) fs)"
    by auto
  with rhs fs(3) show "DecodeSequenceRecordViewV2 s c = Inr v"
    by (cases v) (simp add: DecodeSequenceRecordViewV2_def DecodeRecord_def sbind_Inr_iff)
qed

lemma EncodeSequenceRecordV2_iff:
  "EncodeSequenceRecordV2 r = Inr s \<longleftrightarrow>
     SequenceRecord_Validate r = OK \<and>
     (\<exists>fs. stored_facts s (sr_txn_id r) (sr_system_hlc r) fs \<and>
        sr_fact_keys r = map (fact_key (sr_commit_seq r)) fs)"
proof (cases "SequenceRecord_Validate r = OK")
  case True
  then have c: "sr_commit_seq r \<noteq> 0" "sr_fact_keys r \<noteq> []"
    and k: "check_keys (sr_commit_seq r) {} (sr_fact_keys r) = OK"
    by (auto simp: SequenceRecord_Validate_def split: if_splits)
  have enc: "EncodeSequenceRecordV2 r = Inr s \<longleftrightarrow> stored_facts s (sr_txn_id r) (sr_system_hlc r) fs"
    if "sr_fact_keys r = map (fact_key (sr_commit_seq r)) fs" "facts_valid fs" for fs
    using True that c descriptors_facts [OF that(2) c(1)]
    by (auto simp: EncodeSequenceRecordV2_def EncodeRecord_iff stored_facts_def sequence_payload_def)
  from k obtain fs where fs: "sr_fact_keys r = map (fact_key (sr_commit_seq r)) fs" "facts_valid fs"
    unfolding check_keys_facts [OF c(1)] by blast
  show ?thesis
    using enc [OF fs] enc fs True by (auto simp: stored_facts_def)
qed (auto simp: EncodeSequenceRecordV2_def sbind_Inr_iff)

lemma PeekRecordKind_stored:
  "stored_facts s txn hlc fs \<Longrightarrow> PeekRecordKind s = Inr 9"
  by (simp add: PeekRecordKind_def stored_facts_def)

lemma DecodeSequenceRecord_V2:
  "DecodeSequenceRecord s c = Inr r \<longleftrightarrow> DecodeSequenceRecordV2 s c = Inr r"
proof
  assume "DecodeSequenceRecordV2 s c = Inr r"
  moreover then obtain fs where "stored_facts s (sr_txn_id r) (sr_system_hlc r) fs"
    by (auto simp: DecodeSequenceRecordV2_iff)
  ultimately show "DecodeSequenceRecord s c = Inr r"
    by (simp add: DecodeSequenceRecord_def PeekRecordKind_stored)
qed (auto simp: DecodeSequenceRecord_def LegacyMetaSequenceFormatError_def split: if_splits)

lemma DecodeSequenceRecordView_V2:
  "DecodeSequenceRecordView s c = Inr v \<longleftrightarrow> DecodeSequenceRecordViewV2 s c = Inr v"
proof
  assume "DecodeSequenceRecordViewV2 s c = Inr v"
  moreover then obtain fs where "stored_facts s (sv_txn_id v) (sv_system_hlc v) fs"
    by (auto simp: DecodeSequenceRecordViewV2_iff)
  ultimately show "DecodeSequenceRecordView s c = Inr v"
    by (simp add: DecodeSequenceRecordView_def PeekRecordKind_stored)
qed (auto simp: DecodeSequenceRecordView_def LegacyMetaSequenceFormatError_def split: if_splits)

lemma split_keys_facts:
  "facts_valid fs \<Longrightarrow> c \<noteq> 0 \<Longrightarrow>
     split_keys (length fs) (concat (map (fact_key c) fs)) = map (fact_key c) fs"
  by (induction fs) (simp_all add: kEncodedFactKeyBytes_def)

lemma length_keys_facts:
  "facts_valid fs \<Longrightarrow> c \<noteq> 0 \<Longrightarrow> length (concat (map (fact_key c) fs)) = length fs * 32"
  by (induction fs) simp_all

definition record_of_view :: "sequence_record_view \<Rightarrow> sequence_record" where
  "record_of_view v =
     \<lparr>sr_commit_seq = sv_commit_seq v, sr_txn_id = sv_txn_id v, sr_system_hlc = sv_system_hlc v,
      sr_fact_keys = split_keys (unat (sv_fact_count v)) (sv_identities v)\<rparr>"

lemma view_facts:
  assumes "stored_facts s (sv_txn_id v) (sv_system_hlc v) fs" "c \<noteq> 0" "sv_commit_seq v = c"
    "sv_fact_count v = of_nat (length fs)" "sv_identities v = concat (map (fact_key c) fs)"
  shows "record_of_view v = \<lparr>sr_commit_seq = c, sr_txn_id = sv_txn_id v,
      sr_system_hlc = sv_system_hlc v, sr_fact_keys = map (fact_key c) fs\<rparr> \<and>
    (SequenceRecordView_Validate v = OK \<longleftrightarrow> SequenceRecord_Validate (record_of_view v) = OK)"
proof -
  have fs: "facts_valid fs" "fs \<noteq> []"
    using assms(1) by (simp_all add: stored_facts_def)
  have n: "unat (sv_fact_count v) = length fs" "length fs < 4294967296"
    using assms(4) stored_facts_count [OF assms(1)] by (simp_all add: unat_of_nat_small)
  then have "sv_fact_count v \<noteq> 0"
    using fs(2) by auto
  with n show ?thesis
    using fs split_keys_facts [OF fs(1) assms(2)] length_keys_facts [OF fs(1) assms(2)] assms(2,3,5)
    by (simp add: record_of_view_def SequenceRecordView_Validate_def SequenceRecord_Validate_def
        kEncodedFactKeyBytes_def)
qed

section \<open>Properties\<close>

text \<open>
  C32: \<^verbatim>\<open>DecodeSequenceRecord\<close>, given the sequence number a record is stored under, returns a
  sequence record exactly when \<^verbatim>\<open>EncodeSequenceRecordV2\<close> writes that record for it: the
  commit sequence and the full 32-byte fact keys, which the payload does not contain, are
  recovered without loss, and every accepted record is valid.
\<close>

theorem sequence_record_bijective:
  "DecodeSequenceRecord s c = Inr r \<longleftrightarrow> sr_commit_seq r = c \<and> EncodeSequenceRecordV2 r = Inr s"
proof -
  have "sr_commit_seq r \<noteq> 0" if "SequenceRecord_Validate r = OK"
    using that by (auto simp: SequenceRecord_Validate_def split: if_splits)
  then show ?thesis
    unfolding DecodeSequenceRecord_V2 DecodeSequenceRecordV2_iff EncodeSequenceRecordV2_iff by auto
qed

text \<open>
  C33: the view decoder and the materializing decoder agree: a record decodes exactly when
  its view decodes and the view validates, and the keys of the view, read 32 bytes at a time,
  are the keys of the record. The view decoder alone makes no duplicate or transaction check.
\<close>

theorem sequence_view_agrees:
  "DecodeSequenceRecord s c = Inr r \<longleftrightarrow>
     (\<exists>v. DecodeSequenceRecordView s c = Inr v \<and> SequenceRecordView_Validate v = OK \<and>
          r = record_of_view v)"
  (is "?l \<longleftrightarrow> ?r")
proof
  assume ?l
  then obtain fs where c: "c \<noteq> 0" "sr_commit_seq r = c" "SequenceRecord_Validate r = OK"
    and fs: "stored_facts s (sr_txn_id r) (sr_system_hlc r) fs" "sr_fact_keys r = map (fact_key c) fs"
    by (auto simp: DecodeSequenceRecord_V2 DecodeSequenceRecordV2_iff)
  let ?v = "\<lparr>sv_commit_seq = c, sv_txn_id = sr_txn_id r, sv_system_hlc = sr_system_hlc r,
             sv_fact_count = of_nat (length fs), sv_identities = concat (map (fact_key c) fs)\<rparr>"
  have "DecodeSequenceRecordView s c = Inr ?v"
    using c fs by (auto simp: DecodeSequenceRecordView_V2 DecodeSequenceRecordViewV2_iff)
  moreover have "SequenceRecordView_Validate ?v = OK \<and> r = record_of_view ?v"
    using view_facts [of s ?v fs c] c fs by (cases r) simp
  ultimately show ?r by blast
next
  assume ?r
  then obtain v where v: "DecodeSequenceRecordView s c = Inr v" "SequenceRecordView_Validate v = OK"
    "r = record_of_view v" by blast
  then obtain fs where fs: "c \<noteq> 0" "sv_commit_seq v = c"
    "stored_facts s (sv_txn_id v) (sv_system_hlc v) fs"
    "sv_fact_count v = of_nat (length fs)" "sv_identities v = concat (map (fact_key c) fs)"
    by (auto simp: DecodeSequenceRecordView_V2 DecodeSequenceRecordViewV2_iff)
  with view_facts [OF fs(3,1,2,4,5)] v show ?l
    by (auto simp: DecodeSequenceRecord_V2 DecodeSequenceRecordV2_iff)
qed

text \<open>
  A record of the retired kind 7 is refused as unsupported by both decoders, whatever
  its payload, checksum or commit sequence, and is never decoded.
\<close>

theorem legacy_sequence_refused:
  assumes "2 \<le> length s" "s ! 1 = 7"
  shows "has_code kNotSupported (DecodeSequenceRecord s c) \<and>
         has_code kNotSupported (DecodeSequenceRecordView s c)"
  using assms by (simp add: DecodeSequenceRecord_def DecodeSequenceRecordView_def PeekRecordKind_def
      LegacyMetaSequenceFormatError_def)

theorem legacy_sequence_refused_witness:
  "has_code kNotSupported (DecodeSequenceRecord [1, 7, 0] 5) \<and>
   has_code kNotSupported (DecodeSequenceRecordView [1, 7, 0] 5)"
  by (rule legacy_sequence_refused) simp_all

end
