(* ===== verification/Commit_Batch.thy ===== *)
theory Commit_Batch
  imports Fact_Codec
begin

text \<open>
  The write request of the store: \<^verbatim>\<open>StoreCommitBatch\<close> with its dependencies
  (\<^verbatim>\<open>src/src/storage/facts/fact_store.h\<close>) and the validation every commit passes before it
  is appended (\<^verbatim>\<open>src/src/storage/rocks/rocks_adapter.cc\<close>). The set-based duplicate checks
  over encoded keys are shown to decide the intended conditions on references and times.
\<close>

section \<open>Data\<close>

record snapshot_write_dependency =
  sw_ref :: fact_ref
  sw_valid_from :: valid_time
  sw_predecessor :: "valid_time option"
  sw_successor :: "valid_time option"
  sw_snapshot_seq :: commit_seq

record strict_read_dependency =
  st_ref :: fact_ref
  st_valid_time :: valid_time
  st_snapshot_seq :: commit_seq
  st_observed :: "fact_event option"
  st_predecessor :: "valid_time option"
  st_successor :: "valid_time option"

record store_commit_batch =
  cb_txn_id :: txn_id
  cb_system_hlc :: u64
  cb_mutations :: "pending_mutation list"
  cb_edge_identities :: "edge_identity list"
  cb_snapshot_deps :: "snapshot_write_dependency list"
  cb_strict_deps :: "strict_read_dependency list"
  cb_fresh :: bool

section \<open>Validation of dependencies\<close>

definition SnapshotWriteDependency_Validate :: "snapshot_write_dependency \<Rightarrow> status" where
  "SnapshotWriteDependency_Validate d =
     sbind (FactRef_Validate (sw_ref d)) (\<lambda>_.
       if (case sw_predecessor d of None \<Rightarrow> False | Some p \<Rightarrow> p \<ge> sw_valid_from d)
       then InvalidArgument ''snapshot write dependency'' ''predecessor is not before mutation''
       else if (case sw_successor d of None \<Rightarrow> False | Some p \<Rightarrow> p \<le> sw_valid_from d)
       then InvalidArgument ''snapshot write dependency'' ''successor is not after mutation''
       else OK)"

definition StrictReadDependency_Validate :: "strict_read_dependency \<Rightarrow> status" where
  "StrictReadDependency_Validate d =
     sbind (FactRef_Validate (st_ref d)) (\<lambda>_.
       if (case st_predecessor d of None \<Rightarrow> False | Some p \<Rightarrow> p > st_valid_time d)
       then InvalidArgument ''strict read dependency'' ''predecessor is after read time''
       else if (case st_successor d of None \<Rightarrow> False | Some p \<Rightarrow> p \<le> st_valid_time d)
       then InvalidArgument ''strict read dependency'' ''successor is not after read time''
       else (case st_observed d of
          Some e \<Rightarrow>
            sbind (FactEvent_Validate e) (\<lambda>_.
              if ev_ref e \<noteq> st_ref d \<or> ev_valid_from e > st_valid_time d \<or>
                 ev_commit_seq e > st_snapshot_seq d \<or>
                 (case st_predecessor d of None \<Rightarrow> False | Some p \<Rightarrow> p \<ge> st_valid_time d)
              then InvalidArgument ''strict read dependency''
                     ''observed event disagrees with read identity''
              else OK)
        | None \<Rightarrow>
            if st_predecessor d \<noteq> None
            then InvalidArgument ''strict read dependency'' ''empty read has a predecessor fence''
            else OK))"

section \<open>Validation of batches\<close>

text \<open>
  The four loops of \<^verbatim>\<open>StoreCommitBatch::Validate\<close>. Each threads the set the source inserts
  keys into; the first also returns it, since the second looks mutations up in it.
\<close>

fun check_mutations :: "bytes set \<Rightarrow> pending_mutation list \<Rightarrow> bytes set status_or" where
  "check_mutations facts [] = Inr facts"
| "check_mutations facts (m # ms) =
     sbind (PendingFactMutation_Validate m) (\<lambda>_.
       let key = EncodeFactKey (mu_ref m) (mu_valid_from m) 1 in
       if key = [] \<or> key \<in> facts then InvalidArgument ''commit batch'' ''duplicate fact mutation''
       else check_mutations (insert key facts) ms)"

fun check_snapshot_deps :: "bytes set \<Rightarrow> bytes set \<Rightarrow> snapshot_write_dependency list \<Rightarrow> status" where
  "check_snapshot_deps facts seen [] = OK"
| "check_snapshot_deps facts seen (d # ds) =
     sbind (SnapshotWriteDependency_Validate d) (\<lambda>_.
       let key = EncodeFactKey (sw_ref d) (sw_valid_from d) 1 in
       if key \<notin> facts \<or> key \<in> seen
       then InvalidArgument ''commit batch'' ''invalid snapshot write dependency''
       else check_snapshot_deps facts (insert key seen) ds)"

fun check_strict_deps :: "bytes set \<Rightarrow> strict_read_dependency list \<Rightarrow> status" where
  "check_strict_deps seen [] = OK"
| "check_strict_deps seen (d # ds) =
     sbind (StrictReadDependency_Validate d) (\<lambda>_.
       let key = EncodeFactKey (st_ref d) 0 1 in
       if key = [] then InvalidArgument ''commit batch'' ''duplicate strict read dependency''
       else
        let key = key @ AppendU64 (st_valid_time d) in
        if key \<in> seen then InvalidArgument ''commit batch'' ''duplicate strict read dependency''
        else check_strict_deps (insert key seen) ds)"

fun check_edges :: "(part_id \<times> entity_id) set \<Rightarrow> edge_identity list \<Rightarrow>
    (part_id \<times> entity_id) set status_or" where
  "check_edges edges [] = Inr edges"
| "check_edges edges (i # is) =
     sbind (EdgeIdentity_Validate i) (\<lambda>_.
       let edge = (er_home (EdgeIdentity_edge_ref i), ei_edge i) in
       if edge \<in> edges then InvalidArgument ''commit batch'' ''duplicate edge identity''
       else check_edges (insert edge edges) is)"

definition edge_state_assertions :: "pending_mutation list \<Rightarrow> (part_id \<times> entity_id) set" where
  "edge_state_assertions ms =
     set (map (\<lambda>m. (ref_part (mu_ref m), ref_entity (mu_ref m)))
       (filter (\<lambda>m. ref_family (mu_ref m) = kEdgeState \<and> mu_operation m = kPut) ms))"

definition StoreCommitBatch_Validate :: "store_commit_batch \<Rightarrow> status" where
  "StoreCommitBatch_Validate b =
     (if cb_txn_id b = 0 \<or> cb_system_hlc b = 0 \<or> cb_mutations b = []
      then InvalidArgument ''commit batch'' ''missing transaction, time, or facts''
      else
       sbind (check_mutations {} (cb_mutations b)) (\<lambda>facts.
       sbind (check_snapshot_deps facts {} (cb_snapshot_deps b)) (\<lambda>_.
       sbind (check_strict_deps {} (cb_strict_deps b)) (\<lambda>_.
       sbind (check_edges {} (cb_edge_identities b)) (\<lambda>edges.
         if edges \<noteq> {} \<and> \<not> edges \<subseteq> edge_state_assertions (cb_mutations b)
         then InvalidArgument ''commit batch'' ''edge identity lacks state assertion''
         else OK)))))"

section \<open>Keys as set elements\<close>

lemma EncodeFactKey_eq_iff:
  assumes "FactRef_Validate r = OK" "FactRef_Validate r' = OK" "c \<noteq> 0" "c' \<noteq> 0"
  shows "EncodeFactKey r v c = EncodeFactKey r' v' c' \<longleftrightarrow> r = r' \<and> v = v' \<and> c = c'"
proof
  assume "EncodeFactKey r v c = EncodeFactKey r' v' c'"
  then have "DecodeFactKey (key_layout r v c) = DecodeFactKey (key_layout r' v' c')"
    using assms by (simp add: EncodeFactKey_layout)
  then show "r = r' \<and> v = v' \<and> c = c'"
    using assms by (simp add: DecodeFactKey_layout)
qed simp

lemma EncodeFactKey_not_Nil: "FactRef_Validate r = OK \<Longrightarrow> c \<noteq> 0 \<Longrightarrow> EncodeFactKey r v c \<noteq> []"
  by (simp add: EncodeFactKey_layout key_layout_def)

definition slot_key :: "fact_ref \<times> valid_time \<Rightarrow> bytes" where
  "slot_key = (\<lambda>(r, v). EncodeFactKey r v 1)"

lemma slot_key_inj: "inj_on slot_key {s. FactRef_Validate (fst s) = OK}"
  by (rule inj_onI) (auto simp: slot_key_def EncodeFactKey_eq_iff)

definition mutation_slot :: "pending_mutation \<Rightarrow> fact_ref \<times> valid_time" where
  "mutation_slot m = (mu_ref m, mu_valid_from m)"

definition dependency_slot :: "snapshot_write_dependency \<Rightarrow> fact_ref \<times> valid_time" where
  "dependency_slot d = (sw_ref d, sw_valid_from d)"

definition read_slot :: "strict_read_dependency \<Rightarrow> fact_ref \<times> valid_time" where
  "read_slot d = (st_ref d, st_valid_time d)"

lemma mutation_valid_ref: "PendingFactMutation_Validate m = OK \<Longrightarrow> FactRef_Validate (mu_ref m) = OK"
  by (auto simp: PendingFactMutation_Validate_def ValidateMutation_OK_iff sbind_Inr_iff)

lemma snapshot_dep_valid_ref:
  "SnapshotWriteDependency_Validate d = OK \<Longrightarrow> FactRef_Validate (sw_ref d) = OK"
  by (auto simp: SnapshotWriteDependency_Validate_def sbind_Inr_iff)

lemma strict_dep_valid_ref:
  "StrictReadDependency_Validate d = OK \<Longrightarrow> FactRef_Validate (st_ref d) = OK"
  by (auto simp: StrictReadDependency_Validate_def sbind_Inr_iff)

definition read_key :: "fact_ref \<times> valid_time \<Rightarrow> bytes" where
  "read_key = (\<lambda>(r, t). EncodeFactKey r 0 1 @ AppendU64 t)"

lemma read_key_inj: "inj_on read_key {s. FactRef_Validate (fst s) = OK}"
proof (rule inj_onI)
  fix s t :: "fact_ref \<times> valid_time"
  assume "s \<in> {s. FactRef_Validate (fst s) = OK}" "t \<in> {s. FactRef_Validate (fst s) = OK}"
    "read_key s = read_key t"
  then show "s = t"
    using EncodeFactKey_eq_iff [of "fst s" "fst t" 1 1 0 0]
    by (cases s; cases t) (simp add: read_key_def EncodeFactKey_layout)
qed

section \<open>What the loops decide\<close>

lemma check_mutations_iff:
  "check_mutations facts ms = Inr F \<longleftrightarrow>
     (\<forall>m \<in> set ms. PendingFactMutation_Validate m = OK) \<and>
     fresh_keys (\<lambda>m. slot_key (mutation_slot m)) facts ms \<and>
     F = facts \<union> (\<lambda>m. slot_key (mutation_slot m)) ` set ms"
proof (induction facts ms rule: check_mutations.induct)
  case (2 facts m ms)
  then show ?case
    using EncodeFactKey_not_Nil [OF mutation_valid_ref [of m], of 1 "mu_valid_from m"]
    by (auto simp: sbind_Inr_iff Let_def slot_key_def mutation_slot_def)
qed auto

lemma check_snapshot_deps_iff:
  "check_snapshot_deps facts seen ds = OK \<longleftrightarrow>
     (\<forall>d \<in> set ds. SnapshotWriteDependency_Validate d = OK) \<and>
     fresh_keys (\<lambda>d. slot_key (dependency_slot d)) seen ds \<and>
     (\<forall>d \<in> set ds. slot_key (dependency_slot d) \<in> facts)"
  by (induction facts seen ds rule: check_snapshot_deps.induct)
    (auto simp: sbind_Inr_iff Let_def slot_key_def dependency_slot_def)

lemma check_strict_deps_iff:
  "check_strict_deps seen ds = OK \<longleftrightarrow>
     (\<forall>d \<in> set ds. StrictReadDependency_Validate d = OK) \<and>
     fresh_keys (\<lambda>d. read_key (read_slot d)) seen ds"
proof (induction seen ds rule: check_strict_deps.induct)
  case (2 seen d ds)
  then show ?case
    using EncodeFactKey_not_Nil [OF strict_dep_valid_ref [of d], of 1 0]
    by (auto simp: sbind_Inr_iff Let_def read_key_def read_slot_def)
qed simp

lemma check_edges_iff:
  "check_edges edges is = Inr E \<longleftrightarrow>
     (\<forall>i \<in> set is. EdgeIdentity_Validate i = OK) \<and>
     fresh_keys (\<lambda>i. (ei_home i, ei_edge i)) edges is \<and>
     E = edges \<union> (\<lambda>i. (ei_home i, ei_edge i)) ` set is"
  by (induction edges "is" rule: check_edges.induct)
    (auto simp: sbind_Inr_iff Let_def EdgeIdentity_edge_ref_def)

lemma edge_state_assertions_iff:
  "e \<in> edge_state_assertions ms \<longleftrightarrow>
     (\<exists>m \<in> set ms. ref_family (mu_ref m) = kEdgeState \<and> mu_operation m = kPut \<and>
        e = (ref_part (mu_ref m), ref_entity (mu_ref m)))"
  by (auto simp: edge_state_assertions_def)

text \<open>The intended meaning of a valid batch, on references and times instead of key strings.\<close>

definition batch_ok :: "store_commit_batch \<Rightarrow> bool" where
  "batch_ok b \<longleftrightarrow>
     cb_txn_id b \<noteq> 0 \<and> cb_system_hlc b \<noteq> 0 \<and> cb_mutations b \<noteq> [] \<and>
     (\<forall>m \<in> set (cb_mutations b). PendingFactMutation_Validate m = OK) \<and>
     distinct (map mutation_slot (cb_mutations b)) \<and>
     (\<forall>d \<in> set (cb_snapshot_deps b). SnapshotWriteDependency_Validate d = OK) \<and>
     distinct (map dependency_slot (cb_snapshot_deps b)) \<and>
     dependency_slot ` set (cb_snapshot_deps b) \<subseteq> mutation_slot ` set (cb_mutations b) \<and>
     (\<forall>d \<in> set (cb_strict_deps b). StrictReadDependency_Validate d = OK) \<and>
     distinct (map read_slot (cb_strict_deps b)) \<and>
     (\<forall>i \<in> set (cb_edge_identities b). EdgeIdentity_Validate i = OK) \<and>
     distinct (map EdgeIdentity_edge_ref (cb_edge_identities b)) \<and>
     (\<forall>i \<in> set (cb_edge_identities b). \<exists>m \<in> set (cb_mutations b).
        mu_operation m = kPut \<and> mu_ref m = EntityFact_Edge (EdgeIdentity_edge_ref i))"

lemma distinct_slots:
  "(\<forall>m \<in> set ms. PendingFactMutation_Validate m = OK) \<Longrightarrow>
     distinct (map (\<lambda>m. slot_key (mutation_slot m)) ms) \<longleftrightarrow> distinct (map mutation_slot ms)"
  "(\<forall>d \<in> set ds. SnapshotWriteDependency_Validate d = OK) \<Longrightarrow>
     distinct (map (\<lambda>d. slot_key (dependency_slot d)) ds) \<longleftrightarrow> distinct (map dependency_slot ds)"
  "(\<forall>d \<in> set rs. StrictReadDependency_Validate d = OK) \<Longrightarrow>
     distinct (map (\<lambda>d. read_key (read_slot d)) rs) \<longleftrightarrow> distinct (map read_slot rs)"
  by (rule distinct_map_comp [OF slot_key_inj] distinct_map_comp [OF read_key_inj],
      simp add: mutation_slot_def dependency_slot_def read_slot_def
        mutation_valid_ref snapshot_dep_valid_ref strict_dep_valid_ref)+

lemma slot_key_mem:
  assumes "\<forall>m \<in> set ms. PendingFactMutation_Validate m = OK" "SnapshotWriteDependency_Validate d = OK"
  shows "slot_key (dependency_slot d) \<in> (\<lambda>m. slot_key (mutation_slot m)) ` set ms \<longleftrightarrow>
    dependency_slot d \<in> mutation_slot ` set ms"
proof -
  have "slot_key (dependency_slot d) = slot_key (mutation_slot m) \<longleftrightarrow> dependency_slot d = mutation_slot m"
    if "m \<in> set ms" for m
    using assms that by (intro inj_on_eq_iff [OF slot_key_inj])
      (auto simp: mutation_slot_def dependency_slot_def mutation_valid_ref snapshot_dep_valid_ref)
  then show ?thesis
    by (simp add: image_iff)
qed

lemma edge_refs_distinct:
  "distinct (map (\<lambda>i. (ei_home i, ei_edge i)) is) \<longleftrightarrow> distinct (map EdgeIdentity_edge_ref is)"
  by (induction "is") (auto simp: EdgeIdentity_edge_ref_def image_iff)

lemma edge_asserted:
  assumes "\<forall>m \<in> set ms. PendingFactMutation_Validate m = OK"
  shows "(ei_home i, ei_edge i) \<in> edge_state_assertions ms \<longleftrightarrow>
    (\<exists>m \<in> set ms. mu_operation m = kPut \<and> mu_ref m = EntityFact_Edge (EdgeIdentity_edge_ref i))"
proof -
  have "ref_property (mu_ref m) = 0" if "m \<in> set ms" "ref_family (mu_ref m) = kEdgeState" for m
    using mutation_valid_ref [of m] assms that
    by (auto simp: FactRef_Validate_OK_iff IsStateFamily_def)
  then have "mu_ref m = EntityFact_Edge (EdgeIdentity_edge_ref i) \<longleftrightarrow>
      ref_family (mu_ref m) = kEdgeState \<and>
      (ei_home i, ei_edge i) = (ref_part (mu_ref m), ref_entity (mu_ref m))"
    if "m \<in> set ms" for m
    using that by (cases "mu_ref m") (fastforce simp: EntityFact_Edge_def EdgeIdentity_edge_ref_def)
  then show ?thesis
    unfolding edge_state_assertions_iff by blast
qed

lemma batch_ok_iff: "StoreCommitBatch_Validate b = OK \<longleftrightarrow> batch_ok b"
proof -
  have "StoreCommitBatch_Validate b = OK \<longleftrightarrow>
      cb_txn_id b \<noteq> 0 \<and> cb_system_hlc b \<noteq> 0 \<and> cb_mutations b \<noteq> [] \<and>
      (\<exists>F E. check_mutations {} (cb_mutations b) = Inr F \<and>
        check_snapshot_deps F {} (cb_snapshot_deps b) = OK \<and>
        check_strict_deps {} (cb_strict_deps b) = OK \<and>
        check_edges {} (cb_edge_identities b) = Inr E \<and>
        E \<subseteq> edge_state_assertions (cb_mutations b))"
    by (auto simp: StoreCommitBatch_Validate_def sbind_Inr_iff)
  then show ?thesis
    unfolding check_mutations_iff check_snapshot_deps_iff check_strict_deps_iff check_edges_iff
      batch_ok_def fresh_keys_empty
    using distinct_slots(1) [of "cb_mutations b"] distinct_slots(2) [of "cb_snapshot_deps b"]
      distinct_slots(3) [of "cb_strict_deps b"] slot_key_mem [of "cb_mutations b"]
      edge_asserted [of "cb_mutations b"]
    by (auto simp: edge_refs_distinct image_subset_iff)
qed

text \<open>
  C34: \<^verbatim>\<open>StoreCommitBatch::Validate\<close> accepts exactly the intended batches: a transaction, a
  time and at least one mutation, all parts valid on their own, no two mutations of the same
  fact at the same valid time, every write dependency belonging to a mutation and unique, no
  strict read recorded twice, and every new edge identity unique and asserted by a state PUT
  of that edge in the same batch.
\<close>

theorem commit_batch_validation:
  "StoreCommitBatch_Validate b = OK \<longleftrightarrow> batch_ok b"
  by (rule batch_ok_iff)

end
