(* ===== verification/Prepared_Codec.thy ===== *)
theory Prepared_Codec
  imports Commit_Batch Record_Framing
begin

text \<open>
  \<^verbatim>\<open>src/src/storage/facts/prepared_commit_codec.cc\<close>: the durable form of a prepared commit
  batch, of an aborted asynchronous transaction and of an external decision. The batch is
  a sequence of counted sections; the locale \<open>item_codec\<close> is the contract of one item of a
  section, from which the round trip of a whole section follows.
\<close>

section \<open>Data\<close>

definition kPreparedRecord :: u8 where "kPreparedRecord = 1"
definition kAbortedRecord :: u8 where "kAbortedRecord = 2"
definition kPreparedDecisionRecord :: u8 where "kPreparedDecisionRecord = 3"

datatype prepared_decision_outcome = DecisionCommit | DecisionAbort | DecisionOther u8

fun decision_byte :: "prepared_decision_outcome \<Rightarrow> u8" where
  "decision_byte DecisionCommit = 1"
| "decision_byte DecisionAbort = 2"
| "decision_byte (DecisionOther b) = b"

definition decision_of :: "u8 \<Rightarrow> prepared_decision_outcome" where
  "decision_of b = (if b = 1 then DecisionCommit else if b = 2 then DecisionAbort else DecisionOther b)"

record store_prepared_decision =
  de_txn_id :: txn_id
  de_outcome :: prepared_decision_outcome
  de_certificate :: bytes

type_synonym 'a item_reader = "bytes \<Rightarrow> nat \<Rightarrow> ('a \<times> nat) status_or"

section \<open>Items\<close>

definition EncodePreparedRecord :: "u8 \<Rightarrow> bytes \<Rightarrow> bytes status_or" where
  "EncodePreparedRecord kind payload = EncodeFramed ''async prepare'' kind payload"

definition DecodePreparedRecord :: "u8 \<Rightarrow> bytes \<Rightarrow> bytes status_or" where
  "DecodePreparedRecord kind encoded = DecodeFramed ''async prepare'' kind encoded"

definition AppendMutation :: "pending_mutation \<Rightarrow> bytes status_or" where
  "AppendMutation m =
     (let key = EncodeFactKey (mu_ref m) (mu_valid_from m) 1 in
      if key = [] then InvalidArgument ''async prepare'' ''invalid mutation''
      else
       sbind (EncodeFactValue (event_of_mutation 1 m)) (\<lambda>value.
         Inr (key @ AppendU32 (of_nat (length value)) @ value)))"

definition ReadMutation :: "pending_mutation item_reader" where
  "ReadMutation payload off =
     (if length payload - off < kEncodedFactKeyBytes
      then Corruption ''async prepare'' ''truncated mutation key''
      else
       sbind (DecodeFactKey (take kEncodedFactKeyBytes (drop off payload))) (\<lambda>key.
       let bad = Corruption ''async prepare'' ''invalid mutation value length'' in
       rbind (ReadU32 payload (off + kEncodedFactKeyBytes)) bad (\<lambda>value_size off.
       if unat value_size > length payload - off then bad
       else
        sbind (DecodeFactValue (dk_ref key) (dk_valid_from key) 1
                 (take (unat value_size) (drop off payload))) (\<lambda>e.
          Inr (\<lparr>mu_ref = ev_ref e, mu_valid_from = ev_valid_from e, mu_operation = ev_operation e,
                mu_schema_epoch = ev_schema_epoch e, mu_value = ev_value e\<rparr>,
               off + unat value_size)))))"

definition AppendOptionalTime :: "valid_time option \<Rightarrow> bytes" where
  "AppendOptionalTime t = (case t of None \<Rightarrow> [0] | Some v \<Rightarrow> [1] @ AppendU64 v)"

definition ReadOptionalTime :: "valid_time option reader" where
  "ReadOptionalTime payload off =
     (if off = length payload then None
      else
       let present = payload ! off; off = off + 1 in
       if present > 1 then None
       else if present = 0 then Some (None, off)
       else map_option (\<lambda>(v, off). (Some v, off)) (ReadU64 payload off))"

definition AppendRef :: "fact_ref \<Rightarrow> bytes" where
  "AppendRef r =
     AppendU32 (ref_part r) @ [family_byte (ref_family r)] @ AppendU16 (ref_property r) @
     AppendU64 (ref_entity r)"

definition ReadRef :: "fact_ref reader" where
  "ReadRef payload off =
     (if length payload - off < 15 then None
      else
       case ReadU32 payload off of None \<Rightarrow> None | Some (part, off) \<Rightarrow>
       let family = payload ! off in
       case ReadU16 payload (off + 1) of None \<Rightarrow> None | Some (prop, off) \<Rightarrow>
       case ReadU64 payload off of None \<Rightarrow> None | Some (entity, off) \<Rightarrow>
       let r = \<lparr>ref_part = part, ref_family = family_of family, ref_property = prop,
                ref_entity = entity\<rparr>
       in if ok (FactRef_Validate r) then Some (r, off) else None)"

definition AppendIdentity :: "edge_identity \<Rightarrow> bytes" where
  "AppendIdentity i =
     AppendU32 (ei_home i) @ AppendU64 (ei_edge i) @ AppendU32 (ei_source_part i) @
     AppendU64 (ei_source i) @ AppendU32 (ei_target_part i) @ AppendU64 (ei_target i) @
     AppendU64 (ei_type i)"

definition ReadIdentity :: "edge_identity item_reader" where
  "ReadIdentity payload off =
     (let bad = Corruption ''async prepare'' ''truncated edge identity'' in
      rbind (ReadU32 payload off) bad (\<lambda>home off.
      rbind (ReadU64 payload off) bad (\<lambda>edge off.
      rbind (ReadU32 payload off) bad (\<lambda>source_part off.
      rbind (ReadU64 payload off) bad (\<lambda>source off.
      rbind (ReadU32 payload off) bad (\<lambda>target_part off.
      rbind (ReadU64 payload off) bad (\<lambda>target off.
      rbind (ReadU64 payload off) bad (\<lambda>type off.
        Inr (EdgeIdentity_init \<lparr>er_home = home, er_edge = edge\<rparr>
               \<lparr>vr_part = source_part, vr_vertex = source\<rparr>
               \<lparr>vr_part = target_part, vr_vertex = target\<rparr> type, off)))))))))"

definition AppendSnapshotDep :: "snapshot_write_dependency \<Rightarrow> bytes" where
  "AppendSnapshotDep d =
     AppendRef (sw_ref d) @ AppendU64 (sw_valid_from d) @ AppendOptionalTime (sw_predecessor d) @
     AppendOptionalTime (sw_successor d) @ AppendU64 (sw_snapshot_seq d)"

definition ReadSnapshotDep :: "snapshot_write_dependency item_reader" where
  "ReadSnapshotDep payload off =
     (let bad = Corruption ''async prepare'' ''invalid snapshot dependency'' in
      rbind (ReadRef payload off) bad (\<lambda>r off.
      rbind (ReadU64 payload off) bad (\<lambda>valid_from off.
      rbind (ReadOptionalTime payload off) bad (\<lambda>predecessor off.
      rbind (ReadOptionalTime payload off) bad (\<lambda>successor off.
      rbind (ReadU64 payload off) bad (\<lambda>snapshot_seq off.
        Inr (\<lparr>sw_ref = r, sw_valid_from = valid_from, sw_predecessor = predecessor,
              sw_successor = successor, sw_snapshot_seq = snapshot_seq\<rparr>, off)))))))"

definition AppendStrictDep :: "strict_read_dependency \<Rightarrow> bytes status_or" where
  "AppendStrictDep d =
     sbind (case st_observed d of
        None \<Rightarrow> Inr [0]
      | Some e \<Rightarrow>
          let key = EncodeFactKey (ev_ref e) (ev_valid_from e) (ev_commit_seq e);
              bad = InvalidArgument ''async prepare'' ''invalid observed event'' in
          if key = [] then bad
          else case EncodeFactValue e of
                 Inl _ \<Rightarrow> bad
               | Inr value \<Rightarrow> Inr ([1] @ key @ AppendU32 (of_nat (length value)) @ value))
       (\<lambda>observed. Inr
         (AppendRef (st_ref d) @ AppendU64 (st_valid_time d) @ AppendU64 (st_snapshot_seq d) @
          observed @ AppendOptionalTime (st_predecessor d) @ AppendOptionalTime (st_successor d)))"

definition ReadObserved :: "fact_event option item_reader" where
  "ReadObserved payload off =
     (let observed = payload ! off; off = off + 1 in
      if observed > 1 then Corruption ''async prepare'' ''invalid observed marker''
      else if observed = 0 then Inr (None, off)
      else if length payload - off < kEncodedFactKeyBytes
      then Corruption ''async prepare'' ''truncated observed key''
      else
       sbind (DecodeFactKey (take kEncodedFactKeyBytes (drop off payload))) (\<lambda>key.
       let bad = Corruption ''async prepare'' ''invalid observed value'' in
       rbind (ReadU32 payload (off + kEncodedFactKeyBytes)) bad (\<lambda>value_size off.
       if unat value_size > length payload - off then bad
       else
        sbind (DecodeFactValue (dk_ref key) (dk_valid_from key) (dk_commit_seq key)
                 (take (unat value_size) (drop off payload))) (\<lambda>e.
          Inr (Some e, off + unat value_size)))))"

definition ReadStrictDep :: "strict_read_dependency item_reader" where
  "ReadStrictDep payload off =
     (let bad = Corruption ''async prepare'' ''invalid strict dependency'';
          bad_fence = Corruption ''async prepare'' ''invalid strict fences'' in
      rbind (ReadRef payload off) bad (\<lambda>r off.
      rbind (ReadU64 payload off) bad (\<lambda>valid_time off.
      rbind (ReadU64 payload off) bad (\<lambda>snapshot_seq off.
      if off = length payload then bad
      else
       sbind (ReadObserved payload off) (\<lambda>(observed, off).
       rbind (ReadOptionalTime payload off) bad_fence (\<lambda>predecessor off.
       rbind (ReadOptionalTime payload off) bad_fence (\<lambda>successor off.
         Inr (\<lparr>st_ref = r, st_valid_time = valid_time, st_snapshot_seq = snapshot_seq,
               st_observed = observed, st_predecessor = predecessor,
               st_successor = successor\<rparr>, off))))))))"

section \<open>Batches\<close>

fun append_all :: "('a \<Rightarrow> bytes status_or) \<Rightarrow> 'a list \<Rightarrow> bytes status_or" where
  "append_all enc [] = Inr []"
| "append_all enc (x # xs) =
     sbind (enc x) (\<lambda>s. sbind (append_all enc xs) (\<lambda>rest. Inr (s @ rest)))"

fun read_items :: "'a item_reader \<Rightarrow> bytes \<Rightarrow> nat \<Rightarrow> nat \<Rightarrow> ('a list \<times> nat) status_or" where
  "read_items read payload 0 off = Inr ([], off)"
| "read_items read payload (Suc n) off =
     sbind (read payload off) (\<lambda>(x, off).
     sbind (read_items read payload n off) (\<lambda>(xs, off). Inr (x # xs, off)))"

definition PreparedCommitPrefix :: bytes where
  "PreparedCommitPrefix = ascii ''async/prepare/''"

definition EncodePreparedCommitKey :: "txn_id \<Rightarrow> bytes status_or" where
  "EncodePreparedCommitKey t =
     (if t = 0 then InvalidArgument ''async prepare'' ''zero transaction ID''
      else Inr (PreparedCommitPrefix @ AppendU64 t))"

definition EncodePreparedCommit :: "store_commit_batch \<Rightarrow> bytes status_or" where
  "EncodePreparedCommit b =
     sbind (StoreCommitBatch_Validate b) (\<lambda>_.
     sbind (append_all AppendMutation (cb_mutations b)) (\<lambda>mutations.
     sbind (append_all AppendStrictDep (cb_strict_deps b)) (\<lambda>strict.
       EncodePreparedRecord kPreparedRecord
         (AppendU64 (cb_txn_id b) @ AppendU64 (cb_system_hlc b) @
          AppendU32 (of_nat (length (cb_mutations b))) @ mutations @
          AppendU32 (of_nat (length (cb_edge_identities b))) @
          concat (map AppendIdentity (cb_edge_identities b)) @
          AppendU32 (of_nat (length (cb_snapshot_deps b))) @
          concat (map AppendSnapshotDep (cb_snapshot_deps b)) @
          AppendU32 (of_nat (length (cb_strict_deps b))) @ strict))))"

definition DecodePreparedCommit :: "bytes \<Rightarrow> store_commit_batch status_or" where
  "DecodePreparedCommit encoded =
     sbind (DecodePreparedRecord kPreparedRecord encoded) (\<lambda>payload.
     let header = Corruption ''async prepare'' ''truncated batch header'' in
     rbind (ReadU64 payload 0) header (\<lambda>txn off.
     rbind (ReadU64 payload off) header (\<lambda>hlc off.
     rbind (ReadU32 payload off) header (\<lambda>count off.
     sbind (read_items ReadMutation payload (unat count) off) (\<lambda>(mutations, off).
     rbind (ReadU32 payload off) (Corruption ''async prepare'' ''truncated edge count'') (\<lambda>count off.
     sbind (read_items ReadIdentity payload (unat count) off) (\<lambda>(identities, off).
     rbind (ReadU32 payload off) (Corruption ''async prepare'' ''truncated snapshot dependency count'')
       (\<lambda>count off.
     sbind (read_items ReadSnapshotDep payload (unat count) off) (\<lambda>(snapshots, off).
     rbind (ReadU32 payload off) (Corruption ''async prepare'' ''truncated strict dependency count'')
       (\<lambda>count off.
     sbind (read_items ReadStrictDep payload (unat count) off) (\<lambda>(stricts, off).
     if off \<noteq> length payload then Corruption ''async prepare'' ''trailing bytes''
     else
      let b = \<lparr>cb_txn_id = txn, cb_system_hlc = hlc, cb_mutations = mutations,
               cb_edge_identities = identities, cb_snapshot_deps = snapshots,
               cb_strict_deps = stricts, cb_fresh = False\<rparr>
      in sbind (as_corruption ''async prepare'' (StoreCommitBatch_Validate b)) (\<lambda>_. Inr b))))))))))))"

section \<open>Terminals and decisions\<close>

definition AsyncTerminalPrefix :: bytes where
  "AsyncTerminalPrefix = ascii ''async/terminal/''"

definition EncodeAsyncTerminalKey :: "txn_id \<Rightarrow> bytes status_or" where
  "EncodeAsyncTerminalKey t =
     (if t = 0 then InvalidArgument ''async terminal'' ''zero transaction ID''
      else Inr (AsyncTerminalPrefix @ AppendU64 t))"

definition EncodeAsyncAbortTerminal :: "txn_id \<Rightarrow> bytes status_or" where
  "EncodeAsyncAbortTerminal t =
     (if t = 0 then InvalidArgument ''async terminal'' ''zero transaction ID''
      else EncodePreparedRecord kAbortedRecord (AppendU64 t))"

definition DecodeAsyncAbortTerminal :: "bytes \<Rightarrow> txn_id status_or" where
  "DecodeAsyncAbortTerminal encoded =
     sbind (DecodePreparedRecord kAbortedRecord encoded) (\<lambda>payload.
     let bad = Corruption ''async terminal'' ''invalid aborted record'' in
     rbind (ReadU64 payload 0) bad (\<lambda>t off.
       if off \<noteq> length payload \<or> t = 0 then bad else Inr t))"

definition EncodePreparedDecisionKey :: "txn_id \<Rightarrow> bytes status_or" where
  "EncodePreparedDecisionKey t =
     (if t = 0 then InvalidArgument ''prepared decision'' ''zero transaction ID''
      else Inr (ascii ''external/decision/'' @ AppendU64 t))"

definition EncodePreparedDecision :: "store_prepared_decision \<Rightarrow> bytes status_or" where
  "EncodePreparedDecision d =
     (if de_txn_id d = 0 \<or> de_certificate d = [] \<or>
         length (de_certificate d) > kMaxPayloadBytes - 13 \<or>
         (de_outcome d \<noteq> DecisionCommit \<and> de_outcome d \<noteq> DecisionAbort)
      then InvalidArgument ''prepared decision'' ''invalid decision''
      else EncodePreparedRecord kPreparedDecisionRecord
             (AppendU64 (de_txn_id d) @ [decision_byte (de_outcome d)] @
              AppendU32 (of_nat (length (de_certificate d))) @ de_certificate d))"

definition DecodePreparedDecision :: "bytes \<Rightarrow> store_prepared_decision status_or" where
  "DecodePreparedDecision encoded =
     sbind (DecodePreparedRecord kPreparedDecisionRecord encoded) (\<lambda>payload.
     let truncated = Corruption ''prepared decision'' ''truncated decision'';
         bad = Corruption ''prepared decision'' ''invalid decision'' in
     rbind (ReadU64 payload 0) truncated (\<lambda>t off.
     if off = length payload then truncated
     else
      let outcome = decision_of (payload ! off) in
      rbind (ReadU32 payload (off + 1)) bad (\<lambda>size off.
      if size = 0 \<or> unat size \<noteq> length payload - off \<or> t = 0 \<or>
         (outcome \<noteq> DecisionCommit \<and> outcome \<noteq> DecisionAbort)
      then bad
      else Inr \<lparr>de_txn_id = t, de_outcome = outcome,
                de_certificate = take (unat size) (drop off payload)\<rparr>)))"

section \<open>Round trip of the items\<close>

text \<open>
  The contract of one item: read where it was appended, it is returned and the offset
  moves past it. Counted sections inherit it.
\<close>

locale item_codec =
  fixes valid :: "'a \<Rightarrow> bool"
    and enc :: "'a \<Rightarrow> bytes"
    and read :: "'a item_reader"
  assumes read_at: "valid x \<Longrightarrow>
      read (pre @ enc x @ post) (length pre) = Inr (x, length pre + length (enc x))"
    and enc_not_Nil: "valid x \<Longrightarrow> enc x \<noteq> []"
begin

lemma read_items_at:
  "\<forall>x \<in> set xs. valid x \<Longrightarrow>
   read_items read (pre @ concat (map enc xs) @ post) (length xs) (length pre)
     = Inr (xs, length pre + length (concat (map enc xs)))"
proof (induction xs arbitrary: pre)
  case (Cons x xs)
  with Cons.IH [of "pre @ enc x"] read_at [of x pre "concat (map enc xs) @ post"] show ?case
    by (simp add: add.assoc)
qed simp

lemma length_items: "\<forall>x \<in> set xs. valid x \<Longrightarrow> length xs \<le> length (concat (map enc xs))"
proof (induction xs)
  case (Cons x xs)
  then have a: "1 \<le> length (enc x)"
    using enc_not_Nil [of x] by (cases "enc x") auto
  from Cons have "length xs \<le> length (concat (map enc xs))" by simp
  from add_mono [OF a this] show ?case by simp
qed simp

end

lemma length_AppendRef [simp]: "length (AppendRef r) = 15"
  by (simp add: AppendRef_def)

lemma ReadRef_skip [codec_simps]:
  "length xs \<le> off \<Longrightarrow> ReadRef (xs @ s) off
     = map_option (\<lambda>(v, o'). (v, o' + length xs)) (ReadRef s (off - length xs))"
proof -
  assume "length xs \<le> off"
  then obtain k where "off = length xs + k" by (auto simp: le_iff_add)
  then show ?thesis
    by (auto simp: ReadRef_def Read_skip nth_append Let_def split: option.split)
qed

lemma ReadRef_here [codec_simps]:
  assumes "FactRef_Validate r = OK"
  shows "ReadRef (AppendRef r @ s) 0 = Some (r, 15)"
proof -
  have "IsKnownFamily (ref_family r)"
    using assms by (simp add: FactRef_Validate_OK_iff)
  with assms show ?thesis
    by (cases r) (simp add: ReadRef_def AppendRef_def codec_simps nth_append)
qed

lemma ReadOptionalTime_skip [codec_simps]:
  "length xs \<le> off \<Longrightarrow> ReadOptionalTime (xs @ s) off
     = map_option (\<lambda>(v, o'). (v, o' + length xs)) (ReadOptionalTime s (off - length xs))"
proof -
  assume "length xs \<le> off"
  then obtain k where "off = length xs + k" by (auto simp: le_iff_add)
  then show ?thesis
    by (cases "ReadU64 s (k + 1)") (auto simp: ReadOptionalTime_def Read_skip nth_append Let_def)
qed

lemma ReadOptionalTime_here [codec_simps]:
  "ReadOptionalTime (AppendOptionalTime t @ s) 0 = Some (t, length (AppendOptionalTime t))"
  "ReadOptionalTime (AppendOptionalTime t) 0 = Some (t, length (AppendOptionalTime t))"
  by (auto simp: ReadOptionalTime_def AppendOptionalTime_def codec_simps Let_def split: option.split)

interpretation identity_item: item_codec "\<lambda>_. True" AppendIdentity ReadIdentity
proof
  fix i :: edge_identity and pre post
  show "ReadIdentity (pre @ AppendIdentity i @ post) (length pre)
      = Inr (i, length pre + length (AppendIdentity i))"
    by (cases i) (simp add: ReadIdentity_def AppendIdentity_def codec_simps EdgeIdentity_init_def)
qed (simp add: AppendIdentity_def AppendU32_def)

interpretation snapshot_item: item_codec "\<lambda>d. FactRef_Validate (sw_ref d) = OK"
  AppendSnapshotDep ReadSnapshotDep
proof
  fix d :: snapshot_write_dependency and pre post
  assume "FactRef_Validate (sw_ref d) = OK"
  then show "ReadSnapshotDep (pre @ AppendSnapshotDep d @ post) (length pre)
      = Inr (d, length pre + length (AppendSnapshotDep d))"
    by (cases d) (simp add: ReadSnapshotDep_def AppendSnapshotDep_def codec_simps)
qed (simp add: AppendSnapshotDep_def AppendRef_def)

text \<open>A fact key followed by the length and the bytes of its value record.\<close>

definition event_item :: "fact_event \<Rightarrow> bytes" where
  "event_item e =
     key_layout (ev_ref e) (ev_valid_from e) (ev_commit_seq e) @
     AppendU32 (of_nat (length (event_record e))) @ event_record e"

lemma event_record_length:
  "storable e \<Longrightarrow> unat (of_nat (length (event_record e)) :: u32) = length (event_record e)"
  by (rule unat_of_nat_small)
    (simp add: storable_def event_record_def value_body_def kMaxFactValuePayloadBytes_def)

lemma storable_key:
  "storable e \<Longrightarrow> FactRef_Validate (ev_ref e) = OK \<and> ev_commit_seq e \<noteq> 0"
  by (simp add: storable_def FactEvent_Validate_ref FactEvent_Validate_seq)

lemma DecodeFactValue_record:
  "storable e \<Longrightarrow>
     DecodeFactValue (ev_ref e) (ev_valid_from e) (ev_commit_seq e) (event_record e) = Inr e"
  by (simp add: DecodeFactValue_iff)

definition mutation_item :: "pending_mutation \<Rightarrow> bytes" where
  "mutation_item m = event_item (event_of_mutation 1 m)"

definition mutation_storable :: "pending_mutation \<Rightarrow> bool" where
  "mutation_storable m \<longleftrightarrow> storable (event_of_mutation 1 m)"

lemma AppendMutation_iff:
  "AppendMutation m = Inr s \<longleftrightarrow> mutation_storable m \<and> s = mutation_item m"
proof (cases "storable (event_of_mutation 1 m)")
  case True
  then have "FactRef_Validate (mu_ref m) = OK"
    using storable_key [OF True] by (simp add: event_of_mutation_def)
  with True show ?thesis
    by (auto simp: AppendMutation_def mutation_storable_def mutation_item_def event_item_def Let_def
        EncodeFactKey_layout sbind_Inr_iff EncodeFactValue_iff key_layout_def event_of_mutation_def)
next
  case False
  then show ?thesis
    by (auto simp: AppendMutation_def mutation_storable_def Let_def sbind_Inr_iff EncodeFactValue_iff
        split: if_splits)
qed

interpretation mutation_codec: item_codec mutation_storable mutation_item ReadMutation
proof
  fix m :: pending_mutation and pre post
  assume m: "mutation_storable m"
  let ?e = "event_of_mutation 1 m"
  have st: "storable ?e" using m by (simp add: mutation_storable_def)
  have e: "ev_ref ?e = mu_ref m" "ev_valid_from ?e = mu_valid_from m" "ev_commit_seq ?e = 1"
    by (simp_all add: event_of_mutation_def)
  have key: "FactRef_Validate (mu_ref m) = OK"
    using storable_key [OF st] e by simp
  have lk: "length (key_layout (mu_ref m) (mu_valid_from m) 1) = 32"
    by (simp add: kEncodedFactKeyBytes_def)
  have m_eq: "\<lparr>mu_ref = ev_ref ?e, mu_valid_from = ev_valid_from ?e, mu_operation = ev_operation ?e,
      mu_schema_epoch = ev_schema_epoch ?e, mu_value = ev_value ?e\<rparr> = m"
    by (cases m) (simp add: event_of_mutation_def)
  show "ReadMutation (pre @ mutation_item m @ post) (length pre)
      = Inr (m, length pre + length (mutation_item m))"
    using DecodeFactValue_record [OF st] event_record_length [OF st] m_eq
    by (simp add: ReadMutation_def mutation_item_def event_item_def e lk kEncodedFactKeyBytes_def
        DecodeFactKey_layout [OF key] codec_simps Let_def)
qed (simp add: mutation_item_def event_item_def key_layout_def)

definition observed_item :: "fact_event option \<Rightarrow> bytes" where
  "observed_item obs = (case obs of None \<Rightarrow> [0] | Some e \<Rightarrow> 1 # event_item e)"

definition observed_storable :: "fact_event option \<Rightarrow> bool" where
  "observed_storable obs \<longleftrightarrow> (case obs of None \<Rightarrow> True | Some e \<Rightarrow> storable e)"

interpretation observed_codec: item_codec observed_storable observed_item ReadObserved
proof
  fix obs :: "fact_event option" and pre post
  assume o: "observed_storable obs"
  show "ReadObserved (pre @ observed_item obs @ post) (length pre)
      = Inr (obs, length pre + length (observed_item obs))"
  proof (cases obs)
    case None
    then show ?thesis
      by (simp add: ReadObserved_def observed_item_def)
  next
    case (Some e)
    with o have st: "storable e" by (simp add: observed_storable_def)
    note key = storable_key [OF st]
    have lk: "length (key_layout (ev_ref e) (ev_valid_from e) (ev_commit_seq e)) = 32"
      by (simp add: kEncodedFactKeyBytes_def)
    from Some show ?thesis
      using DecodeFactValue_record [OF st] event_record_length [OF st] key
      by (simp add: ReadObserved_def observed_item_def event_item_def lk kEncodedFactKeyBytes_def
          DecodeFactKey_layout codec_simps Let_def)
  qed
qed (auto simp: observed_item_def split: option.splits)

definition strict_item :: "strict_read_dependency \<Rightarrow> bytes" where
  "strict_item d =
     AppendRef (st_ref d) @ AppendU64 (st_valid_time d) @ AppendU64 (st_snapshot_seq d) @
     observed_item (st_observed d) @ AppendOptionalTime (st_predecessor d) @
     AppendOptionalTime (st_successor d)"

definition strict_storable :: "strict_read_dependency \<Rightarrow> bool" where
  "strict_storable d \<longleftrightarrow> FactRef_Validate (st_ref d) = OK \<and> observed_storable (st_observed d)"

lemma AppendStrictDep_iff:
  "AppendStrictDep d = Inr s \<longleftrightarrow> observed_storable (st_observed d) \<and> s = strict_item d"
proof (cases "st_observed d")
  case None
  then show ?thesis
    by (auto simp: AppendStrictDep_def observed_storable_def strict_item_def observed_item_def)
next
  case (Some e)
  show ?thesis
  proof (cases "storable e")
    case True
    then have "EncodeFactValue e = Inr (event_record e)"
      by (simp add: EncodeFactValue_iff)
    with Some True storable_key [OF True] show ?thesis
      by (auto simp: AppendStrictDep_def observed_storable_def strict_item_def observed_item_def
          event_item_def EncodeFactKey_layout key_layout_def Let_def)
  next
    case False
    then have "\<not> ok (EncodeFactValue e)"
      by (cases "EncodeFactValue e") (auto simp: EncodeFactValue_iff)
    with Some False show ?thesis
      by (auto simp: AppendStrictDep_def observed_storable_def Let_def not_ok_iff)
  qed
qed

interpretation strict_codec: item_codec strict_storable strict_item ReadStrictDep
proof
  fix d :: strict_read_dependency and pre post
  assume d: "strict_storable d"
  then show "ReadStrictDep (pre @ strict_item d @ post) (length pre)
      = Inr (d, length pre + length (strict_item d))"
    using observed_codec.read_at [of "st_observed d"
        "pre @ AppendRef (st_ref d) @ AppendU64 (st_valid_time d) @ AppendU64 (st_snapshot_seq d)"
        "AppendOptionalTime (st_predecessor d) @ AppendOptionalTime (st_successor d) @ post"]
    by (cases d) (simp add: ReadStrictDep_def strict_item_def strict_storable_def codec_simps
        observed_codec.enc_not_Nil add.assoc add.commute add.left_commute Let_def)
qed (simp add: strict_item_def AppendRef_def)

section \<open>Round trip of the batch\<close>

lemma append_all_iff:
  assumes "\<And>x s. enc x = Inr s \<longleftrightarrow> valid x \<and> s = item x"
  shows "append_all enc xs = Inr s \<longleftrightarrow> (\<forall>x \<in> set xs. valid x) \<and> s = concat (map item xs)"
  by (induction xs arbitrary: s) (auto simp: assms sbind_Inr_iff)

definition batch_payload :: "store_commit_batch \<Rightarrow> bytes" where
  "batch_payload b =
     AppendU64 (cb_txn_id b) @ AppendU64 (cb_system_hlc b) @
     AppendU32 (of_nat (length (cb_mutations b))) @ concat (map mutation_item (cb_mutations b)) @
     AppendU32 (of_nat (length (cb_edge_identities b))) @
     concat (map AppendIdentity (cb_edge_identities b)) @
     AppendU32 (of_nat (length (cb_snapshot_deps b))) @
     concat (map AppendSnapshotDep (cb_snapshot_deps b)) @
     AppendU32 (of_nat (length (cb_strict_deps b))) @ concat (map strict_item (cb_strict_deps b))"

definition batch_storable :: "store_commit_batch \<Rightarrow> bool" where
  "batch_storable b \<longleftrightarrow>
     StoreCommitBatch_Validate b = OK \<and>
     (\<forall>m \<in> set (cb_mutations b). mutation_storable m) \<and>
     (\<forall>d \<in> set (cb_strict_deps b). observed_storable (st_observed d)) \<and>
     length (batch_payload b) \<le> kMaxPayloadBytes"

lemma EncodePreparedCommit_iff:
  "EncodePreparedCommit b = Inr s \<longleftrightarrow> batch_storable b \<and> s = frame kPreparedRecord (batch_payload b)"
  by (auto simp: EncodePreparedCommit_def batch_storable_def batch_payload_def sbind_Inr_iff
      append_all_iff [OF AppendMutation_iff] append_all_iff [OF AppendStrictDep_iff]
      EncodePreparedRecord_def EncodeFramed_iff)

lemma batch_deps_valid:
  assumes "StoreCommitBatch_Validate b = OK"
  shows "\<forall>d \<in> set (cb_snapshot_deps b). FactRef_Validate (sw_ref d) = OK"
    "\<forall>d \<in> set (cb_strict_deps b). FactRef_Validate (st_ref d) = OK"
  using assms unfolding batch_ok_iff batch_ok_def
  by (auto simp: snapshot_dep_valid_ref strict_dep_valid_ref)

lemma batch_validate_fresh:
  "StoreCommitBatch_Validate (b\<lparr>cb_fresh := f\<rparr>) = StoreCommitBatch_Validate b"
  by (simp add: StoreCommitBatch_Validate_def)

lemma batch_counts:
  assumes "batch_storable b"
  shows "unat (of_nat (length (cb_mutations b)) :: u32) = length (cb_mutations b)"
    "unat (of_nat (length (cb_edge_identities b)) :: u32) = length (cb_edge_identities b)"
    "unat (of_nat (length (cb_snapshot_deps b)) :: u32) = length (cb_snapshot_deps b)"
    "unat (of_nat (length (cb_strict_deps b)) :: u32) = length (cb_strict_deps b)"
proof -
  have v: "\<forall>d \<in> set (cb_snapshot_deps b). FactRef_Validate (sw_ref d) = OK"
    "\<forall>d \<in> set (cb_strict_deps b). strict_storable d"
    using assms batch_deps_valid [of b] by (auto simp: batch_storable_def strict_storable_def)
  have "length (batch_payload b) < 4294967296"
    using assms by (simp add: batch_storable_def kMaxPayloadBytes_def)
  moreover have "length (cb_mutations b) \<le> length (batch_payload b)"
    using mutation_codec.length_items [of "cb_mutations b"] assms
    by (simp add: batch_storable_def batch_payload_def)
  moreover have "length (cb_edge_identities b) \<le> length (batch_payload b)"
    using identity_item.length_items [of "cb_edge_identities b"] by (simp add: batch_payload_def)
  moreover have "length (cb_snapshot_deps b) \<le> length (batch_payload b)"
    using snapshot_item.length_items [OF v(1)] by (simp add: batch_payload_def)
  moreover have "length (cb_strict_deps b) \<le> length (batch_payload b)"
    using strict_codec.length_items [OF v(2)] by (simp add: batch_payload_def)
  ultimately show "unat (of_nat (length (cb_mutations b)) :: u32) = length (cb_mutations b)"
    "unat (of_nat (length (cb_edge_identities b)) :: u32) = length (cb_edge_identities b)"
    "unat (of_nat (length (cb_snapshot_deps b)) :: u32) = length (cb_snapshot_deps b)"
    "unat (of_nat (length (cb_strict_deps b)) :: u32) = length (cb_strict_deps b)"
    by (simp_all add: unat_of_nat_small)
qed

lemma DecodePreparedCommit_payload:
  assumes b: "batch_storable b"
  shows "DecodePreparedCommit (frame kPreparedRecord (batch_payload b)) = Inr (b\<lparr>cb_fresh := False\<rparr>)"
proof -
  let ?nm = "AppendU32 (of_nat (length (cb_mutations b)))"
  let ?ni = "AppendU32 (of_nat (length (cb_edge_identities b)))"
  let ?ns = "AppendU32 (of_nat (length (cb_snapshot_deps b)))"
  let ?nt = "AppendU32 (of_nat (length (cb_strict_deps b)))"
  let ?h = "AppendU64 (cb_txn_id b) @ AppendU64 (cb_system_hlc b)"
  define M I S T where "M = concat (map mutation_item (cb_mutations b))"
    and "I = concat (map AppendIdentity (cb_edge_identities b))"
    and "S = concat (map AppendSnapshotDep (cb_snapshot_deps b))"
    and "T = concat (map strict_item (cb_strict_deps b))"
  note sec = M_def [symmetric] I_def [symmetric] S_def [symmetric] T_def [symmetric]
  have valid: "StoreCommitBatch_Validate b = OK" "\<forall>m \<in> set (cb_mutations b). mutation_storable m"
    "\<forall>d \<in> set (cb_snapshot_deps b). FactRef_Validate (sw_ref d) = OK"
    "\<forall>d \<in> set (cb_strict_deps b). strict_storable d"
    using b batch_deps_valid [of b] by (auto simp: batch_storable_def strict_storable_def)
  define p where "p = batch_payload b"
  have p: "p = ?h @ ?nm @ M @ ?ni @ I @ ?ns @ S @ ?nt @ T"
    by (simp add: p_def batch_payload_def sec)
  have heads: "ReadU64 p 0 = Some (cb_txn_id b, 8)" "ReadU64 p 8 = Some (cb_system_hlc b, 16)"
    "ReadU32 p 16 = Some (of_nat (length (cb_mutations b)), 20)"
    "ReadU32 p (20 + length M) = Some (of_nat (length (cb_edge_identities b)), 24 + length M)"
    "ReadU32 p (24 + length M + length I)
       = Some (of_nat (length (cb_snapshot_deps b)), 28 + length M + length I)"
    "ReadU32 p (28 + length M + length I + length S)
       = Some (of_nat (length (cb_strict_deps b)), 32 + length M + length I + length S)"
    unfolding p by (simp_all add: codec_simps)
  have m: "read_items ReadMutation p (length (cb_mutations b)) 20 = Inr (cb_mutations b, 20 + length M)"
    using mutation_codec.read_items_at [OF valid(2), of "?h @ ?nm" "?ni @ I @ ?ns @ S @ ?nt @ T"]
    by (simp add: p sec)
  have i: "read_items ReadIdentity p (length (cb_edge_identities b)) (24 + length M)
      = Inr (cb_edge_identities b, 24 + length M + length I)"
    using identity_item.read_items_at [of "cb_edge_identities b" "?h @ ?nm @ M @ ?ni" "?ns @ S @ ?nt @ T"]
    by (simp add: p sec add.commute add.left_commute)
  have sd: "read_items ReadSnapshotDep p (length (cb_snapshot_deps b)) (28 + length M + length I)
      = Inr (cb_snapshot_deps b, 28 + length M + length I + length S)"
    using snapshot_item.read_items_at [OF valid(3), of "?h @ ?nm @ M @ ?ni @ I @ ?ns" "?nt @ T"]
    by (simp add: p sec add.commute add.left_commute)
  have t: "read_items ReadStrictDep p (length (cb_strict_deps b)) (32 + length M + length I + length S)
      = Inr (cb_strict_deps b, length p)"
    using strict_codec.read_items_at [OF valid(4), of "?h @ ?nm @ M @ ?ni @ I @ ?ns @ S @ ?nt" "[]"]
    by (simp add: p sec add.commute add.left_commute)
  have "DecodePreparedRecord kPreparedRecord (frame kPreparedRecord p) = Inr p"
    using b by (simp add: DecodePreparedRecord_def DecodeFramed_frame batch_storable_def p_def)
  moreover have fresh: "\<lparr>cb_txn_id = cb_txn_id b, cb_system_hlc = cb_system_hlc b,
      cb_mutations = cb_mutations b, cb_edge_identities = cb_edge_identities b,
      cb_snapshot_deps = cb_snapshot_deps b, cb_strict_deps = cb_strict_deps b, cb_fresh = False\<rparr>
      = b\<lparr>cb_fresh := False\<rparr>"
    by (cases b) simp
  ultimately show ?thesis
    using batch_counts [OF b] valid(1)
    by (simp add: DecodePreparedCommit_def p_def [symmetric] heads m i sd t Let_def fresh
        batch_validate_fresh)
qed

section \<open>Terminals and decisions\<close>

interpretation abort_record: record_codec kAbortedRecord "\<lambda>t. t \<noteq> 0" AppendU64
  EncodeAsyncAbortTerminal DecodeAsyncAbortTerminal
proof
  fix t :: txn_id and s
  show "EncodeAsyncAbortTerminal t = Inr s \<longleftrightarrow>
      t \<noteq> 0 \<and> length (AppendU64 t) \<le> kMaxPayloadBytes \<and> s = frame kAbortedRecord (AppendU64 t)"
    by (auto simp: EncodeAsyncAbortTerminal_def EncodePreparedRecord_def EncodeFramed_iff)
  show "DecodeAsyncAbortTerminal s = Inr t \<longleftrightarrow>
      t \<noteq> 0 \<and> length (AppendU64 t) \<le> kMaxPayloadBytes \<and> s = frame kAbortedRecord (AppendU64 t)"
    using Read_all_iff(2)
    by (auto simp: DecodeAsyncAbortTerminal_def DecodePreparedRecord_def DecodeFramed_iff Let_def
        sbind_Inr_iff rbind_Inr_iff intro!: exI [of _ "AppendU64 t"])
qed

definition decision_payload :: "store_prepared_decision \<Rightarrow> bytes" where
  "decision_payload d =
     AppendU64 (de_txn_id d) @ [decision_byte (de_outcome d)] @
     AppendU32 (of_nat (length (de_certificate d))) @ de_certificate d"

definition decision_ok :: "store_prepared_decision \<Rightarrow> bool" where
  "decision_ok d \<longleftrightarrow>
     de_txn_id d \<noteq> 0 \<and> de_certificate d \<noteq> [] \<and>
     (de_outcome d = DecisionCommit \<or> de_outcome d = DecisionAbort)"

lemma DecodePreparedDecision_Inr:
  assumes "DecodePreparedDecision s = Inr d"
  shows "decision_ok d \<and> DecodePreparedRecord kPreparedDecisionRecord s = Inr (decision_payload d)"
proof -
  from assms obtain p t n o1 o2 where
    p: "DecodePreparedRecord kPreparedDecisionRecord s = Inr p"
    and r: "ReadU64 p 0 = Some (t, o1)" "o1 \<noteq> length p" "ReadU32 p (o1 + 1) = Some (n, o2)"
    and v: "n \<noteq> 0" "unat n = length p - o2" "t \<noteq> 0"
      "decision_of (p ! o1) = DecisionCommit \<or> decision_of (p ! o1) = DecisionAbort"
    and d: "d = \<lparr>de_txn_id = t, de_outcome = decision_of (p ! o1),
                 de_certificate = take (unat n) (drop o2 p)\<rparr>"
    by (auto simp: DecodePreparedDecision_def Let_def sbind_Inr_iff rbind_Inr_iff split: if_splits)
  have c: "de_certificate d = drop o2 p" "of_nat (length p - o2) = n"
    using v(2) by (simp_all add: d flip: v(2))
  have "o1 < length p"
    using Read_bounds(3) [OF r(1)] r(2) by simp
  then have "p = decision_payload d"
    using Read_drop(3) [OF r(1)] nth_drop [of o1 p] Read_drop(2) [OF r(3)] c v(4)
    by (auto simp: decision_payload_def d decision_of_def split: if_splits)
  moreover have "drop o2 p \<noteq> []"
    using v(1,2) by (auto simp: unat_eq_0)
  ultimately show ?thesis
    using p v c(1) by (simp add: decision_ok_def d)
qed

lemma DecodePreparedDecision_payload:
  assumes "decision_ok d" "DecodePreparedRecord kPreparedDecisionRecord s = Inr (decision_payload d)"
  shows "DecodePreparedDecision s = Inr d"
proof -
  have "length (decision_payload d) \<le> kMaxPayloadBytes"
    using assms(2) by (simp add: DecodePreparedRecord_def DecodeFramed_iff)
  then have n: "unat (of_nat (length (de_certificate d)) :: u32) = length (de_certificate d)"
    by (intro unat_of_nat_small) (simp add: decision_payload_def kMaxPayloadBytes_def)
  then have "(of_nat (length (de_certificate d)) :: u32) \<noteq> 0"
    using assms(1) by (auto simp: decision_ok_def)
  then show ?thesis
    using assms n by (cases d) (auto simp: DecodePreparedDecision_def decision_payload_def codec_simps
        decision_ok_def decision_of_def nth_append)
qed

interpretation decision_record: record_codec kPreparedDecisionRecord decision_ok decision_payload
  EncodePreparedDecision DecodePreparedDecision
proof
  fix d s
  show "EncodePreparedDecision d = Inr s \<longleftrightarrow> decision_ok d \<and>
      length (decision_payload d) \<le> kMaxPayloadBytes \<and>
      s = frame kPreparedDecisionRecord (decision_payload d)"
    by (auto simp: EncodePreparedDecision_def EncodePreparedRecord_def EncodeFramed_iff decision_ok_def
        decision_payload_def kMaxPayloadBytes_def)
  show "DecodePreparedDecision s = Inr d \<longleftrightarrow> decision_ok d \<and>
      length (decision_payload d) \<le> kMaxPayloadBytes \<and>
      s = frame kPreparedDecisionRecord (decision_payload d)"
    using DecodePreparedDecision_Inr [of s d] DecodePreparedDecision_payload [of d s]
    by (auto simp: DecodePreparedRecord_def DecodeFramed_iff)
qed

section \<open>Properties\<close>

text \<open>
  C35: a prepared batch survives its durable form: whatever \<^verbatim>\<open>EncodePreparedCommit\<close> writes for a
  batch, \<^verbatim>\<open>DecodePreparedCommit\<close> reads back as the same batch, with the in-memory marker of a
  freshly leased transaction ID cleared.
\<close>

theorem prepared_commit_round_trip:
  assumes "EncodePreparedCommit b = Inr s"
  shows "DecodePreparedCommit s = Inr (b\<lparr>cb_fresh := False\<rparr>)"
  using assms DecodePreparedCommit_payload [of b] by (simp add: EncodePreparedCommit_iff)

definition sample_batch :: store_commit_batch where
  "sample_batch =
     \<lparr>cb_txn_id = 9, cb_system_hlc = 100,
      cb_mutations = [\<lparr>mu_ref = EntityFact_Vertex \<lparr>vr_part = 1, vr_vertex = 7\<rparr>,
        mu_valid_from = 10, mu_operation = kPut, mu_schema_epoch = 0, mu_value = None\<rparr>],
      cb_edge_identities = [], cb_snapshot_deps = [], cb_strict_deps = [], cb_fresh = True\<rparr>"

lemma sample_batch_storable: "batch_storable sample_batch"
proof -
  have r: "FactRef_Validate (EntityFact_Vertex \<lparr>vr_part = 1, vr_vertex = 7\<rparr>) = OK"
    by (rule EntityFact_valid) simp
  have m: "PendingFactMutation_Validate (hd (cb_mutations sample_batch)) = OK"
    using r by (simp add: sample_batch_def PendingFactMutation_Validate_def ValidateMutation_OK_iff
        ValidateMutation_def IsKnownOperation_def IsProperty_def IsStateFamily_def EntityFact_Vertex_def)
  then have st: "mutation_storable (hd (cb_mutations sample_batch))"
    by (simp add: mutation_storable_def storable_def event_of_mutation_valid)
      (simp add: event_of_mutation_def event_payload_def sample_batch_def)
  have "StoreCommitBatch_Validate sample_batch = OK"
    using m by (simp add: batch_ok_iff batch_ok_def) (simp add: sample_batch_def)
  moreover have "length (batch_payload sample_batch) \<le> kMaxPayloadBytes"
    by (simp add: sample_batch_def batch_payload_def mutation_item_def event_item_def event_record_def
        value_body_def event_payload_def event_of_mutation_def kEncodedFactKeyBytes_def kMaxPayloadBytes_def)
  ultimately show ?thesis
    using st by (simp add: batch_storable_def) (simp add: sample_batch_def)
qed

theorem prepared_commit_round_trip_witness:
  "DecodePreparedCommit (frame kPreparedRecord (batch_payload sample_batch))
     = Inr (sample_batch\<lparr>cb_fresh := False\<rparr>)"
  by (rule prepared_commit_round_trip)
    (simp add: EncodePreparedCommit_iff sample_batch_storable)

text \<open>
  Abort terminals and external decisions are read back exactly as written, and nothing
  else is accepted as one: a zero transaction, an empty certificate, an unknown outcome or a
  record of another kind never decodes.
\<close>

theorem async_records_bijective:
  "(DecodeAsyncAbortTerminal s = Inr t \<longleftrightarrow> EncodeAsyncAbortTerminal t = Inr s) \<and>
   (DecodePreparedDecision s = Inr d \<longleftrightarrow> EncodePreparedDecision d = Inr s)"
  by (intro conjI abort_record.decode_encode decision_record.decode_encode)

end
