(* ===== verification/Intervals.thy ===== *)
theory Intervals
  imports Values Facts
begin

text \<open>
  \<^verbatim>\<open>src/src/query/temporal/interval.cc\<close> and the interval type of
  \<^verbatim>\<open>src/include/cedar/query/types.h\<close>: half-open valid-time intervals with an optional end,
  their intersection, and the coalescing of adjacent intervals of equal state. An interval
  means the set of times it contains; the operations are shown correct for that meaning.
\<close>

section \<open>Data\<close>

record valid_time_interval =
  vi_from :: valid_time
  vi_to :: "valid_time option"

record state_interval =
  iv_interval :: valid_time_interval
  iv_value :: "val option"

definition ValidTimeInterval_Validate :: "valid_time_interval \<Rightarrow> status" where
  "ValidTimeInterval_Validate i =
     (if (case vi_to i of None \<Rightarrow> False | Some t \<Rightarrow> vi_from i \<ge> t)
      then InvalidArgument ''valid time interval must satisfy from < to'' ''''
      else OK)"

text \<open>Equality of \<^verbatim>\<open>std::optional<Value>\<close>.\<close>

definition opt_val_eq :: "val option \<Rightarrow> val option \<Rightarrow> bool" where
  "opt_val_eq a b = (case (a, b) of (None, None) \<Rightarrow> True | (Some v, Some w) \<Rightarrow> val_eq v w | _ \<Rightarrow> False)"

section \<open>Operations\<close>

definition EarlierEnd :: "valid_time option \<Rightarrow> valid_time option \<Rightarrow> valid_time option" where
  "EarlierEnd left right =
     (case left of None \<Rightarrow> right
      | Some l \<Rightarrow> (case right of None \<Rightarrow> left | Some r \<Rightarrow> if l < r then left else right))"

definition EndsAt :: "state_interval \<Rightarrow> state_interval \<Rightarrow> bool" where
  "EndsAt left right \<longleftrightarrow> vi_to (iv_interval left) = Some (vi_from (iv_interval right))"

definition Intersect :: "valid_time_interval \<Rightarrow> valid_time_interval \<Rightarrow> valid_time_interval option" where
  "Intersect left right =
     (let from = (if vi_from left < vi_from right then vi_from right else vi_from left);
          to = EarlierEnd (vi_to left) (vi_to right)
      in if (case to of None \<Rightarrow> False | Some t \<Rightarrow> \<not> from < t) then None
         else Some \<lparr>vi_from = from, vi_to = to\<rparr>)"

definition Clip :: "valid_time_interval \<Rightarrow> valid_time_interval \<Rightarrow> valid_time_interval option" where
  "Clip interval bounds = Intersect interval bounds"

definition extend_to :: "state_interval \<Rightarrow> valid_time option \<Rightarrow> state_interval" where
  "extend_to s to = s\<lparr>iv_interval := (iv_interval s)\<lparr>vi_to := to\<rparr>\<rparr>"

text \<open>One iteration of the loop of \<^verbatim>\<open>Coalesce\<close>: extend the last interval or append.\<close>

definition coalesce_push :: "state_interval list \<Rightarrow> state_interval \<Rightarrow> state_interval list" where
  "coalesce_push result interval =
     (if result \<noteq> [] \<and> opt_val_eq (iv_value (last result)) (iv_value interval) \<and>
         EndsAt (last result) interval
      then butlast result @ [extend_to (last result) (vi_to (iv_interval interval))]
      else result @ [interval])"

definition Coalesce :: "state_interval list \<Rightarrow> state_interval list" where
  "Coalesce intervals = (if intervals = [] then intervals else foldl coalesce_push [] intervals)"

section \<open>The meaning of intervals\<close>

definition within :: "valid_time \<Rightarrow> valid_time_interval \<Rightarrow> bool" where
  "within t i \<longleftrightarrow> vi_from i \<le> t \<and> (case vi_to i of None \<Rightarrow> True | Some e \<Rightarrow> t < e)"

lemma ValidTimeInterval_Validate_iff:
  "ValidTimeInterval_Validate i = OK \<longleftrightarrow> (case vi_to i of None \<Rightarrow> True | Some t \<Rightarrow> vi_from i < t)"
  by (auto simp: ValidTimeInterval_Validate_def split: option.splits)

lemma valid_interval_nonempty: "ValidTimeInterval_Validate i = OK \<longleftrightarrow> (\<exists>t. within t i)"
proof
  assume "ValidTimeInterval_Validate i = OK"
  then have "within (vi_from i) i"
    by (simp add: ValidTimeInterval_Validate_iff within_def split: option.splits)
  then show "\<exists>t. within t i" ..
next
  assume "\<exists>t. within t i"
  then show "ValidTimeInterval_Validate i = OK"
    by (auto simp: ValidTimeInterval_Validate_iff within_def split: option.splits)
qed

lemma opt_val_eq_trans: "opt_val_eq a b \<Longrightarrow> opt_val_eq b c \<Longrightarrow> opt_val_eq a c"
  by (cases a; cases b; cases c) (simp_all add: opt_val_eq_def val_eq_trans [of _ "the b"])

lemma Intersect_Some:
  "Intersect a b = Some c \<Longrightarrow> ValidTimeInterval_Validate c = OK \<and> (within t c \<longleftrightarrow> within t a \<and> within t b)"
  by (auto simp: Intersect_def EarlierEnd_def within_def ValidTimeInterval_Validate_iff Let_def
      split: option.splits if_splits)

lemma Intersect_None: "Intersect a b = None \<Longrightarrow> \<not> (within t a \<and> within t b)"
  by (auto simp: Intersect_def EarlierEnd_def within_def Let_def
      split: option.splits if_splits)

section \<open>Coalescing\<close>

text \<open>The same computation, with the interval being extended as an argument.\<close>

fun merge_from :: "state_interval \<Rightarrow> state_interval list \<Rightarrow> state_interval list" where
  "merge_from c [] = [c]"
| "merge_from c (i # is) =
     (if opt_val_eq (iv_value c) (iv_value i) \<and> EndsAt c i
      then merge_from (extend_to c (vi_to (iv_interval i))) is
      else c # merge_from i is)"

lemma foldl_coalesce: "foldl coalesce_push (r @ [c]) is = r @ merge_from c is"
  by (induction "is" arbitrary: r c) (auto simp: coalesce_push_def simp flip: append_assoc)

lemma Coalesce_Cons: "Coalesce (i # is) = merge_from i is"
  using foldl_coalesce [of "[]" i "is"] by (simp add: Coalesce_def coalesce_push_def)

lemma Coalesce_Nil [simp]: "Coalesce [] = []"
  by (simp add: Coalesce_def)

text \<open>
  A list is chained when every interval is non-empty and ends no later than the next
  begins; only the last may be open.
\<close>

fun chained :: "state_interval list \<Rightarrow> bool" where
  "chained [] = True"
| "chained [i] = (ValidTimeInterval_Validate (iv_interval i) = OK)"
| "chained (i # j # is) =
     (ValidTimeInterval_Validate (iv_interval i) = OK \<and>
      (\<exists>t. vi_to (iv_interval i) = Some t \<and> t \<le> vi_from (iv_interval j)) \<and> chained (j # is))"

definition fully_merged :: "state_interval list \<Rightarrow> bool" where
  "fully_merged is \<longleftrightarrow>
     successively (\<lambda>i j. \<not> (opt_val_eq (iv_value i) (iv_value j) \<and> EndsAt i j)) is"

lemma extend_to_simps [simp]:
  "vi_from (iv_interval (extend_to c t)) = vi_from (iv_interval c)"
  "vi_to (iv_interval (extend_to c t)) = t" "iv_value (extend_to c t) = iv_value c"
  by (simp_all add: extend_to_def)

text \<open>
  What an interval list says at a time: the states of the intervals that contain it. The
  states of merged intervals agree up to \<^verbatim>\<open>==\<close> of values.
\<close>

definition same_state :: "val option \<Rightarrow> val option \<Rightarrow> bool" where
  "same_state a b \<longleftrightarrow> a = b \<or> opt_val_eq a b"

definition says :: "state_interval list \<Rightarrow> valid_time \<Rightarrow> val option \<Rightarrow> bool" where
  "says is t v \<longleftrightarrow> (\<exists>i \<in> set is. within t (iv_interval i) \<and> iv_value i = v)"

lemma says_Cons: "says (i # is) t v \<longleftrightarrow> within t (iv_interval i) \<and> iv_value i = v \<or> says is t v"
  by (auto simp: says_def)

lemma says_Nil [simp]: "\<not> says [] t v"
  by (simp add: says_def)

lemma same_state_sym_trans: "same_state a b \<Longrightarrow> opt_val_eq b c \<Longrightarrow> same_state a c"
  unfolding same_state_def by (metis opt_val_eq_trans)

lemma same_state_trans: "opt_val_eq a b \<Longrightarrow> same_state b c \<Longrightarrow> same_state a c"
  unfolding same_state_def by (metis opt_val_eq_trans)

lemma chained_tail: "chained (i # is) \<Longrightarrow> chained is"
  by (cases "is") auto

lemma chained_extend:
  assumes "chained (c # i # is)" "EndsAt c i"
  shows "chained (extend_to c (vi_to (iv_interval i)) # is)"
proof -
  have ci: "ValidTimeInterval_Validate (iv_interval c) = OK"
    "vi_to (iv_interval c) = Some (vi_from (iv_interval i))"
    using assms by (auto simp: EndsAt_def)
  have "chained (i # is)" using assms(1) by simp
  then have "ValidTimeInterval_Validate (iv_interval i) = OK" by (cases "is") auto
  with ci have "ValidTimeInterval_Validate (iv_interval (extend_to c (vi_to (iv_interval i)))) = OK"
    by (auto simp: ValidTimeInterval_Validate_iff split: option.splits)
  with \<open>chained (i # is)\<close> show ?thesis by (cases "is") auto
qed

lemma hd_merge_from: "vi_from (iv_interval (hd (merge_from c is))) = vi_from (iv_interval c)"
  by (induction c "is" rule: merge_from.induct) auto

lemma merge_from_not_Nil [simp]: "merge_from c is \<noteq> []"
  by (induction c "is" rule: merge_from.induct) auto

lemma chained_Cons:
  "is \<noteq> [] \<Longrightarrow> chained (i # is) \<longleftrightarrow>
     ValidTimeInterval_Validate (iv_interval i) = OK \<and>
     (\<exists>t. vi_to (iv_interval i) = Some t \<and> t \<le> vi_from (iv_interval (hd is))) \<and> chained is"
  by (cases "is") auto

lemma chained_merge: "chained (c # is) \<Longrightarrow> chained (merge_from c is)"
proof (induction c "is" rule: merge_from.induct)
  case (2 c i "is")
  then show ?case
    by (cases "opt_val_eq (iv_value c) (iv_value i) \<and> EndsAt c i")
      (auto simp: chained_extend chained_Cons hd_merge_from)
qed simp

lemma hd_value_merge: "iv_value (hd (merge_from c is)) = iv_value c"
  by (induction c "is" rule: merge_from.induct) auto

lemma fully_merged_Cons:
  "is \<noteq> [] \<Longrightarrow> fully_merged (i # is) \<longleftrightarrow>
     \<not> (opt_val_eq (iv_value i) (iv_value (hd is)) \<and> EndsAt i (hd is)) \<and> fully_merged is"
  by (cases "is") (auto simp: fully_merged_def)

lemma fully_merged_merge: "fully_merged (merge_from c is)"
proof (induction c "is" rule: merge_from.induct)
  case (2 c i "is")
  then show ?case
    by (auto simp: fully_merged_Cons hd_value_merge hd_merge_from EndsAt_def)
qed (simp add: fully_merged_def)

lemma within_extend:
  assumes "chained (c # i # is)" "EndsAt c i"
  shows "within t (iv_interval (extend_to c (vi_to (iv_interval i)))) \<longleftrightarrow>
    within t (iv_interval c) \<or> within t (iv_interval i)"
proof -
  have "chained (i # is)" "ValidTimeInterval_Validate (iv_interval c) = OK"
    using assms(1) by simp_all
  then have "ValidTimeInterval_Validate (iv_interval i) = OK" by (cases "is") auto
  with \<open>ValidTimeInterval_Validate (iv_interval c) = OK\<close> assms(2) show ?thesis
    by (auto simp: within_def EndsAt_def ValidTimeInterval_Validate_iff split: option.splits)
qed

text \<open>Merging keeps the covered times, and the state at each of them.\<close>

lemma merge_from_covers:
  "chained (c # is) \<Longrightarrow> (\<exists>v. says (merge_from c is) t v) \<longleftrightarrow> (\<exists>v. says (c # is) t v)"
proof (induction c "is" rule: merge_from.induct)
  case (2 c i "is")
  show ?case
  proof (cases "opt_val_eq (iv_value c) (iv_value i) \<and> EndsAt c i")
    case True
    with "2.IH"(1) [OF True chained_extend] "2.prems" within_extend [OF "2.prems", of t] show ?thesis
      by (auto simp: says_def)
  next
    case False
    with "2.IH"(2) [OF False] "2.prems" show ?thesis by (auto simp: says_def)
  qed
qed (simp add: says_def)

lemma merge_from_states:
  "chained (c # is) \<Longrightarrow> says (merge_from c is) t v \<Longrightarrow> \<exists>w. says (c # is) t w \<and> same_state v w"
proof (induction c "is" rule: merge_from.induct)
  case (1 c)
  then show ?case by (auto simp: says_def same_state_def)
next
  case (2 c i "is")
  show ?case
  proof (cases "opt_val_eq (iv_value c) (iv_value i) \<and> EndsAt c i")
    case True
    with 2 obtain w where "says (extend_to c (vi_to (iv_interval i)) # is) t w" "same_state v w"
      using chained_extend by auto
    with True "2.prems"(1) within_extend [of c i "is" t] show ?thesis
      by (metis same_state_sym_trans says_Cons extend_to_simps(3))
  next
    case False
    with "2.IH"(2) [OF False] "2.prems" show ?thesis by (auto simp: says_Cons same_state_def)
  qed
qed

section \<open>Properties\<close>

text \<open>
  \<^verbatim>\<open>Intersect\<close> and \<^verbatim>\<open>Clip\<close> compute the intersection of two half-open intervals: a result is
  a valid interval containing exactly the times both contain, and no result means that they
  share no time.
\<close>

theorem interval_intersection:
  "Clip a b = Intersect a b \<and>
   (case Intersect a b of
      None \<Rightarrow> \<forall>t. \<not> (within t a \<and> within t b)
    | Some c \<Rightarrow> ValidTimeInterval_Validate c = OK \<and> (\<forall>t. within t c \<longleftrightarrow> within t a \<and> within t b))"
  using Intersect_Some [of a b] Intersect_None [of a b] by (auto simp: Clip_def split: option.split)

end
