(* ===== verification/Corrected_Chain.thy ===== *)
theory Corrected_Chain
  imports Intervals "HOL-Library.Product_Lexorder"
begin

text \<open>
  \<^verbatim>\<open>src/src/query/temporal/corrected_chain.cc\<close>: the events of one fact, in any order, are
  resolved at a snapshot to one boundary per valid time, and the boundaries are turned into
  the intervals in which the fact is present, or missing within an enclosing interval. The
  reference is the governing event of a time: of the events visible at the snapshot whose
  valid time is not after it, the one with the greatest valid time and, among corrections of
  that time, the greatest commit sequence.
\<close>

section \<open>Data and resolution\<close>

record corrected_boundary =
  bd_valid_from :: valid_time
  bd_commit_seq :: commit_seq
  bd_operation :: fact_operation
  bd_schema_epoch :: u32
  bd_value :: "val option"
  bd_identity :: "edge_identity option"

definition ToBoundary :: "fact_event \<Rightarrow> corrected_boundary" where
  "ToBoundary e =
     \<lparr>bd_valid_from = ev_valid_from e, bd_commit_seq = ev_commit_seq e,
      bd_operation = ev_operation e, bd_schema_epoch = ev_schema_epoch e,
      bd_value = ev_value e, bd_identity = ev_identity e\<rparr>"

definition Apply :: "corrected_boundary \<Rightarrow> val option \<Rightarrow> val option" where
  "Apply b value = (if bd_operation b = kPut then bd_value b else None)"

text \<open>The first loop: the events visible at the snapshot, validated, of one reference.\<close>

fun collect_visible :: "commit_seq \<Rightarrow> fact_ref option \<Rightarrow> fact_event list \<Rightarrow> fact_event list status_or" where
  "collect_visible snap ref [] = Inr []"
| "collect_visible snap ref (e # es) =
     (if ev_commit_seq e > snap then collect_visible snap ref es
      else sbind (FactEvent_Validate e) (\<lambda>_.
        if ref \<noteq> None \<and> ref \<noteq> Some (ev_ref e)
        then InvalidArgument ''corrected fact chain'' ''mixed fact references''
        else sbind (collect_visible snap (Some (ev_ref e)) es) (\<lambda>visible. Inr (e # visible))))"

text \<open>
  The comparator of \<^verbatim>\<open>std::is_sorted\<close> and \<^verbatim>\<open>std::sort\<close>. The order in which \<^verbatim>\<open>std::sort\<close>
  leaves equal elements is not specified; the model keeps them in input order, and the
  properties that depend on it ask for distinct keys, which the fact keys of a store have.
\<close>

definition chain_key :: "fact_event \<Rightarrow> valid_time \<times> commit_seq" where
  "chain_key e = (ev_valid_from e, ev_commit_seq e)"

text \<open>The second loop: the last event of each run of equal valid times.\<close>

function last_of_runs :: "fact_event list \<Rightarrow> corrected_boundary list" where
  "last_of_runs [] = []"
| "last_of_runs (e # es) =
     (let same = (\<lambda>f. ev_valid_from f = ev_valid_from e)
      in ToBoundary (last (e # takeWhile same es)) # last_of_runs (dropWhile same es))"
  by pat_completeness auto

termination last_of_runs
  by (relation "measure length") (auto simp: le_imp_less_Suc length_dropWhile_le)

definition ResolveCorrectedBoundaries ::
  "fact_event list \<Rightarrow> commit_seq \<Rightarrow> corrected_boundary list status_or" where
  "ResolveCorrectedBoundaries events snap =
     sbind (collect_visible snap None events) (\<lambda>visible.
       Inr (last_of_runs (if sorted (map chain_key visible) then visible
                          else sort_key chain_key visible)))"

section \<open>Materialization\<close>

fun present_loop :: "val option \<Rightarrow> corrected_boundary list \<Rightarrow> state_interval list" where
  "present_loop value [] = []"
| "present_loop value (b # bs) =
     (let value = Apply b value;
          to = (case bs of [] \<Rightarrow> None | c # _ \<Rightarrow> Some (bd_valid_from c));
          rest = present_loop value bs
      in if bd_operation b = kPut
         then \<lparr>iv_interval = \<lparr>vi_from = bd_valid_from b, vi_to = to\<rparr>, iv_value = value\<rparr> # rest
         else rest)"

definition MaterializePresentState :: "corrected_boundary list \<Rightarrow> state_interval list" where
  "MaterializePresentState boundaries = Coalesce (present_loop None boundaries)"

fun skip_started :: "valid_time \<Rightarrow> val option \<Rightarrow> corrected_boundary list \<Rightarrow> val option \<times> corrected_boundary list" where
  "skip_started from value [] = (value, [])"
| "skip_started from value (b # bs) =
     (if bd_valid_from b \<le> from then skip_started from (Apply b value) bs else (value, b # bs))"

definition gap :: "valid_time \<Rightarrow> valid_time option \<Rightarrow> state_interval" where
  "gap from to = \<lparr>iv_interval = \<lparr>vi_from = from, vi_to = to\<rparr>, iv_value = None\<rparr>"

text \<open>The interval after the loop, and the loop, which breaks at the enclosing end.\<close>

definition missing_tail :: "valid_time option \<Rightarrow> valid_time \<Rightarrow> val option \<Rightarrow> state_interval list" where
  "missing_tail end cursor value =
     (if value = None \<and> (case end of None \<Rightarrow> True | Some t \<Rightarrow> cursor < t)
      then [gap cursor end] else [])"

fun missing_loop ::
  "valid_time option \<Rightarrow> valid_time \<Rightarrow> val option \<Rightarrow> corrected_boundary list \<Rightarrow> state_interval list" where
  "missing_loop end cursor value [] = missing_tail end cursor value"
| "missing_loop end cursor value (b # bs) =
     (let nxt = bd_valid_from b
      in if (case end of None \<Rightarrow> False | Some t \<Rightarrow> \<not> nxt < t) then missing_tail end cursor value
         else (if value = None \<and> cursor < nxt then [gap cursor (Some nxt)] else []) @
              missing_loop end nxt (Apply b value) bs)"

definition MaterializeMissingState ::
  "corrected_boundary list \<Rightarrow> valid_time_interval \<Rightarrow> state_interval list" where
  "MaterializeMissingState boundaries enclosing =
     (if ValidTimeInterval_Validate enclosing \<noteq> OK then []
      else case skip_started (vi_from enclosing) None boundaries of
        (value, rest) \<Rightarrow> Coalesce (missing_loop (vi_to enclosing) (vi_from enclosing) value rest))"

section \<open>Resolution is correct\<close>

text \<open>The reference: visible events and the one that governs a time.\<close>

definition visible :: "fact_event list \<Rightarrow> commit_seq \<Rightarrow> fact_event list" where
  "visible events snap = filter (\<lambda>e. ev_commit_seq e \<le> snap) events"

definition governs :: "fact_event list \<Rightarrow> commit_seq \<Rightarrow> valid_time \<Rightarrow> fact_event \<Rightarrow> bool" where
  "governs events snap t e \<longleftrightarrow>
     e \<in> set (visible events snap) \<and> ev_valid_from e \<le> t \<and>
     (\<forall>f \<in> set (visible events snap). ev_valid_from f \<le> t \<longrightarrow> chain_key f \<le> chain_key e)"

definition same_ref :: "fact_ref option \<Rightarrow> fact_event list \<Rightarrow> bool" where
  "same_ref ref es \<longleftrightarrow>
     (case ref of None \<Rightarrow> es = [] \<or> (\<forall>e \<in> set es. ev_ref e = ev_ref (hd es))
      | Some r \<Rightarrow> \<forall>e \<in> set es. ev_ref e = r)"

lemma same_ref_Cons:
  "same_ref ref (e # es) \<longleftrightarrow> (ref = None \<or> ref = Some (ev_ref e)) \<and> same_ref (Some (ev_ref e)) es"
  by (cases ref) (auto simp: same_ref_def)

lemma same_ref_set:
  assumes "set es = set es'"
  shows "same_ref None (visible es snap) \<longleftrightarrow> same_ref None (visible es' snap)"
proof -
  have "same_ref None es \<longleftrightarrow> (\<forall>e \<in> set es. \<forall>f \<in> set es. ev_ref e = ev_ref f)" for es
    by (cases es) (auto simp: same_ref_def)
  with assms show ?thesis by (simp add: visible_def)
qed

lemma collect_visible_Inr:
  "collect_visible snap ref es = Inr vs \<longleftrightarrow>
     vs = visible es snap \<and> (\<forall>e \<in> set (visible es snap). FactEvent_Validate e = OK) \<and>
     same_ref ref (visible es snap)"
proof (induction es arbitrary: ref vs)
  case Nil
  then show ?case by (auto simp: visible_def same_ref_def split: option.split)
next
  case (Cons e es)
  show ?case
  proof (cases "ev_commit_seq e \<le> snap")
    case True
    then have "visible (e # es) snap = e # visible es snap" "\<not> ev_commit_seq e > snap"
      by (simp_all add: visible_def not_less)
    then show ?thesis by (simp add: Cons.IH same_ref_Cons sbind_Inr_iff) blast
  next
    case False
    then have "visible (e # es) snap = visible es snap" by (simp add: visible_def)
    with False show ?thesis by (simp add: Cons.IH not_le)
  qed
qed

lemma last_of_runs_set:
  "b \<in> set (last_of_runs es) \<Longrightarrow> \<exists>e \<in> set es. b = ToBoundary e"
proof (induction es rule: last_of_runs.induct)
  case (2 e es)
  let ?same = "\<lambda>f. ev_valid_from f = ev_valid_from e"
  have "last (e # takeWhile ?same es) \<in> set (e # es)"
    using last_in_set [of "e # takeWhile ?same es"] by (auto dest: set_takeWhileD)
  moreover have "set (dropWhile ?same es) \<subseteq> set es" by (auto dest: set_dropWhileD)
  ultimately show ?case using 2 by (auto simp: Let_def)
qed simp

lemma chain_key_le: "chain_key e \<le> chain_key f \<Longrightarrow> ev_valid_from e \<le> ev_valid_from f"
  by (auto simp: chain_key_def less_eq_prod_def)

lemma dropWhile_later:
  assumes "sorted (map chain_key (e # es))"
    "f \<in> set (dropWhile (\<lambda>f. ev_valid_from f = ev_valid_from e) es)"
  shows "ev_valid_from e < ev_valid_from f"
  using assms
proof (induction es)
  case (Cons g es)
  show ?case
  proof (cases "ev_valid_from g = ev_valid_from e")
    case True
    with Cons show ?thesis by simp
  next
    case False
    have "chain_key e \<le> chain_key g" using Cons.prems(1) by simp
    with False have "ev_valid_from e < ev_valid_from g" by (auto dest: chain_key_le)
    moreover have "ev_valid_from g \<le> ev_valid_from f"
      using Cons.prems False by (auto intro: chain_key_le)
    ultimately show ?thesis by simp
  qed
qed simp

lemma sorted_dropWhile_key: "sorted (map k xs) \<Longrightarrow> sorted (map k (dropWhile p xs))"
  by (metis dropWhile_eq_drop sorted_wrt_drop drop_map)

lemma last_of_runs_sorted:
  "sorted (map chain_key es) \<Longrightarrow> sorted_wrt (<) (map bd_valid_from (last_of_runs es))"
proof (induction es rule: last_of_runs.induct)
  case (2 e es)
  let ?same = "\<lambda>f. ev_valid_from f = ev_valid_from e"
  have "sorted_wrt (<) (map bd_valid_from (last_of_runs (dropWhile ?same es)))"
    using 2 by (simp add: sorted_dropWhile_key)
  moreover have "ev_valid_from e < bd_valid_from b" if "b \<in> set (last_of_runs (dropWhile ?same es))" for b
    using that last_of_runs_set [OF that] dropWhile_later [OF "2.prems"] by (auto simp: ToBoundary_def)
  moreover have "ev_valid_from (last (e # takeWhile ?same es)) = ev_valid_from e"
    using last_in_set [of "e # takeWhile ?same es"] by (auto dest: set_takeWhileD)
  ultimately show ?case by (auto simp: Let_def ToBoundary_def)
qed simp

text \<open>
  Which boundary is current at a time, as a left-to-right search; it is the boundary of the
  governing event.
\<close>

fun current_at :: "corrected_boundary option \<Rightarrow> corrected_boundary list \<Rightarrow> valid_time \<Rightarrow> corrected_boundary option" where
  "current_at c [] t = c"
| "current_at c (b # bs) t = (if bd_valid_from b \<le> t then current_at (Some b) bs t else c)"

lemma current_at_start:
  "current_at c bs t = (case current_at None bs t of None \<Rightarrow> c | Some b \<Rightarrow> Some b)"
proof (cases bs)
  case (Cons b bs')
  have "current_at (Some b) bs' t \<noteq> None" by (induction bs' arbitrary: b) auto
  with Cons show ?thesis by auto
qed simp

lemma current_at_append:
  assumes "sorted_wrt (<) (map bd_valid_from (b # bs))"
  shows "current_at None (b # bs) t =
    (if t < bd_valid_from b then None
     else case current_at None bs t of None \<Rightarrow> Some b | Some c \<Rightarrow> Some c)"
  using current_at_start [of "Some b" bs t] by (auto simp: not_le)

lemma current_at_mem: "current_at None bs t = Some b \<Longrightarrow> b \<in> set bs \<and> bd_valid_from b \<le> t"
proof (induction bs)
  case (Cons a bs)
  then show ?case
    using current_at_start [of "Some a" bs t] by (auto split: option.splits if_splits)
qed simp

lemma sorted_le_last: "sorted (map k xs) \<Longrightarrow> x \<in> set xs \<Longrightarrow> k x \<le> k (last xs)"
  by (induction xs) auto

lemma last_run_governs:
  assumes "sorted (map chain_key (e # es))" "f \<in> set (e # es)" "ev_valid_from f = ev_valid_from e"
  shows "chain_key f \<le> chain_key (last (e # takeWhile (\<lambda>f. ev_valid_from f = ev_valid_from e) es))"
proof -
  let ?same = "\<lambda>f. ev_valid_from f = ev_valid_from e"
  have split: "e # es = (e # takeWhile ?same es) @ dropWhile ?same es" by simp
  have "f \<notin> set (dropWhile ?same es)"
    using dropWhile_later [OF assms(1), of f] assms(3) by auto
  with assms(2) have f: "f \<in> set (e # takeWhile ?same es)"
    using split by (metis Un_iff set_append)
  have "sorted (map chain_key (e # takeWhile ?same es))"
    using assms(1) split by (metis map_append sorted_append)
  with f show ?thesis
    by (intro sorted_le_last) auto
qed

lemma current_at_governs:
  assumes "sorted (map chain_key es)"
  shows "case current_at None (last_of_runs es) t of
      None \<Rightarrow> \<forall>e \<in> set es. t < ev_valid_from e
    | Some b \<Rightarrow> \<exists>e \<in> set es. b = ToBoundary e \<and> ev_valid_from e \<le> t \<and>
        (\<forall>f \<in> set es. ev_valid_from f \<le> t \<longrightarrow> chain_key f \<le> chain_key e)"
  using assms
proof (induction es rule: last_of_runs.induct)
  case (2 e es)
  let ?same = "\<lambda>f. ev_valid_from f = ev_valid_from e"
  define l where "l = last (e # takeWhile ?same es)"
  have l: "l \<in> set (e # es)" "ev_valid_from l = ev_valid_from e"
    using last_in_set [of "e # takeWhile ?same es"] by (auto simp: l_def dest: set_takeWhileD)
  have split: "set es = set (takeWhile ?same es) \<union> set (dropWhile ?same es)"
    by (metis set_append takeWhile_dropWhile_id)
  have runs: "last_of_runs (e # es) = ToBoundary l # last_of_runs (dropWhile ?same es)"
    by (simp add: l_def Let_def)
  have sorted: "sorted_wrt (<) (map bd_valid_from (ToBoundary l # last_of_runs (dropWhile ?same es)))"
    using last_of_runs_sorted [OF "2.prems"] unfolding runs .
  have later: "ev_valid_from e < ev_valid_from f" if "f \<in> set (dropWhile ?same es)" for f
    using dropWhile_later [OF "2.prems" that] .
  have run: "ev_valid_from f = ev_valid_from e" if "f \<in> set (e # es)" "f \<notin> set (dropWhile ?same es)" for f
    using that split by (auto dest: set_takeWhileD)
  have top: "chain_key f \<le> chain_key l" if "f \<in> set (e # es)" "f \<notin> set (dropWhile ?same es)" for f
    using last_run_governs [OF "2.prems" that(1) run [OF that]] by (simp add: l_def)
  have IH: "case current_at None (last_of_runs (dropWhile ?same es)) t of
      None \<Rightarrow> \<forall>e \<in> set (dropWhile ?same es). t < ev_valid_from e
    | Some b \<Rightarrow> \<exists>e' \<in> set (dropWhile ?same es). b = ToBoundary e' \<and> ev_valid_from e' \<le> t \<and>
        (\<forall>f \<in> set (dropWhile ?same es). ev_valid_from f \<le> t \<longrightarrow> chain_key f \<le> chain_key e')"
    using 2 by (simp add: sorted_dropWhile_key)
  have step: "current_at None (last_of_runs (e # es)) t =
    (if t < ev_valid_from e then None
     else case current_at None (last_of_runs (dropWhile ?same es)) t of
            None \<Rightarrow> Some (ToBoundary l) | Some c \<Rightarrow> Some c)"
    unfolding runs current_at_append [OF sorted] using l(2) by (simp add: ToBoundary_def)
  show ?case
  proof (cases "t < ev_valid_from e")
    case True
    then have "t < ev_valid_from f" if "f \<in> set (e # es)" for f
      using that later [of f] run [of f] by force
    with True step show ?thesis by simp
  next
    case False
    show ?thesis
    proof (cases "current_at None (last_of_runs (dropWhile ?same es)) t")
      case None
      with IH have none: "\<forall>e \<in> set (dropWhile ?same es). t < ev_valid_from e" by simp
      have "ev_valid_from l \<le> t" using False l(2) by simp
      moreover have "chain_key f \<le> chain_key l" if "f \<in> set (e # es)" "ev_valid_from f \<le> t" for f
        using that none top [of f] by force
      ultimately show ?thesis using step False None l(1) by auto
    next
      case (Some c)
      with IH obtain g where g: "g \<in> set (dropWhile ?same es)" "c = ToBoundary g" "ev_valid_from g \<le> t"
        "\<forall>f \<in> set (dropWhile ?same es). ev_valid_from f \<le> t \<longrightarrow> chain_key f \<le> chain_key g"
        by auto
      have "chain_key f \<le> chain_key g" if "f \<in> set (e # es)" "ev_valid_from f \<le> t" for f
      proof (cases "f \<in> set (dropWhile ?same es)")
        case False
        with run [OF that(1)] later [OF g(1)] show ?thesis by (simp add: chain_key_def)
      qed (use g that in blast)
      moreover have "g \<in> set (e # es)" using g(1) split by auto
      ultimately show ?thesis using step False Some g by auto
    qed
  qed
qed simp

text \<open>The resolved boundaries, and the event behind the boundary current at a time.\<close>

lemma Resolve_Inr:
  assumes "ResolveCorrectedBoundaries es snap = Inr bs"
  obtains vs where "bs = last_of_runs vs" "sorted (map chain_key vs)" "set vs = set (visible es snap)"
    "\<forall>e \<in> set vs. FactEvent_Validate e = OK" "same_ref None (visible es snap)"
proof
  let ?vs = "visible es snap"
  let ?ws = "if sorted (map chain_key ?vs) then ?vs else sort_key chain_key ?vs"
  have c: "collect_visible snap None es = Inr ?vs"
    using assms by (auto simp: ResolveCorrectedBoundaries_def collect_visible_Inr sbind_Inr_iff)
  with assms show "bs = last_of_runs ?ws" by (simp add: ResolveCorrectedBoundaries_def)
  show "sorted (map chain_key ?ws)" "set ?ws = set ?vs" by simp_all
  with c show "\<forall>e \<in> set ?ws. FactEvent_Validate e = OK" "same_ref None ?vs"
    by (simp_all add: collect_visible_Inr)
qed

lemma Resolve_valid:
  assumes "ResolveCorrectedBoundaries es snap = Inr bs" "e \<in> set (visible es snap)"
  shows "FactEvent_Validate e = OK"
  using assms(1) by (rule Resolve_Inr) (use assms(2) in blast)

lemma property_put_value:
  "FactEvent_Validate e = OK \<Longrightarrow> IsProperty (ev_ref e) \<Longrightarrow> ev_operation e = kPut \<Longrightarrow> ev_value e \<noteq> None"
  by (auto simp: FactEvent_Validate_def ValidateMutation_OK_iff sbind_Inr_iff split: if_splits)

lemma Resolve_ok_iff:
  "ok (ResolveCorrectedBoundaries es snap) \<longleftrightarrow>
     (\<forall>e \<in> set (visible es snap). FactEvent_Validate e = OK) \<and> same_ref None (visible es snap)"
  using collect_visible_Inr [of snap None es]
  by (cases "collect_visible snap None es") (auto simp: ResolveCorrectedBoundaries_def ok_def)

lemma Resolve_sorted:
  "ResolveCorrectedBoundaries es snap = Inr bs \<Longrightarrow> sorted_wrt (<) (map bd_valid_from bs)"
  by (auto elim!: Resolve_Inr intro: last_of_runs_sorted)

lemma Resolve_current:
  assumes "ResolveCorrectedBoundaries es snap = Inr bs"
  shows "case current_at None bs t of
      None \<Rightarrow> \<forall>e \<in> set (visible es snap). t < ev_valid_from e
    | Some b \<Rightarrow> \<exists>e. governs es snap t e \<and> b = ToBoundary e"
proof -
  obtain vs where vs: "bs = last_of_runs vs" "sorted (map chain_key vs)" "set vs = set (visible es snap)"
    using assms by (rule Resolve_Inr)
  from current_at_governs [OF vs(2), of t] show ?thesis
    unfolding vs(1) by (auto simp: governs_def vs(3) split: option.splits)
qed

text \<open>With distinct keys, which a fact store guarantees, the governing event is unique.\<close>

lemma governs_unique:
  assumes "distinct (map chain_key (visible es snap))" "governs es snap t e" "governs es snap t f"
  shows "e = f"
proof -
  have "chain_key e = chain_key f" "e \<in> set (visible es snap)" "f \<in> set (visible es snap)"
    using assms(2,3) by (auto simp: governs_def intro: antisym)
  with assms(1) show ?thesis by (auto simp: distinct_map inj_on_def)
qed

section \<open>Materialization is correct\<close>

lemma present_loop_from:
  "i \<in> set (present_loop v bs) \<Longrightarrow> \<exists>c \<in> set bs. vi_from (iv_interval i) = bd_valid_from c"
  by (induction bs arbitrary: v) (auto simp: Let_def split: if_splits)

lemma present_loop_chained:
  "sorted_wrt (<) (map bd_valid_from bs) \<Longrightarrow> chained (present_loop v bs)"
proof (induction bs arbitrary: v)
  case (Cons b bs)
  let ?to = "case bs of [] \<Rightarrow> None | c # _ \<Rightarrow> Some (bd_valid_from c)"
  let ?rest = "present_loop (Apply b v) bs"
  let ?i = "\<lparr>iv_interval = \<lparr>vi_from = bd_valid_from b, vi_to = ?to\<rparr>, iv_value = Apply b v\<rparr>"
  have rest: "chained ?rest" using Cons by simp
  have valid: "ValidTimeInterval_Validate (iv_interval ?i) = OK"
    using Cons.prems by (cases bs) (simp_all add: ValidTimeInterval_Validate_iff)
  have "chained (?i # ?rest)"
  proof (cases "?rest = []")
    case False
    then obtain c where c: "c \<in> set bs" "vi_from (iv_interval (hd ?rest)) = bd_valid_from c"
      using present_loop_from [OF hd_in_set] by blast
    then have "\<exists>t. ?to = Some t \<and> t \<le> bd_valid_from c"
      using Cons.prems by (cases bs) auto
    with False valid rest c(2) show ?thesis by (simp add: chained_Cons)
  qed (use valid in simp)
  with rest show ?case by (simp add: Let_def)
qed simp

lemma present_loop_says:
  "sorted_wrt (<) (map bd_valid_from bs) \<Longrightarrow>
   says (present_loop v bs) t w \<longleftrightarrow>
     (\<exists>b. current_at None bs t = Some b \<and> bd_operation b = kPut \<and> w = bd_value b)"
proof (induction bs arbitrary: v)
  case (Cons b bs)
  let ?to = "case bs of [] \<Rightarrow> None | c # _ \<Rightarrow> Some (bd_valid_from c)"
  have within: "within t \<lparr>vi_from = bd_valid_from b, vi_to = ?to\<rparr> \<longleftrightarrow>
      bd_valid_from b \<le> t \<and> current_at None bs t = None"
  proof (cases bs)
    case (Cons c cs)
    have "current_at (Some c) cs t \<noteq> None" using current_at_start [of "Some c" cs t]
      by (auto split: option.splits)
    with Cons show ?thesis by (auto simp: within_def)
  qed (simp add: within_def)
  have none: "\<not> bd_valid_from b \<le> t \<Longrightarrow> current_at None bs t = None"
    using Cons.prems by (cases bs) auto
  have IH: "says (present_loop (Apply b v) bs) t w \<longleftrightarrow>
     (\<exists>b. current_at None bs t = Some b \<and> bd_operation b = kPut \<and> w = bd_value b)"
    using Cons by simp
  have loop: "says (present_loop v (b # bs)) t w \<longleftrightarrow>
      bd_operation b = kPut \<and> within t \<lparr>vi_from = bd_valid_from b, vi_to = ?to\<rparr> \<and> bd_value b = w \<or>
      says (present_loop (Apply b v) bs) t w"
    by (cases "bd_operation b = kPut") (simp_all add: Let_def says_Cons Apply_def)
  show ?case
    unfolding current_at_append [OF Cons.prems] loop within IH
    using none by (cases "current_at None bs t"; cases "bd_valid_from b \<le> t") (auto simp: not_le)
qed simp

text \<open>The missing intervals cover the times at which the running value is absent.\<close>

fun value_at :: "val option \<Rightarrow> corrected_boundary list \<Rightarrow> valid_time \<Rightarrow> val option" where
  "value_at v [] t = v"
| "value_at v (b # bs) t = (if bd_valid_from b \<le> t then value_at (Apply b v) bs t else v)"

lemma value_at_current:
  "value_at v bs t = (case current_at None bs t of None \<Rightarrow> v | Some b \<Rightarrow> Apply b None)"
proof (induction bs arbitrary: v)
  case (Cons b bs)
  show ?case
    using current_at_start [of "Some b" bs t] by (auto simp: Cons Apply_def split: option.splits)
qed simp

lemma skip_started_value:
  "skip_started from v bs = (w, cs) \<Longrightarrow> sorted_wrt (<) (map bd_valid_from bs) \<Longrightarrow> from \<le> t \<Longrightarrow>
   value_at w cs t = value_at v bs t \<and> sorted_wrt (<) (map bd_valid_from cs) \<and>
   (\<forall>c \<in> set cs. from < bd_valid_from c)"
proof (induction bs arbitrary: v)
  case (Cons b bs)
  show ?case
  proof (cases "bd_valid_from b \<le> from")
    case True
    then have "bd_valid_from b \<le> t" using Cons.prems(3) by simp
    with True Cons show ?thesis by simp
  next
    case False
    with Cons.prems show ?thesis by force
  qed
qed simp

lemma says_append: "says (is @ js) t v \<longleftrightarrow> says is t v \<or> says js t v"
  by (auto simp: says_def)

lemma says_gap: "says [gap a e] t v \<longleftrightarrow> within t \<lparr>vi_from = a, vi_to = e\<rparr> \<and> v = None"
  by (auto simp: says_def gap_def)

lemma says_missing_tail:
  "says (missing_tail e a w) t v \<longleftrightarrow> w = None \<and> within t \<lparr>vi_from = a, vi_to = e\<rparr> \<and> v = None"
  by (auto simp: missing_tail_def says_gap within_def split: option.splits)

lemma missing_loop_says:
  "sorted_wrt (<) (map bd_valid_from bs) \<Longrightarrow> \<forall>b \<in> set bs. cursor < bd_valid_from b \<Longrightarrow>
   says (missing_loop e cursor v bs) t w \<longleftrightarrow>
     within t \<lparr>vi_from = cursor, vi_to = e\<rparr> \<and> value_at v bs t = None \<and> w = None"
proof (induction bs arbitrary: cursor v)
  case (Cons b bs)
  show ?case
  proof (cases "case e of None \<Rightarrow> False | Some t \<Rightarrow> \<not> bd_valid_from b < t")
    case True
    then have "within t \<lparr>vi_from = cursor, vi_to = e\<rparr> \<Longrightarrow> \<not> bd_valid_from b \<le> t"
      by (auto simp: within_def split: option.splits)
    with True show ?thesis by (auto simp: says_missing_tail)
  next
    case False
    let ?b = "bd_valid_from b"
    have "cursor < ?b" using Cons.prems(2) by simp
    have loop: "says (missing_loop e cursor v (b # bs)) t w \<longleftrightarrow>
        (v = None \<and> within t \<lparr>vi_from = cursor, vi_to = Some ?b\<rparr> \<and> w = None) \<or>
        (within t \<lparr>vi_from = ?b, vi_to = e\<rparr> \<and> value_at (Apply b v) bs t = None \<and> w = None)"
      using False \<open>cursor < ?b\<close> Cons by (auto simp: Let_def says_append says_gap)
    have "within t \<lparr>vi_from = cursor, vi_to = e\<rparr> \<longleftrightarrow>
        within t \<lparr>vi_from = cursor, vi_to = Some ?b\<rparr> \<or> within t \<lparr>vi_from = ?b, vi_to = e\<rparr>"
      using False \<open>cursor < ?b\<close> by (auto simp: within_def split: option.splits)
    then show ?thesis unfolding loop by (auto simp: within_def)
  qed
qed (auto simp: says_missing_tail)

lemma missing_loop_from:
  "\<forall>b \<in> set bs. cursor \<le> bd_valid_from b \<Longrightarrow> sorted_wrt (<) (map bd_valid_from bs) \<Longrightarrow>
   i \<in> set (missing_loop e cursor v bs) \<Longrightarrow> cursor \<le> vi_from (iv_interval i)"
proof (induction bs arbitrary: cursor v)
  case (Cons b bs)
  have "bd_valid_from b \<le> vi_from (iv_interval i)" if "i \<in> set (missing_loop e (bd_valid_from b) (Apply b v) bs)"
    using Cons.IH [of "bd_valid_from b"] Cons.prems(2) that by fastforce
  with Cons.prems show ?case
    by (fastforce simp: Let_def missing_tail_def gap_def split: if_splits)
qed (auto simp: missing_tail_def gap_def split: if_splits)

lemma missing_loop_chained:
  "sorted_wrt (<) (map bd_valid_from bs) \<Longrightarrow> \<forall>b \<in> set bs. cursor < bd_valid_from b \<Longrightarrow>
   chained (missing_loop e cursor v bs)"
proof (induction bs arbitrary: cursor v)
  case (Cons b bs)
  let ?b = "bd_valid_from b"
  let ?rest = "missing_loop e ?b (Apply b v) bs"
  have rest: "chained ?rest" using Cons by simp
  have "chained (gap cursor (Some ?b) # ?rest)"
  proof (cases "?rest = []")
    case True
    with Cons.prems show ?thesis by (simp add: gap_def ValidTimeInterval_Validate_iff)
  next
    case False
    then have "?b \<le> vi_from (iv_interval (hd ?rest))"
      using missing_loop_from [of bs ?b "hd ?rest" e "Apply b v"] Cons.prems(1) by fastforce
    with False rest Cons.prems show ?thesis
      by (simp add: chained_Cons gap_def ValidTimeInterval_Validate_iff)
  qed
  moreover have "chained (missing_tail e cursor v)"
    by (auto simp: missing_tail_def gap_def ValidTimeInterval_Validate_iff split: option.splits)
  ultimately show ?case using rest by (cases v) (simp_all add: Let_def)
qed (auto simp: missing_tail_def gap_def ValidTimeInterval_Validate_iff split: option.splits)

section \<open>Coalesced states\<close>

lemma Coalesce_chained: "chained is \<Longrightarrow> chained (Coalesce is) \<and> fully_merged (Coalesce is)"
  by (cases "is") (simp_all add: Coalesce_Cons chained_merge fully_merged_merge, simp add: fully_merged_def)

lemma Coalesce_covers: "chained is \<Longrightarrow> (\<exists>v. says (Coalesce is) t v) \<longleftrightarrow> (\<exists>v. says is t v)"
  by (cases "is") (simp_all add: Coalesce_Cons merge_from_covers)

lemma Coalesce_states:
  "chained is \<Longrightarrow> says (Coalesce is) t v \<Longrightarrow> \<exists>w. says is t w \<and> same_state v w"
  by (cases "is") (simp_all add: Coalesce_Cons merge_from_states)

lemma Present_covers:
  "sorted_wrt (<) (map bd_valid_from bs) \<Longrightarrow>
   (\<exists>v. says (MaterializePresentState bs) t v) \<longleftrightarrow>
     (\<exists>b. current_at None bs t = Some b \<and> bd_operation b = kPut)"
  by (simp add: MaterializePresentState_def Coalesce_covers present_loop_chained present_loop_says)

lemma current_governs:
  assumes "ResolveCorrectedBoundaries es snap = Inr bs" "distinct (map chain_key (visible es snap))"
  shows "current_at None bs t = Some b \<longleftrightarrow> (\<exists>e. governs es snap t e \<and> b = ToBoundary e)"
proof -
  note r = Resolve_current [OF assms(1), of t]
  show ?thesis
  proof (cases "current_at None bs t")
    case None
    with r show ?thesis by (force simp: governs_def)
  next
    case (Some c)
    with r obtain e where "governs es snap t e" "c = ToBoundary e" by auto
    with Some show ?thesis using governs_unique [OF assms(2)] by auto
  qed
qed

lemma Present_states:
  assumes "ResolveCorrectedBoundaries es snap = Inr bs" "distinct (map chain_key (visible es snap))"
    and says: "says (MaterializePresentState bs) t v"
  shows "\<exists>e. governs es snap t e \<and> ev_operation e = kPut \<and> same_state v (ev_value e)"
proof -
  note sorted = Resolve_sorted [OF assms(1)]
  obtain b where "current_at None bs t = Some b" "bd_operation b = kPut" "same_state v (bd_value b)"
    using Coalesce_states [OF present_loop_chained [OF sorted] says [unfolded MaterializePresentState_def]]
    by (auto simp: present_loop_says [OF sorted])
  then show ?thesis by (auto simp: current_governs [OF assms(1,2)] ToBoundary_def)
qed

section \<open>Properties\<close>

text \<open>
  C37: the order in which the events of a fact arrive does not matter: two lists with the same
  events, no two of them with the same valid time and commit sequence, resolve to the same
  boundaries at every snapshot, and one is refused exactly when the other is.
\<close>

theorem resolution_order_independent:
  assumes "set es = set es'" "distinct (map chain_key es)" "distinct (map chain_key es')"
  shows "ResolveCorrectedBoundaries es snap = Inr bs \<longleftrightarrow> ResolveCorrectedBoundaries es' snap = Inr bs"
proof -
  have eq: "sort_key chain_key (visible es snap) = sort_key chain_key (visible es' snap)"
    using assms by (intro map_sorted_distinct_set_unique [of chain_key])
      (simp_all add: visible_def distinct_map inj_on_def)
  have "(if sorted (map chain_key vs) then vs else sort_key chain_key vs) = sort_key chain_key vs" for vs
    by (simp add: sort_key_id_if_sorted)
  moreover have "same_ref None (visible es snap) \<longleftrightarrow> same_ref None (visible es' snap)"
    using assms(1) by (rule same_ref_set)
  ultimately show ?thesis
    using assms(1) eq
    by (auto simp: ResolveCorrectedBoundaries_def collect_visible_Inr sbind_Inr_iff visible_def)
qed

text \<open>
  C15: time travel over a fact: at a snapshot and a valid time, the present intervals contain
  the time exactly when the governing event is a PUT, and the interval that contains it
  carries that event's value (up to \<^verbatim>\<open>==\<close> of values); the intervals are non-empty, in order,
  disjoint and maximal.
\<close>

theorem present_state_correct:
  assumes "ResolveCorrectedBoundaries es snap = Inr bs" "distinct (map chain_key (visible es snap))"
  shows "chained (MaterializePresentState bs) \<and> fully_merged (MaterializePresentState bs) \<and>
    ((\<exists>v. says (MaterializePresentState bs) t v) \<longleftrightarrow> (\<exists>e. governs es snap t e \<and> ev_operation e = kPut)) \<and>
    (says (MaterializePresentState bs) t v \<longrightarrow>
       (\<exists>e. governs es snap t e \<and> ev_operation e = kPut \<and> same_state v (ev_value e)))"
proof -
  note sorted = Resolve_sorted [OF assms(1)]
  note chain = present_loop_chained [OF sorted]
  show ?thesis
    using Coalesce_chained [OF chain, of None] Present_covers [OF sorted, of t] Present_states [OF assms]
    by (auto simp: MaterializePresentState_def current_governs [OF assms] ToBoundary_def)
qed

definition sample_ref :: fact_ref where
  "sample_ref = PropertyFact_Vertex \<lparr>vr_part = 1, vr_vertex = 7\<rparr> 3"

definition chain_event :: "u64 \<Rightarrow> u64 \<Rightarrow> val option \<Rightarrow> fact_event" where
  "chain_event from seq v =
     \<lparr>ev_ref = sample_ref, ev_valid_from = from, ev_commit_seq = seq,
      ev_operation = (if v = None then kDelete else kPut), ev_schema_epoch = 1, ev_value = v,
      ev_identity = None\<rparr>"

text \<open>A value at 10, deleted at 20, later corrected at 10, and a write after the snapshot.\<close>

definition sample_chain :: "fact_event list" where
  "sample_chain =
     [chain_event 10 1 (Some (VBool True)), chain_event 20 2 None,
      chain_event 10 3 (Some (VBool False)), chain_event 15 9 None]"

definition sample_boundaries :: "corrected_boundary list" where
  "sample_boundaries =
     [ToBoundary (chain_event 10 3 (Some (VBool False))), ToBoundary (chain_event 20 2 None)]"

lemma sample_resolved: "ResolveCorrectedBoundaries sample_chain 5 = Inr sample_boundaries"
  by code_simp

lemma sample_distinct: "distinct (map chain_key (visible sample_chain 5))"
  by code_simp

theorem resolution_order_independent_witness:
  "ResolveCorrectedBoundaries (rev sample_chain) 5 = Inr sample_boundaries"
  using resolution_order_independent [of sample_chain "rev sample_chain" 5 sample_boundaries]
    sample_resolved
  by (simp add: rev_map [symmetric]) (simp add: sample_chain_def chain_event_def chain_key_def)

theorem present_state_correct_witness:
  "(\<exists>v. says (MaterializePresentState sample_boundaries) 12 v) \<longleftrightarrow>
   (\<exists>e. governs sample_chain 5 12 e \<and> ev_operation e = kPut)"
  using present_state_correct [OF sample_resolved sample_distinct, of 12] by simp

text \<open>
  C36: for a property, the missing intervals within a valid enclosing interval are the
  complement of the present ones: a time of the enclosing interval is reported missing
  exactly when the property is not present then, nothing outside it is reported, and the
  intervals are non-empty, in order, disjoint and maximal.
\<close>

theorem missing_state_complement:
  assumes "ResolveCorrectedBoundaries es snap = Inr bs"
    "\<forall>e \<in> set (visible es snap). IsProperty (ev_ref e)" "ValidTimeInterval_Validate enclosing = OK"
  shows "chained (MaterializeMissingState bs enclosing) \<and> fully_merged (MaterializeMissingState bs enclosing) \<and>
    ((\<exists>v. says (MaterializeMissingState bs enclosing) t v) \<longleftrightarrow>
       within t enclosing \<and> \<not> (\<exists>v. says (MaterializePresentState bs) t v))"
proof -
  note sorted = Resolve_sorted [OF assms(1)]
  obtain w cs where skip: "skip_started (vi_from enclosing) None bs = (w, cs)" by fastforce
  let ?loop = "missing_loop (vi_to enclosing) (vi_from enclosing) w cs"
  have M: "MaterializeMissingState bs enclosing = Coalesce ?loop"
    using assms(3) skip by (simp add: MaterializeMissingState_def)
  note cs = skip_started_value [OF skip sorted]
  have loop: "chained ?loop" using cs [OF order_refl] by (simp add: missing_loop_chained)
  have put: "bd_operation b = kPut \<longleftrightarrow> Apply b None \<noteq> None" if "current_at None bs t = Some b" for b
    using Resolve_current [OF assms(1), of t] that assms(2) Resolve_valid [OF assms(1)]
    by (force simp: governs_def Apply_def ToBoundary_def dest: property_put_value)
  have "(\<exists>v. says ?loop t v) \<longleftrightarrow> within t enclosing \<and> value_at None bs t = None"
    using cs [of t] cs [OF order_refl] by (auto simp: missing_loop_says within_def)
  also have "value_at None bs t = None \<longleftrightarrow> \<not> (\<exists>v. says (MaterializePresentState bs) t v)"
    unfolding Present_covers [OF sorted] value_at_current using put
    by (cases "current_at None bs t") auto
  finally show ?thesis unfolding M using Coalesce_chained [OF loop] Coalesce_covers [OF loop] by simp
qed

theorem missing_state_complement_witness:
  "(\<exists>v. says (MaterializeMissingState sample_boundaries \<lparr>vi_from = 5, vi_to = Some 30\<rparr>) 7 v) \<longleftrightarrow>
   within 7 \<lparr>vi_from = 5, vi_to = Some 30\<rparr> \<and> \<not> (\<exists>v. says (MaterializePresentState sample_boundaries) 7 v)"
proof -
  have "\<forall>e \<in> set (visible sample_chain 5). IsProperty (ev_ref e)" by code_simp
  moreover have "ValidTimeInterval_Validate \<lparr>vi_from = 5, vi_to = Some 30\<rparr> = OK" by code_simp
  ultimately show ?thesis using missing_state_complement [OF sample_resolved] by simp
qed

end
