(* ===== verification/Read_Spec.thy ===== *)
theory Read_Spec
  imports Intervals
begin

text \<open>
  What a read asks for: the partition scopes, entity and commit ranges, read specifications
  and execution scopes of \<^verbatim>\<open>src/include/cedar/fact/read_spec.h\<close> with their \<^verbatim>\<open>Validate\<close>
  methods, and the typed parameter bindings of \<^verbatim>\<open>src/src/query/types.cc\<close>.
\<close>

section \<open>Partition scopes\<close>

datatype part_scope_kind = kExact | kSet | kAll

record part_scope =
  ps_kind :: part_scope_kind
  ps_parts :: "part_id list"

definition PartScope_Exact :: "part_id \<Rightarrow> part_scope" where
  "PartScope_Exact part = \<lparr>ps_kind = kExact, ps_parts = [part]\<rparr>"

text \<open>\<^verbatim>\<open>std::sort\<close> and \<^verbatim>\<open>std::unique\<close> followed by \<^verbatim>\<open>erase\<close>.\<close>

definition PartScope_Set :: "part_id list \<Rightarrow> part_scope" where
  "PartScope_Set parts = \<lparr>ps_kind = kSet, ps_parts = remdups_adj (sort parts)\<rparr>"

definition PartScope_All :: part_scope where
  "PartScope_All = \<lparr>ps_kind = kAll, ps_parts = []\<rparr>"

fun adjacent_find :: "'a list \<Rightarrow> bool" where
  "adjacent_find (x # y # xs) = (x = y \<or> adjacent_find (y # xs))"
| "adjacent_find _ = False"

definition PartScope_Validate :: "part_scope \<Rightarrow> status" where
  "PartScope_Validate s =
     (if ps_kind s = kAll
      then (if ps_parts s = [] then OK
            else InvalidArgument ''part scope'' ''wildcard cannot carry parts'')
      else if ps_parts s = [] then InvalidArgument ''part scope'' ''empty part set''
      else if ps_kind s = kExact \<and> length (ps_parts s) \<noteq> 1
      then InvalidArgument ''part scope'' ''exact scope requires one part''
      else if \<not> sorted (ps_parts s) then InvalidArgument ''part scope'' ''parts must be sorted''
      else if adjacent_find (ps_parts s) then InvalidArgument ''part scope'' ''parts must be unique''
      else OK)"

text \<open>
  \<^verbatim>\<open>std::binary_search\<close>: the halving loop of \<^verbatim>\<open>std::lower_bound\<close> over \<open>len\<close> elements from
  \<open>first\<close>, then one comparison.
\<close>

function lower_bound :: "'a :: linorder list \<Rightarrow> 'a \<Rightarrow> nat \<Rightarrow> nat \<Rightarrow> nat" where
  "lower_bound xs v first len =
     (if len = 0 then first
      else let half = len div 2; middle = first + half
           in if xs ! middle < v then lower_bound xs v (middle + 1) (len - half - 1)
              else lower_bound xs v first half)"
  by pat_completeness auto

termination lower_bound
  by (relation "measure (\<lambda>(xs, v, first, len). len)") auto

declare lower_bound.simps [simp del]

definition binary_search :: "'a :: linorder list \<Rightarrow> 'a \<Rightarrow> bool" where
  "binary_search xs v =
     (let i = lower_bound xs v 0 (length xs) in i \<noteq> length xs \<and> \<not> v < xs ! i)"

definition PartScope_Contains :: "part_scope \<Rightarrow> part_id \<Rightarrow> bool" where
  "PartScope_Contains s part = (if ps_kind s = kAll then True else binary_search (ps_parts s) part)"

section \<open>Ranges and read specifications\<close>

record entity_range =
  rg_min :: "u64 option"
  rg_max_exclusive :: "u64 option"

text \<open>A comparison of two optional bounds that applies only when both are given.\<close>

definition both :: "('a \<Rightarrow> 'a \<Rightarrow> bool) \<Rightarrow> 'a option \<Rightarrow> 'a option \<Rightarrow> bool" where
  "both r a b = (case (a, b) of (Some x, Some y) \<Rightarrow> r x y | _ \<Rightarrow> False)"

definition EntityRange_Validate :: "entity_range \<Rightarrow> status" where
  "EntityRange_Validate r =
     (if both (\<ge>) (rg_min r) (rg_max_exclusive r)
      then InvalidArgument ''entity range'' ''min must be less than max_exclusive'' else OK)"

record commit_seq_range =
  cr_from :: commit_seq
  cr_to :: commit_seq

definition CommitSeqRange_Validate :: "commit_seq_range \<Rightarrow> status" where
  "CommitSeqRange_Validate r =
     (if cr_from r > cr_to r
      then InvalidArgument ''transaction time range'' ''from must not exceed to'' else OK)"

definition CommitSeqRange_Contains :: "commit_seq_range \<Rightarrow> commit_seq \<Rightarrow> bool" where
  "CommitSeqRange_Contains r s \<longleftrightarrow> s \<ge> cr_from r \<and> s \<le> cr_to r"

text \<open>A projection column by the number of its enumerator; the memory budget is not part of the data.\<close>

type_synonym fact_column_id = u8

record fact_read_spec =
  fs_part_scope :: part_scope
  fs_family :: fact_family
  fs_property :: property_id
  fs_entity_range :: entity_range
  fs_valid_from_min :: "valid_time option"
  fs_valid_from_max :: "valid_time option"
  fs_commit_seq_min :: "commit_seq option"
  fs_commit_seq_max :: "commit_seq option"
  fs_preserve_predecessor :: bool
  fs_projection :: "fact_column_id list"
  fs_batch_row_limit :: u32
  fs_max_rows :: "u64 option"

fun check_projection :: "fact_column_id set \<Rightarrow> fact_column_id list \<Rightarrow> status" where
  "check_projection seen [] = OK"
| "check_projection seen (c # cs) =
     (if c \<in> seen then InvalidArgument ''fact read spec'' ''duplicate projection column''
      else check_projection (insert c seen) cs)"

definition FactReadSpec_Validate :: "fact_read_spec \<Rightarrow> status" where
  "FactReadSpec_Validate s =
     sbind (PartScope_Validate (fs_part_scope s)) (\<lambda>_.
     sbind (EntityRange_Validate (fs_entity_range s)) (\<lambda>_.
       if fs_batch_row_limit s = 0
       then InvalidArgument ''fact read spec'' ''zero batch row limit''
       else if both (>) (fs_valid_from_min s) (fs_valid_from_max s)
       then InvalidArgument ''fact read spec'' ''reversed valid-time range''
       else if both (>) (fs_commit_seq_min s) (fs_commit_seq_max s)
       then InvalidArgument ''fact read spec'' ''reversed commit range''
       else check_projection {} (fs_projection s)))"

record canonical_state_read_spec =
  cs_facts :: fact_read_spec
  cs_valid_time :: valid_time
  cs_snapshot_seq :: commit_seq
  cs_max_rows :: "u64 option"

record canonical_state_row =
  row_ref :: fact_ref
  row_effective :: valid_time_interval
  row_commit_seq :: commit_seq
  row_value :: "val option"

record execution_scope =
  es_part_scope :: part_scope
  es_system_time_as_of :: "commit_seq option"
  es_system_time_range :: "commit_seq_range option"
  es_valid_time :: "valid_time_interval option"
  es_graph :: bytes
  es_snapshot_seq :: commit_seq

definition ExecutionScope_Validate :: "execution_scope \<Rightarrow> status" where
  "ExecutionScope_Validate s =
     sbind (PartScope_Validate (es_part_scope s)) (\<lambda>_.
     sbind (case es_valid_time s of None \<Rightarrow> OK | Some i \<Rightarrow> ValidTimeInterval_Validate i) (\<lambda>_.
       if es_system_time_as_of s \<noteq> None \<and> es_system_time_range s \<noteq> None
       then InvalidArgument ''execution scope'' ''system-time as-of and range are exclusive''
       else if es_snapshot_seq s \<noteq> 0 \<and> both (>) (es_system_time_as_of s) (Some (es_snapshot_seq s))
       then InvalidArgument ''execution scope'' ''system time exceeds snapshot''
       else case es_system_time_range s of
              None \<Rightarrow> OK
            | Some r \<Rightarrow>
                sbind (CommitSeqRange_Validate r) (\<lambda>_.
                  if es_snapshot_seq s \<noteq> 0 \<and> cr_from r > es_snapshot_seq s
                  then InvalidArgument ''execution scope'' ''system-time range starts after snapshot''
                  else OK)))"

section \<open>Typed parameter bindings\<close>

datatype query_type =
    QBool | QInt32 | QInt64 | QFloat32 | QFloat64 | QTimestamp64 | QString | QBinary
  | QVertexRef | QEdgeRef | QValidTime | QValidDuration | QCommitSeq | QValidTimeInterval
  | QPath | QJourney

datatype bound_value =
    BVValue val | BVVertexRef vertex_ref | BVEdgeRef edge_ref | BVValidTime valid_time
  | BVValidDuration u64 | BVCommitSeq commit_seq | BVValidTimeInterval valid_time_interval

type_synonym parameter_id = u32

record binding =
  bi_parameter :: parameter_id
  bi_type :: query_type
  bi_value :: bound_value

type_synonym bindings = "binding list"

fun QueryTypeFor :: "physical_type \<Rightarrow> query_type option" where
  "QueryTypeFor kBool = Some QBool"
| "QueryTypeFor kInt32 = Some QInt32"
| "QueryTypeFor kInt64 = Some QInt64"
| "QueryTypeFor kFloat32 = Some QFloat32"
| "QueryTypeFor kFloat64 = Some QFloat64"
| "QueryTypeFor kTimestamp64 = Some QTimestamp64"
| "QueryTypeFor kString = Some QString"
| "QueryTypeFor kBinary = Some QBinary"
| "QueryTypeFor _ = None"

text \<open>
  The private \<^verbatim>\<open>Bind\<close>, which stores. \<^verbatim>\<open>BindTypedValue\<close> is a function outside the class, so its
  call \<^verbatim>\<open>bindings->Bind(parameter, expected, value)\<close> resolves to the public overload for the type
  of the value, the one that called it: that call is an argument here, and the public
  \<^verbatim>\<open>Bind\<close> is a partial function, whose value \<open>None\<close> means that it does not return.
\<close>

definition Bind_store :: "bindings \<Rightarrow> parameter_id \<Rightarrow> query_type \<Rightarrow> bound_value \<Rightarrow> status \<times> bindings" where
  "Bind_store bs p type value =
     (if find (\<lambda>b. bi_parameter b = p) bs \<noteq> None
      then (BindError ''parameter is bound more than once'' '''', bs)
      else (OK, bs @ [\<lparr>bi_parameter = p, bi_type = type, bi_value = value\<rparr>]))"

definition BindTypedValue ::
  "bindings \<Rightarrow> query_type \<Rightarrow> query_type \<Rightarrow> (status \<times> bindings) option \<Rightarrow> (status \<times> bindings) option" where
  "BindTypedValue bs expected actual call =
     (if expected \<noteq> actual
      then Some (BindError ''parameter value type differs from parameter type'' '''', bs)
      else call)"

lemma BindTypedValue_mono [partial_function_mono]:
  "mono_option F \<Longrightarrow> mono_option (\<lambda>f. BindTypedValue bs expected actual (F f))"
  unfolding BindTypedValue_def by (cases "expected = actual") (simp_all add: option.const_mono)

partial_function (option) Bind ::
  "bound_value \<Rightarrow> bindings \<Rightarrow> parameter_id \<Rightarrow> query_type \<Rightarrow> (status \<times> bindings) option" where
  "Bind value bs p type =
     (case value of
        BVValue v \<Rightarrow>
          if QueryTypeFor (val_type v) = None \<or> Some type \<noteq> QueryTypeFor (val_type v)
          then Some (BindError ''parameter value type differs from parameter type'' '''', bs)
          else Some (Bind_store bs p type (BVValue v))
      | BVVertexRef r \<Rightarrow> BindTypedValue bs type QVertexRef (Bind (BVVertexRef r) bs p type)
      | BVEdgeRef r \<Rightarrow> BindTypedValue bs type QEdgeRef (Bind (BVEdgeRef r) bs p type)
      | BVValidTime t \<Rightarrow> BindTypedValue bs type QValidTime (Bind (BVValidTime t) bs p type)
      | BVValidDuration d \<Rightarrow> BindTypedValue bs type QValidDuration (Bind (BVValidDuration d) bs p type)
      | BVCommitSeq c \<Rightarrow> BindTypedValue bs type QCommitSeq (Bind (BVCommitSeq c) bs p type)
      | BVValidTimeInterval i \<Rightarrow> BindTypedValue bs type QValidTimeInterval (Bind (BVValidTimeInterval i) bs p type))"

definition LookupBorrowed :: "bindings \<Rightarrow> parameter_id \<Rightarrow> query_type \<Rightarrow> bound_value status_or" where
  "LookupBorrowed bs p type =
     (case find (\<lambda>b. bi_parameter b = p) bs of
        None \<Rightarrow> BindError ''parameter is not bound'' ''''
      | Some b \<Rightarrow>
          if bi_type b \<noteq> type
          then BindError ''parameter value type differs from parameter type'' ''''
          else Inr (bi_value b))"

definition Bindings_Lookup :: "bindings \<Rightarrow> parameter_id \<Rightarrow> query_type \<Rightarrow> bound_value status_or" where
  "Bindings_Lookup bs p type = sbind (LookupBorrowed bs p type) Inr"

section \<open>Scopes and ranges mean what they say\<close>

lemma adjacent_find_sorted: "sorted xs \<Longrightarrow> \<not> adjacent_find xs \<longleftrightarrow> distinct xs"
  by (induction xs rule: adjacent_find.induct) auto

lemma sorted_distinct_remdups_adj: "sorted xs \<Longrightarrow> distinct (remdups_adj xs)"
  by (induction xs rule: remdups_adj.induct) auto

lemma sort_Nil_iff: "sort xs = [] \<longleftrightarrow> xs = []"
  by (metis length_0_conv length_sort)

lemma PartScope_Validate_iff:
  "PartScope_Validate s = OK \<longleftrightarrow>
     (if ps_kind s = kAll then ps_parts s = []
      else ps_parts s \<noteq> [] \<and> sorted (ps_parts s) \<and> distinct (ps_parts s) \<and>
           (ps_kind s = kExact \<longrightarrow> length (ps_parts s) = 1))"
  using adjacent_find_sorted [of "ps_parts s"] by (auto simp: PartScope_Validate_def)

text \<open>
  The halving loop finds the first position of the searched part whose element is not
  smaller, when the elements before \<open>first\<close> are smaller and those behind the range are not.
\<close>

lemma lower_bound_correct:
  "sorted xs \<Longrightarrow> first + len \<le> length xs \<Longrightarrow> \<forall>i < first. xs ! i < v \<Longrightarrow>
   \<forall>i. first + len \<le> i \<and> i < length xs \<longrightarrow> \<not> xs ! i < v \<Longrightarrow>
   lower_bound xs v first len \<le> length xs \<and> (\<forall>i < lower_bound xs v first len. xs ! i < v) \<and>
   (\<forall>i. lower_bound xs v first len \<le> i \<and> i < length xs \<longrightarrow> \<not> xs ! i < v)"
proof (induction xs v first len rule: lower_bound.induct)
  case (1 xs v first len)
  show ?case
  proof (cases "len = 0")
    case True
    with "1.prems" show ?thesis by (simp add: lower_bound.simps)
  next
    case False
    let ?m = "first + len div 2"
    have m: "?m < length xs" using False "1.prems"(2) by linarith
    show ?thesis
    proof (cases "xs ! ?m < v")
      case True
      have "\<forall>i < ?m + 1. xs ! i < v"
        using True m sorted_nth_mono [OF "1.prems"(1)] by (metis Suc_eq_plus1 le_less_trans less_Suc_eq_le)
      with "1.IH"(1) [OF False refl refl True "1.prems"(1)] "1.prems" False True show ?thesis
        by (simp add: lower_bound.simps [of xs v first len] Let_def)
    next
      case no: False
      have "\<forall>i. ?m \<le> i \<and> i < length xs \<longrightarrow> \<not> xs ! i < v"
        using no sorted_nth_mono [OF "1.prems"(1), of ?m] by (meson not_less order_trans)
      with "1.IH"(2) [OF False refl refl no "1.prems"(1)] "1.prems" False no show ?thesis
        by (simp add: lower_bound.simps [of xs v first len] Let_def)
    qed
  qed
qed

lemma binary_search_iff:
  assumes s: "sorted xs"
  shows "binary_search xs v \<longleftrightarrow> v \<in> set xs"
proof -
  let ?i = "lower_bound xs v 0 (length xs)"
  have "?i \<le> length xs \<and> (\<forall>j < ?i. xs ! j < v) \<and> (\<forall>j. ?i \<le> j \<and> j < length xs \<longrightarrow> \<not> xs ! j < v)"
    by (rule lower_bound_correct [OF s]) (simp_all add: linorder_not_less [symmetric])
  then have i: "?i \<le> length xs" "\<forall>j < ?i. xs ! j < v" "\<forall>j. ?i \<le> j \<and> j < length xs \<longrightarrow> \<not> xs ! j < v"
    by blast+
  have "v \<in> set xs" if "binary_search xs v"
  proof -
    have "?i < length xs" "\<not> v < xs ! ?i" using that i(1) by (auto simp: binary_search_def Let_def)
    with i(3) have "xs ! ?i = v" by (meson le_refl antisym_conv3)
    with \<open>?i < length xs\<close> show ?thesis by (metis nth_mem)
  qed
  moreover have "binary_search xs v" if "v \<in> set xs"
  proof -
    from that obtain j where j: "j < length xs" "xs ! j = v" by (auto simp: in_set_conv_nth)
    with i(2) have "?i \<le> j" by (meson less_irrefl not_le)
    with j sorted_nth_mono [OF s this] show ?thesis by (auto simp: binary_search_def Let_def)
  qed
  ultimately show ?thesis by blast
qed

lemma check_projection_iff: "check_projection seen cs = OK \<longleftrightarrow> distinct cs \<and> set cs \<inter> seen = {}"
  by (induction seen cs rule: check_projection.induct) auto

lemma FactReadSpec_Validate_iff:
  "FactReadSpec_Validate s = OK \<longleftrightarrow>
     PartScope_Validate (fs_part_scope s) = OK \<and> EntityRange_Validate (fs_entity_range s) = OK \<and>
     fs_batch_row_limit s \<noteq> 0 \<and> \<not> both (>) (fs_valid_from_min s) (fs_valid_from_max s) \<and>
     \<not> both (>) (fs_commit_seq_min s) (fs_commit_seq_max s) \<and> distinct (fs_projection s)"
  by (auto simp: FactReadSpec_Validate_def sbind_Inr_iff check_projection_iff)

section \<open>Bindings are typed\<close>

definition value_type :: "bound_value \<Rightarrow> query_type \<Rightarrow> bool" where
  "value_type v t \<longleftrightarrow>
     (case v of BVValue w \<Rightarrow> QueryTypeFor (val_type w) = Some t | BVVertexRef _ \<Rightarrow> t = QVertexRef
      | BVEdgeRef _ \<Rightarrow> t = QEdgeRef | BVValidTime _ \<Rightarrow> t = QValidTime
      | BVValidDuration _ \<Rightarrow> t = QValidDuration | BVCommitSeq _ \<Rightarrow> t = QCommitSeq
      | BVValidTimeInterval _ \<Rightarrow> t = QValidTimeInterval)"

definition scalar :: "bound_value \<Rightarrow> bool" where
  "scalar v \<longleftrightarrow> (case v of BVValue _ \<Rightarrow> True | _ \<Rightarrow> False)"

text \<open>A typed overload whose type matches calls itself again, so no returned result is possible.\<close>

lemma Bind_diverges:
  assumes "\<not> scalar v" "value_type v t"
  shows "Bind v bs p t = None"
proof (rule ccontr)
  assume "Bind v bs p t \<noteq> None"
  then obtain r where r: "Bind v bs p t = Some r" by blast
  have "scalar v \<or> \<not> value_type v t"
  proof (rule Bind.raw_induct [where P = "\<lambda>v bs p t r. scalar v \<or> \<not> value_type v t", OF _ r])
    fix f :: "bound_value \<Rightarrow> bindings \<Rightarrow> parameter_id \<Rightarrow> query_type \<Rightarrow> (status \<times> bindings) option" and v bs p t r
    assume IH: "\<And>v bs p t r. f v bs p t = Some r \<Longrightarrow> scalar v \<or> \<not> value_type v t"
    assume "(case v of
        BVValue v \<Rightarrow>
          if QueryTypeFor (val_type v) = None \<or> Some t \<noteq> QueryTypeFor (val_type v)
          then Some (BindError ''parameter value type differs from parameter type'' '''', bs)
          else Some (Bind_store bs p t (BVValue v))
      | BVVertexRef r \<Rightarrow> BindTypedValue bs t QVertexRef (f (BVVertexRef r) bs p t)
      | BVEdgeRef r \<Rightarrow> BindTypedValue bs t QEdgeRef (f (BVEdgeRef r) bs p t)
      | BVValidTime t' \<Rightarrow> BindTypedValue bs t QValidTime (f (BVValidTime t') bs p t)
      | BVValidDuration d \<Rightarrow> BindTypedValue bs t QValidDuration (f (BVValidDuration d) bs p t)
      | BVCommitSeq c \<Rightarrow> BindTypedValue bs t QCommitSeq (f (BVCommitSeq c) bs p t)
      | BVValidTimeInterval i \<Rightarrow> BindTypedValue bs t QValidTimeInterval (f (BVValidTimeInterval i) bs p t)) = Some r"
    then show "scalar v \<or> \<not> value_type v t"
      using IH [of v bs p t r] by (cases v) (auto simp: scalar_def value_type_def BindTypedValue_def split: if_splits)
  qed
  with assms show False by blast
qed

lemma Bind_iff:
  "Bind v bs p t =
     (if \<not> value_type v t
      then Some (BindError ''parameter value type differs from parameter type'' '''', bs)
      else if scalar v then Some (Bind_store bs p t v)
      else None)"
proof (cases "scalar v \<or> \<not> value_type v t")
  case True
  then show ?thesis
    by (subst Bind.simps) (cases v; auto simp: scalar_def value_type_def BindTypedValue_def)
qed (simp add: Bind_diverges)

text \<open>The bindings a program can build: successive calls of \<^verbatim>\<open>Bind\<close> that return.\<close>

fun bind_all :: "bindings \<Rightarrow> (parameter_id \<times> query_type \<times> bound_value) list \<Rightarrow> bindings option" where
  "bind_all bs [] = Some bs"
| "bind_all bs ((p, t, v) # calls) = Option.bind (Bind v bs p t) (\<lambda>(_, bs'). bind_all bs' calls)"

definition bindings_ok :: "bindings \<Rightarrow> bool" where
  "bindings_ok bs \<longleftrightarrow> distinct (map bi_parameter bs) \<and> (\<forall>b \<in> set bs. value_type (bi_value b) (bi_type b))"

lemma find_parameter_None: "find (\<lambda>b. bi_parameter b = p) bs = None \<longleftrightarrow> p \<notin> bi_parameter ` set bs"
  by (auto simp: find_None_iff)

lemma Bind_ok: "bindings_ok bs \<Longrightarrow> Bind v bs p t = Some (r, bs') \<Longrightarrow> bindings_ok bs'"
  by (auto simp: Bind_iff Bind_store_def bindings_ok_def find_parameter_None split: if_splits)

lemma bind_all_ok: "bindings_ok bs \<Longrightarrow> bind_all bs calls = Some bs' \<Longrightarrow> bindings_ok bs'"
  by (induction bs calls rule: bind_all.induct) (auto simp: Bind_ok Option.bind_eq_Some_conv)

lemma Lookup_find:
  "Bindings_Lookup bs p t = Inr v \<longleftrightarrow>
     (\<exists>b. find (\<lambda>b. bi_parameter b = p) bs = Some b \<and> bi_type b = t \<and> bi_value b = v)"
  by (auto simp: Bindings_Lookup_def LookupBorrowed_def split: option.splits)

lemma find_distinct:
  "distinct (map f xs) \<Longrightarrow> find (\<lambda>x. f x = k) xs = Some y \<longleftrightarrow> y \<in> set xs \<and> f y = k"
  by (induction xs) auto

lemma binding_eta [simp]: "\<lparr>bi_parameter = bi_parameter b, bi_type = bi_type b, bi_value = bi_value b\<rparr> = b"
  by (cases b) simp

lemma Lookup_mem:
  "bindings_ok bs \<Longrightarrow>
   Bindings_Lookup bs p t = Inr v \<longleftrightarrow> \<lparr>bi_parameter = p, bi_type = t, bi_value = v\<rparr> \<in> set bs"
  by (auto simp: Lookup_find find_distinct bindings_ok_def)

section \<open>Properties\<close>

text \<open>
  A scope built by \<^verbatim>\<open>PartScope::Set\<close> from a non-empty list is valid, contains exactly the
  listed parts, and every valid scope answers \<^verbatim>\<open>Contains\<close> by membership: the binary search
  over the sorted parts never misses one and never invents one.
\<close>

theorem part_scope_membership:
  "(PartScope_Validate (PartScope_Set parts) = OK \<longleftrightarrow> parts \<noteq> []) \<and>
   (PartScope_Contains (PartScope_Set parts) p \<longleftrightarrow> p \<in> set parts) \<and>
   (PartScope_Validate s = OK \<longrightarrow> (PartScope_Contains s p \<longleftrightarrow> ps_kind s = kAll \<or> p \<in> set (ps_parts s)))"
  by (auto simp: PartScope_Validate_iff PartScope_Contains_def PartScope_Set_def binary_search_iff
      sorted_remdups_adj sorted_distinct_remdups_adj sort_Nil_iff)

theorem part_scope_membership_witness:
  "PartScope_Contains \<lparr>ps_kind = kSet, ps_parts = [2, 5, 9]\<rparr> 5 \<and>
   \<not> PartScope_Contains \<lparr>ps_kind = kSet, ps_parts = [2, 5, 9]\<rparr> 6"
  using part_scope_membership [of "[]" 5 "\<lparr>ps_kind = kSet, ps_parts = [2, 5, 9]\<rparr>"]
    part_scope_membership [of "[]" 6 "\<lparr>ps_kind = kSet, ps_parts = [2, 5, 9]\<rparr>"]
  by (simp add: PartScope_Validate_def)

text \<open>
  C38: what binding parameters does, however a program has bound them. A lookup only ever
  returns a value of the requested type. A call with a value of another type than declared is
  refused and changes nothing. A call with a scalar value of the declared type returns, and
  succeeds exactly when the parameter is free; it then adds that one answer to the lookups and
  changes no other. A call with a reference, time, duration, sequence or interval of the
  declared type never returns, since its overload calls itself.
\<close>

theorem bindings_typed:
  assumes "bind_all [] calls = Some bs"
  shows "(Bindings_Lookup bs p t = Inr v \<longrightarrow> value_type v t) \<and>
    (\<not> value_type v t \<longrightarrow>
       Bind v bs p t = Some (BindError ''parameter value type differs from parameter type'' '''', bs)) \<and>
    (value_type v t \<and> scalar v \<longrightarrow>
       (\<exists>result bs'. Bind v bs p t = Some (result, bs') \<and>
          (result = OK \<longleftrightarrow> (\<forall>t' v'. Bindings_Lookup bs p t' \<noteq> Inr v')) \<and>
          (\<forall>q t' v'. Bindings_Lookup bs' q t' = Inr v' \<longleftrightarrow>
             Bindings_Lookup bs q t' = Inr v' \<or> result = OK \<and> q = p \<and> t' = t \<and> v' = v))) \<and>
    (value_type v t \<and> \<not> scalar v \<longrightarrow> Bind v bs p t = None)"
proof -
  have bs_ok: "bindings_ok bs" by (rule bind_all_ok [OF _ assms]) (simp add: bindings_ok_def)
  have "value_type v t" if "Bindings_Lookup bs p t = Inr v"
    using that bs_ok by (fastforce simp: Lookup_mem bindings_ok_def)
  moreover have "\<exists>result bs'. Bind v bs p t = Some (result, bs') \<and>
      (result = OK \<longleftrightarrow> (\<forall>t' v'. Bindings_Lookup bs p t' \<noteq> Inr v')) \<and>
      (\<forall>q t' v'. Bindings_Lookup bs' q t' = Inr v' \<longleftrightarrow>
         Bindings_Lookup bs q t' = Inr v' \<or> result = OK \<and> q = p \<and> t' = t \<and> v' = v)"
    if "value_type v t" "scalar v"
  proof -
    obtain result bs' where stored: "Bind_store bs p t v = (result, bs')" by fastforce
    then have call: "Bind v bs p t = Some (result, bs')" using that by (simp add: Bind_iff)
    have "find (\<lambda>b. bi_parameter b = p) bs = None \<longleftrightarrow> (\<forall>t' v'. Bindings_Lookup bs p t' \<noteq> Inr v')"
      by (cases "find (\<lambda>b. bi_parameter b = p) bs") (auto simp: Lookup_find)
    then have "result = OK \<longleftrightarrow> (\<forall>t' v'. Bindings_Lookup bs p t' \<noteq> Inr v')"
      using stored by (auto simp: Bind_store_def split: if_splits)
    moreover have "Bindings_Lookup bs' q t' = Inr v' \<longleftrightarrow>
        Bindings_Lookup bs q t' = Inr v' \<or> result = OK \<and> q = p \<and> t' = t \<and> v' = v" for q t' v'
      unfolding Lookup_mem [OF bs_ok] Lookup_mem [OF Bind_ok [OF bs_ok call]]
      using stored by (auto simp: Bind_store_def split: if_splits)
    ultimately show ?thesis using call by blast
  qed
  ultimately show ?thesis by (simp add: Bind_iff)
qed

theorem bindings_typed_witness:
  "Bind (BVValue (VInt64 7)) [] 1 QInt64 = Some (OK, [\<lparr>bi_parameter = 1, bi_type = QInt64, bi_value = BVValue (VInt64 7)\<rparr>]) \<and>
   Bind (BVValidTime 5) [] 1 QValidTime = None"
  using bindings_typed [of "[]" "[]" 1 QValidTime "BVValidTime 5"] bindings_typed [of "[]" "[]" 1 QInt64 "BVValue (VInt64 7)"]
  by (simp add: value_type_def scalar_def Bind_iff Bind_store_def)

end
