(* ===== verification/State_Reader.thy ===== *)
theory State_Reader
  imports Corrected_Chain Read_Spec
begin

text \<open>
  \<^verbatim>\<open>src/src/query/temporal/state_reader.cc\<close> and the \<^verbatim>\<open>ReadStateRows\<close> of
  \<^verbatim>\<open>src/src/kernel/snapshot.cc\<close> that drives it: the stream that turns the identity-contiguous
  events of a canonical scan into the state rows visible at one valid time, in batches, up to
  a row limit. The visitor is a parameter, a function of its own captured state; the read has
  no memory budget (\<^verbatim>\<open>read_memory\<close> null), so that every reservation succeeds.
\<close>

section \<open>The stream\<close>

record 'w state_row_stream =
  st_spec :: canonical_state_read_spec
  st_events :: "fact_event list"
  st_ref :: "fact_ref option"
  st_output :: "canonical_state_row list"
  st_emitted :: u64
  st_limit :: bool
  st_finished :: bool
  st_world :: 'w

type_synonym 'w row_visitor = "'w \<Rightarrow> canonical_state_row list \<Rightarrow> status \<times> 'w"

definition StateRowStream_init :: "canonical_state_read_spec \<Rightarrow> 'w \<Rightarrow> 'w state_row_stream" where
  "StateRowStream_init spec w =
     \<lparr>st_spec = spec, st_events = [], st_ref = None, st_output = [], st_emitted = 0,
      st_limit = False, st_finished = False, st_world = w\<rparr>"

definition Contains :: "valid_time_interval \<Rightarrow> valid_time \<Rightarrow> bool" where
  "Contains i t \<longleftrightarrow> vi_from i \<le> t \<and> (vi_to i = None \<or> t < the (vi_to i))"

definition BoundaryCommit :: "corrected_boundary list \<Rightarrow> valid_time \<Rightarrow> commit_seq \<Rightarrow> commit_seq" where
  "BoundaryCommit bs from fallback =
     (case find (\<lambda>b. bd_valid_from b = from) bs of Some b \<Rightarrow> bd_commit_seq b | None \<Rightarrow> fallback)"

definition FlushOutput :: "'w row_visitor \<Rightarrow> 'w state_row_stream \<Rightarrow> status \<times> 'w state_row_stream" where
  "FlushOutput visit s =
     (if st_output s = [] then (OK, s)
      else case visit (st_world s) (st_output s) of
             (status, w) \<Rightarrow>
               and_then (status, s\<lparr>st_world := w\<rparr>) (\<lambda>s.
                 (OK, s\<lparr>st_emitted := st_emitted s + of_nat (length (st_output s)),
                        st_output := []\<rparr>)))"

definition max_rows_reached :: "status \<times> 'w state_row_stream \<Rightarrow> status \<times> 'w state_row_stream" where
  "max_rows_reached r =
     and_then r (\<lambda>s. (QueryCancelled ''canonical reader'' ''state max_rows reached'', s\<lparr>st_limit := True\<rparr>))"

definition state_row ::
  "canonical_state_read_spec \<Rightarrow> fact_ref \<Rightarrow> corrected_boundary list \<Rightarrow> state_interval \<Rightarrow> canonical_state_row" where
  "state_row spec ref bs i =
     \<lparr>row_ref = ref, row_effective = iv_interval i,
      row_commit_seq = BoundaryCommit bs (vi_from (iv_interval i)) (cs_snapshot_seq spec),
      row_value = iv_value i\<rparr>"

text \<open>The loop of \<^verbatim>\<open>FlushCurrent\<close> over the present intervals.\<close>

fun flush_rows ::
  "'w row_visitor \<Rightarrow> corrected_boundary list \<Rightarrow> state_interval list \<Rightarrow> 'w state_row_stream
   \<Rightarrow> status \<times> 'w state_row_stream" where
  "flush_rows visit bs [] s = (OK, s)"
| "flush_rows visit bs (i # is) s =
     (let spec = st_spec s in
      if \<not> Contains (iv_interval i) (cs_valid_time spec) then flush_rows visit bs is s
      else if (case cs_max_rows spec of None \<Rightarrow> False
               | Some m \<Rightarrow> st_emitted s \<ge> m \<or> length (st_output s) \<ge> unat (m - st_emitted s))
      then max_rows_reached (OK, s)
      else let s = s\<lparr>st_output := st_output s @ [state_row spec (the (st_ref s)) bs i]\<rparr>
           in if (case cs_max_rows spec of None \<Rightarrow> False
                  | Some m \<Rightarrow> length (st_output s) \<ge> unat (m - st_emitted s))
              then max_rows_reached (FlushOutput visit s)
              else if length (st_output s) \<ge> unat (fs_batch_row_limit (cs_facts spec))
              then and_then (FlushOutput visit s) (\<lambda>s. flush_rows visit bs is s)
              else flush_rows visit bs is s)"

definition FlushCurrent :: "'w row_visitor \<Rightarrow> 'w state_row_stream \<Rightarrow> status \<times> 'w state_row_stream" where
  "FlushCurrent visit s =
     (if st_events s = [] then (OK, s)
      else case ResolveCorrectedBoundaries (st_events s) (cs_snapshot_seq (st_spec s)) of
             Inl e \<Rightarrow> (Inl e, s)
           | Inr bs \<Rightarrow> and_then (flush_rows visit bs (MaterializePresentState bs) s)
                        (\<lambda>s. (OK, s\<lparr>st_events := []\<rparr>)))"

fun consume_events ::
  "'w row_visitor \<Rightarrow> fact_event list \<Rightarrow> 'w state_row_stream \<Rightarrow> status \<times> 'w state_row_stream" where
  "consume_events visit [] s = (OK, s)"
| "consume_events visit (e # es) s =
     (let s = (if st_ref s = None then s\<lparr>st_ref := Some (ev_ref e)\<rparr> else s) in
      and_then (if st_ref s \<noteq> Some (ev_ref e)
                then and_then (FlushCurrent visit s) (\<lambda>s. (OK, s\<lparr>st_ref := Some (ev_ref e)\<rparr>))
                else (OK, s))
        (\<lambda>s. consume_events visit es (s\<lparr>st_events := st_events s @ [e]\<rparr>)))"

definition Consume ::
  "'w row_visitor \<Rightarrow> fact_event list \<Rightarrow> 'w state_row_stream \<Rightarrow> status \<times> 'w state_row_stream" where
  "Consume visit batch s =
     (if st_finished s then (InvalidArgument ''state row stream'' ''already finished'', s)
      else if st_limit s then (QueryCancelled ''canonical reader'' ''state max_rows reached'', s)
      else consume_events visit batch s)"

definition Finish :: "'w row_visitor \<Rightarrow> 'w state_row_stream \<Rightarrow> status \<times> 'w state_row_stream" where
  "Finish visit s =
     (if st_finished s then (InvalidArgument ''state row stream'' ''already finished'', s)
      else let s = s\<lparr>st_finished := True\<rparr> in
        if st_limit s then (OK, s)
        else case FlushCurrent visit s of
               (status, s) \<Rightarrow>
                 if has_code kQueryCancelled status \<and> st_limit s then (OK, s)
                 else and_then (status, s) (FlushOutput visit))"

section \<open>A complete read\<close>

text \<open>
  \<^verbatim>\<open>Snapshot::State::ReadStateRows\<close>. The event scan is a parameter: the batches it hands to its
  visitor, one after the other until the visitor's status is not OK, and the status with which
  it ends if the visitor never stops it.
\<close>

fun scan_events ::
  "'w row_visitor \<Rightarrow> fact_event list list \<Rightarrow> status \<Rightarrow> 'w state_row_stream \<Rightarrow> status \<times> 'w state_row_stream" where
  "scan_events visit [] final s = (final, s)"
| "scan_events visit (b # bs) final s = and_then (Consume visit b s) (scan_events visit bs final)"

definition ReadStateRows ::
  "commit_seq \<Rightarrow> fact_event list list \<Rightarrow> status \<Rightarrow> canonical_state_read_spec \<Rightarrow> 'w row_visitor \<Rightarrow> 'w
   \<Rightarrow> status \<times> 'w" where
  "ReadStateRows snapshot batches final spec visit w =
     (case FactReadSpec_Validate (cs_facts spec) of
        Inl e \<Rightarrow> (Inl e, w)
      | Inr _ \<Rightarrow>
          if cs_snapshot_seq spec > snapshot \<and> cs_snapshot_seq spec \<noteq> 0
          then (InvalidArgument ''canonical reader'' ''requested sequence exceeds snapshot'', w)
          else if cs_max_rows spec = Some 0 then (OK, w)
          else case scan_events visit batches final (StateRowStream_init spec w) of
                 (status, s) \<Rightarrow>
                   if has_code kQueryCancelled status \<and> st_limit s then (OK, st_world s)
                   else if status \<noteq> OK then (status, st_world s)
                   else case Finish visit s of (status, s) \<Rightarrow> (status, st_world s))"

section \<open>The rows a read should deliver\<close>

text \<open>The maximal runs of events of one fact, and the rows of one fact's history.\<close>

function runs :: "fact_event list \<Rightarrow> fact_event list list" where
  "runs [] = []"
| "runs (e # es) =
     (let same = (\<lambda>f. ev_ref f = ev_ref e) in (e # takeWhile same es) # runs (dropWhile same es))"
  by pat_completeness auto

termination runs
  by (relation "measure length") (auto simp: le_imp_less_Suc length_dropWhile_le)

definition chain_rows :: "canonical_state_read_spec \<Rightarrow> fact_event list \<Rightarrow> canonical_state_row list" where
  "chain_rows spec es =
     (case ResolveCorrectedBoundaries es (cs_snapshot_seq spec) of
        Inl _ \<Rightarrow> []
      | Inr bs \<Rightarrow> map (state_row spec (ev_ref (hd es)) bs)
                    (filter (\<lambda>i. within (cs_valid_time spec) (iv_interval i)) (MaterializePresentState bs)))"

definition all_rows :: "canonical_state_read_spec \<Rightarrow> fact_event list \<Rightarrow> canonical_state_row list" where
  "all_rows spec es = concat (map (chain_rows spec) (runs es))"

definition limited :: "u64 option \<Rightarrow> 'a list \<Rightarrow> 'a list" where
  "limited m xs = (case m of None \<Rightarrow> xs | Some m \<Rightarrow> take (unat m) xs)"

text \<open>The visitor that records the batches it is given.\<close>

definition recorder :: "canonical_state_row list list row_visitor" where
  "recorder w rows = (OK, w @ [rows])"

lemma Contains_within: "Contains i t = within t i"
  by (auto simp: Contains_def within_def split: option.splits)

lemma runs_append:
  assumes "p \<noteq> []" "\<forall>f \<in> set p. ev_ref f = r" "ev_ref e \<noteq> r"
  shows "runs (p @ e # es) = p # runs (e # es)"
proof -
  obtain f p' where p: "p = f # p'" using assms(1) by (cases p) auto
  with assms have same: "\<forall>g \<in> set p'. ev_ref g = ev_ref f" "ev_ref e \<noteq> ev_ref f" by auto
  then have "takeWhile (\<lambda>g. ev_ref g = ev_ref f) (p' @ e # es) = p'"
    "dropWhile (\<lambda>g. ev_ref g = ev_ref f) (p' @ e # es) = e # es"
    by (simp_all add: takeWhile_append2 dropWhile_append2)
  then show ?thesis by (simp add: p Let_def del: runs.simps(2)) (subst runs.simps(2), simp add: Let_def)
qed

lemma runs_same: "p \<noteq> [] \<Longrightarrow> \<forall>f \<in> set p. ev_ref f = r \<Longrightarrow> runs p = [p]"
  by (cases p) (auto simp: Let_def takeWhile_eq_all_conv [THEN iffD2] dropWhile_eq_Nil_conv [THEN iffD2])

lemma chained_from:
  "chained (i # is) \<Longrightarrow> j \<in> set is \<Longrightarrow> \<exists>t. vi_to (iv_interval i) = Some t \<and> t \<le> vi_from (iv_interval j)"
proof (induction "is" arbitrary: i)
  case (Cons k ks)
  then obtain t where t: "vi_to (iv_interval i) = Some t" "t \<le> vi_from (iv_interval k)" "chained (k # ks)"
    by auto
  show ?case
  proof (cases "j \<in> set ks")
    case True
    with Cons.IH [OF t(3)] obtain t' where t': "vi_to (iv_interval k) = Some t'"
      "t' \<le> vi_from (iv_interval j)" by auto
    have "ValidTimeInterval_Validate (iv_interval k) = OK" using t(3) by (cases ks) auto
    with t t' show ?thesis by (auto simp: ValidTimeInterval_Validate_iff)
  qed (use Cons.prems t in auto)
qed simp

text \<open>At most one interval of a chained list contains a time, so a fact yields at most one row.\<close>

lemma chained_at_most_one: "chained is \<Longrightarrow> length (filter (\<lambda>i. within t (iv_interval i)) is) \<le> 1"
proof (induction "is")
  case (Cons i "is")
  show ?case
  proof (cases "within t (iv_interval i)")
    case True
    have "\<not> within t (iv_interval j)" if "j \<in> set is" for j
      using chained_from [OF Cons.prems that] True by (auto simp: within_def)
    then have "filter (\<lambda>i. within t (iv_interval i)) is = []" by (simp add: filter_empty_conv)
    with True show ?thesis by simp
  qed (use Cons chained_tail in auto)
qed simp

lemma chain_rows_le: "length (chain_rows spec es) \<le> 1"
proof (cases "ResolveCorrectedBoundaries es (cs_snapshot_seq spec)")
  case (Inr bs)
  have "chained (MaterializePresentState bs)"
    using Coalesce_chained [OF present_loop_chained [OF Resolve_sorted [OF Inr]]]
    by (simp add: MaterializePresentState_def)
  with Inr show ?thesis using chained_at_most_one by (simp add: chain_rows_def)
qed (simp add: chain_rows_def)

lemma length_runs: "length (runs es) \<le> length es"
proof (induction es rule: runs.induct)
  case (2 e es)
  then show ?case
    using length_dropWhile_le [of "\<lambda>f. ev_ref f = ev_ref e" es] by (simp add: Let_def)
qed simp

lemma all_rows_le: "length (all_rows spec es) \<le> length es"
proof -
  have "length (concat (map (chain_rows spec) gs)) \<le> length gs" for gs
  proof (induction gs)
    case (Cons g gs)
    then show ?case using chain_rows_le [of spec g] by simp
  qed simp
  from this [of "runs es"] show ?thesis unfolding all_rows_def using length_runs [of es] by linarith
qed

section \<open>What the stream has produced\<close>

type_synonym recording = "canonical_state_row list list state_row_stream"

definition produced :: "recording \<Rightarrow> canonical_state_row list" where
  "produced s = concat (st_world s) @ st_output s"

text \<open>
  Between calls: the counter is the number of delivered rows, a full batch has been
  delivered, delivered batches have an allowed size, and the limit has not been reached.
\<close>

definition batches_ok :: "recording \<Rightarrow> bool" where
  "batches_ok s \<longleftrightarrow>
     (\<forall>b \<in> set (st_world s). b \<noteq> [] \<and> length b \<le> unat (fs_batch_row_limit (cs_facts (st_spec s))))"

definition running :: "recording \<Rightarrow> bool" where
  "running s \<longleftrightarrow>
     st_emitted s = of_nat (length (concat (st_world s))) \<and> batches_ok s \<and> \<not> st_limit s \<and>
     length (st_output s) < unat (fs_batch_row_limit (cs_facts (st_spec s))) \<and>
     (case cs_max_rows (st_spec s) of None \<Rightarrow> True | Some m \<Rightarrow> length (produced s) < unat m)"

definition stopped :: "recording \<Rightarrow> bool" where
  "stopped s \<longleftrightarrow> batches_ok s \<and> st_limit s \<and> st_output s = []"

definition within_limit :: "u64 option \<Rightarrow> 'a list \<Rightarrow> bool" where
  "within_limit m xs \<longleftrightarrow> (case m of None \<Rightarrow> True | Some m \<Rightarrow> length xs < unat m)"

definition cancelled :: status where
  "cancelled = QueryCancelled ''canonical reader'' ''state max_rows reached''"

lemma produced_cong [simp]:
  "produced (s\<lparr>st_ref := r\<rparr>) = produced s" "produced (s\<lparr>st_events := es\<rparr>) = produced s"
  "produced (s\<lparr>st_finished := f\<rparr>) = produced s"
  by (simp_all add: produced_def)

lemma running_cong [simp]:
  "running (s\<lparr>st_ref := r\<rparr>) = running s" "running (s\<lparr>st_events := es\<rparr>) = running s"
  "running (s\<lparr>st_finished := f\<rparr>) = running s" "stopped (s\<lparr>st_events := es\<rparr>) = stopped s"
  "batches_ok (s\<lparr>st_finished := f\<rparr>) = batches_ok s"
  by (simp_all add: running_def stopped_def batches_ok_def split: option.split)

text \<open>The outcome of producing rows \<open>R\<close> from a running stream.\<close>

definition extends :: "recording \<Rightarrow> canonical_state_row list \<Rightarrow> status \<times> recording \<Rightarrow> bool" where
  "extends s R r \<longleftrightarrow>
     (case r of (status, s') \<Rightarrow>
        st_spec s' = st_spec s \<and> st_finished s' = st_finished s \<and> st_ref s' = st_ref s \<and>
        (if within_limit (cs_max_rows (st_spec s)) (produced s @ R)
         then status = OK \<and> running s' \<and> produced s' = produced s @ R
         else status = cancelled \<and> stopped s' \<and>
              produced s' = limited (cs_max_rows (st_spec s)) (produced s @ R)))"

lemma FlushOutput_running:
  assumes "batches_ok s" "st_emitted s = of_nat (length (concat (st_world s)))"
    "length (st_output s) \<le> unat (fs_batch_row_limit (cs_facts (st_spec s)))"
  obtains s' where "FlushOutput recorder s = (OK, s')" "st_spec s' = st_spec s"
    "st_finished s' = st_finished s" "st_events s' = st_events s" "st_ref s' = st_ref s"
    "st_limit s' = st_limit s" "batches_ok s'" "produced s' = produced s" "st_output s' = []"
    "st_emitted s' = of_nat (length (concat (st_world s')))"
proof -
  show ?thesis
  proof (cases "st_output s = []")
    case True
    with assms that [of s] show ?thesis by (simp add: FlushOutput_def)
  next
    case False
    let ?s = "s\<lparr>st_world := st_world s @ [st_output s],
               st_emitted := st_emitted s + of_nat (length (st_output s)), st_output := []\<rparr>"
    have "FlushOutput recorder s = (OK, ?s)" using False by (simp add: FlushOutput_def recorder_def)
    moreover have "batches_ok ?s" using assms False by (auto simp: batches_ok_def)
    ultimately show ?thesis using assms by (intro that [of ?s]) (simp_all add: produced_def)
  qed
qed

lemma room_left:
  assumes "running s" "cs_max_rows (st_spec s) = Some m"
  shows "st_emitted s < m"
    "unat (m - st_emitted s) \<le> k \<longleftrightarrow> unat m \<le> length (concat (st_world s)) + k"
proof -
  have len: "length (concat (st_world s)) < unat m"
    using assms by (simp add: running_def produced_def)
  moreover have "unat m < 18446744073709551616" using unsigned_less [of m] by simp
  ultimately have "length (concat (st_world s)) < 18446744073709551616" by linarith
  then have "unat (st_emitted s) = length (concat (st_world s))"
    using assms(1) by (simp add: running_def unat_of_nat_small del: length_concat)
  with len show "st_emitted s < m" by (simp add: word_less_nat_alt)
  with \<open>unat (st_emitted s) = _\<close> len
  show "unat (m - st_emitted s) \<le> k \<longleftrightarrow> unat m \<le> length (concat (st_world s)) + k"
    by (simp add: unat_sub less_imp_le le_diff_conv add.commute)
qed

lemma extends_trans:
  assumes "running s1" "st_spec s1 = st_spec s" "st_finished s1 = st_finished s" "st_ref s1 = st_ref s"
    "produced s1 = produced s @ R" "extends s1 R' r"
  shows "extends s (R @ R') r"
  using assms by (auto simp: extends_def split: if_splits)

lemma flush_rows_extends:
  "running s \<Longrightarrow> st_ref s = Some r \<Longrightarrow>
   extends s (map (state_row (st_spec s) r bs)
     (filter (\<lambda>i. within (cs_valid_time (st_spec s)) (iv_interval i)) is)) (flush_rows recorder bs is s)"
proof (induction "is" arbitrary: s)
  case Nil
  then show ?case by (auto simp: extends_def within_limit_def running_def split: option.splits)
next
  case (Cons i "is")
  let ?spec = "st_spec s" and ?limit = "unat (fs_batch_row_limit (cs_facts (st_spec s)))"
  let ?rows = "\<lambda>is. map (state_row ?spec r bs) (filter (\<lambda>i. within (cs_valid_time ?spec) (iv_interval i)) is)"
  show ?case
  proof (cases "within (cs_valid_time ?spec) (iv_interval i)")
    case False
    with Cons show ?thesis by (simp add: Let_def Contains_within)
  next
    case True
    let ?row = "state_row ?spec r bs i"
    let ?s = "s\<lparr>st_output := st_output s @ [?row]\<rparr>"
    have out: "length (st_output s) < ?limit" using Cons.prems by (simp add: running_def)
    have p: "produced ?s = produced s @ [?row]" by (simp add: produced_def)
    have start: "\<not> (case cs_max_rows ?spec of None \<Rightarrow> False
        | Some m \<Rightarrow> st_emitted s \<ge> m \<or> length (st_output s) \<ge> unat (m - st_emitted s))"
      using room_left [OF Cons.prems(1)] Cons.prems(1)
      by (auto simp: running_def produced_def not_le split: option.splits)
    have last: "(case cs_max_rows ?spec of None \<Rightarrow> False
        | Some m \<Rightarrow> length (st_output ?s) \<ge> unat (m - st_emitted ?s)) \<longleftrightarrow>
        \<not> within_limit (cs_max_rows ?spec) (produced ?s)"
      using room_left [OF Cons.prems(1)]
      by (auto simp: within_limit_def produced_def not_less split: option.splits)
    have pre: "batches_ok ?s" "st_emitted ?s = of_nat (length (concat (st_world ?s)))"
      "length (st_output ?s) \<le> unat (fs_batch_row_limit (cs_facts (st_spec ?s)))"
      using Cons.prems out by (simp_all add: running_def batches_ok_def)
    obtain s' where flush: "FlushOutput recorder ?s = (OK, s')" and s': "st_spec s' = st_spec ?s"
      "st_finished s' = st_finished ?s" "st_events s' = st_events ?s" "st_ref s' = st_ref ?s"
      "st_limit s' = st_limit ?s" "batches_ok s'" "produced s' = produced ?s" "st_output s' = []"
      "st_emitted s' = of_nat (length (concat (st_world s')))"
      by (rule FlushOutput_running [OF pre])
    have step: "flush_rows recorder bs (i # is) s =
      (if \<not> within_limit (cs_max_rows ?spec) (produced ?s) then (cancelled, s'\<lparr>st_limit := True\<rparr>)
       else if length (st_output ?s) \<ge> ?limit then flush_rows recorder bs is s'
       else flush_rows recorder bs is ?s)"
      using True start last flush Cons.prems(2)
      by (simp add: Let_def Contains_within max_rows_reached_def cancelled_def)
    show ?thesis
    proof (cases "within_limit (cs_max_rows ?spec) (produced ?s)")
      case False
      with Cons.prems(1) have "limited (cs_max_rows ?spec) (produced s @ ?row # ?rows is) = produced ?s"
        by (auto simp: p limited_def within_limit_def running_def not_less le_Suc_eq split: option.splits)
      moreover have "\<not> within_limit (cs_max_rows ?spec) (produced s @ ?row # ?rows is)"
        using False by (auto simp: p within_limit_def split: option.splits)
      ultimately show ?thesis
        unfolding step using False True s'
        by (simp add: extends_def stopped_def batches_ok_def produced_def)
    next
      case in_limit: True
      show ?thesis
      proof (cases "length (st_output ?s) \<ge> ?limit")
        case full: True
        have "running s'"
          using s' in_limit Cons.prems(1) out
          by (cases "cs_max_rows ?spec") (auto simp: running_def within_limit_def)
        then have "extends s ([?row] @ ?rows is) (flush_rows recorder bs is s')"
          using s' p Cons.prems(2) Cons.IH [of s'] by (intro extends_trans [of s']) simp_all
        then show ?thesis unfolding step using in_limit full True by simp
      next
        case free: False
        have "running ?s"
          using pre in_limit Cons.prems(1) free by (simp add: running_def within_limit_def)
        then have "extends s ([?row] @ ?rows is) (flush_rows recorder bs is ?s)"
          using p Cons.prems(2) Cons.IH [of ?s] by (intro extends_trans [of ?s]) simp_all
        then show ?thesis unfolding step using in_limit free True by simp
      qed
    qed
  qed
qed

text \<open>A whole history.\<close>

lemma FlushCurrent_extends:
  assumes "running s" "st_events s = p" "p \<noteq> []" "\<forall>e \<in> set p. ev_ref e = r" "st_ref s = Some r"
    "\<forall>e \<in> set p. ev_commit_seq e \<le> cs_snapshot_seq (st_spec s) \<longrightarrow> FactEvent_Validate e = OK"
  shows "extends s (chain_rows (st_spec s) p) (FlushCurrent recorder s) \<and>
    (fst (FlushCurrent recorder s) = OK \<longrightarrow> st_events (snd (FlushCurrent recorder s)) = [])"
proof -
  let ?snap = "cs_snapshot_seq (st_spec s)"
  have "\<forall>e \<in> set (visible p ?snap). ev_ref e = r" using assms(4) by (auto simp: visible_def)
  then have "same_ref None (visible p ?snap)"
    by (cases "visible p ?snap") (simp_all add: same_ref_def)
  then have "ok (ResolveCorrectedBoundaries p ?snap)"
    using assms(6) by (auto simp: Resolve_ok_iff visible_def)
  then obtain bs where bs: "ResolveCorrectedBoundaries p ?snap = Inr bs"
    by (auto simp: ok_def split: sum.splits)
  obtain status s' where f: "flush_rows recorder bs (MaterializePresentState bs) s = (status, s')"
    by fastforce
  have "ev_ref (hd p) = r" using assms(3,4) by (cases p) auto
  then have "extends s (chain_rows (st_spec s) p) (status, s')"
    using flush_rows_extends [OF assms(1,5), of bs "MaterializePresentState bs"] f bs
    by (simp add: chain_rows_def)
  moreover have "FlushCurrent recorder s = and_then (status, s') (\<lambda>s. (OK, s\<lparr>st_events := []\<rparr>))"
    using assms(2,3) bs f by (simp add: FlushCurrent_def)
  ultimately show ?thesis
    by (cases status) (simp_all add: extends_def cancelled_def)
qed

section \<open>From batches to rows\<close>

definition scannable :: "canonical_state_read_spec \<Rightarrow> fact_event list \<Rightarrow> bool" where
  "scannable spec es \<longleftrightarrow>
     (\<forall>e \<in> set es. ev_commit_seq e \<le> cs_snapshot_seq spec \<longrightarrow> FactEvent_Validate e = OK)"

definition pending :: "recording \<Rightarrow> bool" where
  "pending s \<longleftrightarrow>
     (case st_ref s of None \<Rightarrow> st_events s = []
      | Some r \<Rightarrow> st_events s \<noteq> [] \<and> (\<forall>e \<in> set (st_events s). ev_ref e = r) \<and>
                  scannable (st_spec s) (st_events s))"

text \<open>
  What remains to be delivered is the rows of the pending history and of the events to come;
  consuming events delivers a prefix of them, or all the limit allows.
\<close>

definition progress :: "recording \<Rightarrow> fact_event list \<Rightarrow> status \<times> recording \<Rightarrow> bool" where
  "progress s es r \<longleftrightarrow>
     (let spec = st_spec s; m = cs_max_rows spec;
          rows = produced s @ all_rows spec (st_events s @ es)
      in case r of (status, s') \<Rightarrow>
        st_spec s' = spec \<and> st_finished s' = st_finished s \<and>
        (status = OK \<and> running s' \<and> pending s' \<and> rows = produced s' @ all_rows spec (st_events s') \<or>
         status = cancelled \<and> stopped s' \<and> \<not> within_limit m rows \<and> produced s' = limited m rows))"

lemma limit_prefix:
  "\<not> within_limit m xs \<Longrightarrow> \<not> within_limit m (xs @ ys) \<and> limited m (xs @ ys) = limited m xs"
  by (auto simp: within_limit_def limited_def split: option.splits)

lemma progress_step:
  assumes "progress s1 es r" "st_spec s1 = st_spec s" "st_finished s1 = st_finished s"
    "produced s1 @ all_rows (st_spec s) (st_events s1 @ es) =
     produced s @ all_rows (st_spec s) (st_events s @ e # es)"
  shows "progress s (e # es) r"
  using assms by (simp add: progress_def Let_def)

lemma consume_events_progress:
  "running s \<Longrightarrow> pending s \<Longrightarrow> scannable (st_spec s) es \<Longrightarrow> progress s es (consume_events recorder es s)"
proof (induction es arbitrary: s)
  case Nil
  then show ?case by (simp add: progress_def Let_def)
next
  case (Cons e es)
  let ?spec = "st_spec s" and ?p = "st_events s"
  have scan: "scannable ?spec es" "scannable ?spec [e]" using Cons.prems(3) by (simp_all add: scannable_def)
  show ?case
  proof (cases "st_ref s = None \<or> st_ref s = Some (ev_ref e)")
    case True
    let ?s = "s\<lparr>st_ref := Some (ev_ref e), st_events := ?p @ [e]\<rparr>"
    have "pending ?s" using Cons.prems True scan
      by (auto simp: pending_def scannable_def split: option.splits)
    then have "progress ?s es (consume_events recorder es ?s)"
      using Cons.IH [of ?s] Cons.prems scan by simp
    moreover have "consume_events recorder (e # es) s = consume_events recorder es ?s"
      using True by (cases s) (auto simp: Let_def)
    ultimately show ?thesis by (auto intro: progress_step)
  next
    case False
    then obtain r where r: "st_ref s = Some r" "ev_ref e \<noteq> r" by auto
    with Cons.prems(2) have p: "?p \<noteq> []" "\<forall>e \<in> set ?p. ev_ref e = r" "scannable ?spec ?p"
      by (simp_all add: pending_def)
    obtain status s1 where f: "FlushCurrent recorder s = (status, s1)" by fastforce
    have ext: "extends s (chain_rows ?spec ?p) (status, s1)" "status = OK \<longrightarrow> st_events s1 = []"
      using FlushCurrent_extends [OF Cons.prems(1) refl p(1,2) r(1)] p(3) f
      by (auto simp: scannable_def)
    have rows: "all_rows ?spec (?p @ e # es) = chain_rows ?spec ?p @ all_rows ?spec (e # es)"
      using runs_append [OF p(1,2) r(2)] by (simp add: all_rows_def)
    show ?thesis
    proof (cases "within_limit (cs_max_rows ?spec) (produced s @ chain_rows ?spec ?p)")
      case True
      let ?s = "s1\<lparr>st_ref := Some (ev_ref e), st_events := [e]\<rparr>"
      have s1: "status = OK" "running s1" "produced s1 = produced s @ chain_rows ?spec ?p"
        "st_events s1 = []" "st_spec s1 = ?spec" "st_finished s1 = st_finished s"
        using True ext by (auto simp: extends_def)
      have "pending ?s" using scan(2) s1 by (simp add: pending_def scannable_def)
      then have "progress ?s es (consume_events recorder es ?s)" using Cons.IH [of ?s] s1 scan by simp
      moreover have "consume_events recorder (e # es) s = consume_events recorder es ?s"
        using r f s1 by (simp add: Let_def)
      ultimately show ?thesis using s1 rows by (auto intro: progress_step)
    next
      case False
      with ext have "status = cancelled" "stopped s1" "st_spec s1 = ?spec"
        "produced s1 = limited (cs_max_rows ?spec) (produced s @ chain_rows ?spec ?p)"
        "st_finished s1 = st_finished s" by (auto simp: extends_def)
      with False r f limit_prefix [OF False] show ?thesis
        by (simp add: progress_def rows cancelled_def Let_def flip: append_assoc)
    qed
  qed
qed

lemma and_then_assoc: "and_then (and_then r k) l = and_then r (\<lambda>s. and_then (k s) l)"
  by (cases r; cases "fst r") auto

lemma consume_events_append:
  "consume_events visit (xs @ ys) s = and_then (consume_events visit xs s) (consume_events visit ys)"
  by (induction xs arbitrary: s) (simp_all add: Let_def and_then_assoc)

lemma scan_events_flat:
  "running s \<Longrightarrow> pending s \<Longrightarrow> \<not> st_finished s \<Longrightarrow> scannable (st_spec s) (concat bs) \<Longrightarrow>
   scan_events recorder bs OK s = consume_events recorder (concat bs) s"
proof (induction bs arbitrary: s)
  case (Cons b bs)
  have scan: "scannable (st_spec s) b" "scannable (st_spec s) (concat bs)"
    using Cons.prems(4) by (auto simp: scannable_def)
  obtain status s1 where c: "consume_events recorder b s = (status, s1)" by fastforce
  have consume: "Consume recorder b s = (status, s1)"
    using Cons.prems c by (simp add: Consume_def running_def)
  have prog: "progress s b (status, s1)"
    using consume_events_progress [OF Cons.prems(1,2) scan(1)] c by simp
  show ?case
  proof (cases "status = OK")
    case True
    with prog have "running s1" "pending s1" "\<not> st_finished s1" "st_spec s1 = st_spec s"
      using Cons.prems(3) by (auto simp: progress_def Let_def cancelled_def)
    with True Cons.IH [of s1] scan(2) consume c show ?thesis by (simp add: consume_events_append)
  next
    case False
    with prog obtain e where "status = Inl e" by (cases status) auto
    with consume c show ?thesis by (simp add: consume_events_append)
  qed
qed simp

lemma Finish_rows:
  assumes "running s" "pending s" "\<not> st_finished s"
  obtains s' where "Finish recorder s = (OK, s')" "st_spec s' = st_spec s" "batches_ok s'"
    "concat (st_world s') = limited (cs_max_rows (st_spec s)) (produced s @ all_rows (st_spec s) (st_events s))"
proof -
  let ?m = "cs_max_rows (st_spec s)" and ?s = "s\<lparr>st_finished := True\<rparr>"
  let ?rows = "all_rows (st_spec s) (st_events s)"
  have within: "within_limit ?m xs \<Longrightarrow> limited ?m xs = xs" for xs :: "canonical_state_row list"
    by (auto simp: within_limit_def limited_def split: option.splits)
  have F: "Finish recorder s =
      (case FlushCurrent recorder ?s of (status, s) \<Rightarrow>
         if has_code kQueryCancelled status \<and> st_limit s then (OK, s)
         else and_then (status, s) (FlushOutput recorder))"
    using assms(1,3) by (simp add: Finish_def running_def)
  have "extends ?s ?rows (FlushCurrent recorder ?s)"
  proof (cases "st_ref s")
    case None
    with assms have "FlushCurrent recorder ?s = (OK, ?s)" "?rows = []"
      by (simp_all add: pending_def FlushCurrent_def all_rows_def)
    with assms(1) show ?thesis
      by (auto simp: extends_def within_limit_def running_def split: option.splits)
  next
    case (Some r)
    with assms(2) have p: "st_events s \<noteq> []" "\<forall>e \<in> set (st_events s). ev_ref e = r"
      "scannable (st_spec s) (st_events s)" by (simp_all add: pending_def)
    have "?rows = chain_rows (st_spec s) (st_events s)"
      by (simp add: all_rows_def runs_same [OF p(1,2)])
    with FlushCurrent_extends [of ?s "st_events s" r] assms(1) p Some show ?thesis
      by (simp add: scannable_def)
  qed
  moreover obtain status s1 where f: "FlushCurrent recorder ?s = (status, s1)" by fastforce
  ultimately have ext: "extends ?s ?rows (status, s1)" by simp
  show ?thesis
  proof (cases "within_limit ?m (produced s @ ?rows)")
    case True
    with ext have s1: "status = OK" "running s1" "produced s1 = produced s @ ?rows" "st_spec s1 = st_spec s"
      by (simp_all add: extends_def)
    then obtain s' where "FlushOutput recorder s1 = (OK, s')" "st_spec s' = st_spec s1" "batches_ok s'"
      "produced s' = produced s1" "st_output s' = []"
      using FlushOutput_running [of s1] by (auto simp: running_def)
    with s1 f F True within show ?thesis
      by (intro that [of s']) (simp_all add: has_code_def produced_def)
  next
    case False
    with ext have "status = cancelled" "stopped s1" "st_spec s1 = st_spec s"
      "produced s1 = limited ?m (produced s @ ?rows)" by (simp_all add: extends_def)
    with f F show ?thesis
      by (intro that [of s1])
        (simp_all add: stopped_def produced_def cancelled_def has_code_def Status_init_def)
  qed
qed

section \<open>Properties\<close>

text \<open>
  C16: reading the state rows at a snapshot and a valid time delivers exactly the rows of the
  scanned facts, in scan order, cut off at the row limit, however the scan splits the events
  into batches; it reports success, and every batch given to the visitor is non-empty and no
  larger than the batch limit.
\<close>

theorem state_read_delivers:
  assumes "FactReadSpec_Validate (cs_facts spec) = OK" "cs_snapshot_seq spec \<le> snapshot"
    "scannable spec (concat batches)"
  shows "case ReadStateRows snapshot batches OK spec recorder [] of (status, delivered) \<Rightarrow>
    status = OK \<and> concat delivered = limited (cs_max_rows spec) (all_rows spec (concat batches)) \<and>
    (\<forall>b \<in> set delivered. b \<noteq> [] \<and> length b \<le> unat (fs_batch_row_limit (cs_facts spec)))"
proof (cases "cs_max_rows spec = Some 0")
  case True
  with assms show ?thesis by (simp add: ReadStateRows_def limited_def not_less)
next
  case False
  let ?s = "StateRowStream_init spec ([] :: canonical_state_row list list)"
  have "running ?s" "pending ?s" "\<not> st_finished ?s" "st_spec ?s = spec"
    using False assms(1)
    by (auto simp: StateRowStream_init_def running_def pending_def batches_ok_def produced_def
        FactReadSpec_Validate_iff unat_gt_0 split: option.splits)
  note init = this
  obtain status s where c: "scan_events recorder batches OK ?s = (status, s)" by fastforce
  have prog: "progress ?s (concat batches) (status, s)"
    using consume_events_progress [OF init(1,2), of "concat batches"]
      scan_events_flat [OF init(1,2,3), of batches] init(4) assms(3) c by simp
  have R: "ReadStateRows snapshot batches OK spec recorder [] =
      (if has_code kQueryCancelled status \<and> st_limit s then (OK, st_world s)
       else if status \<noteq> OK then (status, st_world s)
       else case Finish recorder s of (status, s) \<Rightarrow> (status, st_world s))"
    using assms(1) leD [OF assms(2)] False c by (simp add: ReadStateRows_def)
  have start: "produced ?s = []" "st_events ?s = []" by (simp_all add: StateRowStream_init_def produced_def)
  show ?thesis
  proof (cases "status = OK")
    case True
    with prog init(3,4) start have s: "running s" "pending s" "\<not> st_finished s" "st_spec s = spec"
      "all_rows spec (concat batches) = produced s @ all_rows spec (st_events s)"
      by (auto simp: progress_def Let_def cancelled_def)
    obtain s' where "Finish recorder s = (OK, s')" "st_spec s' = st_spec s" "batches_ok s'"
      "concat (st_world s') = limited (cs_max_rows (st_spec s)) (produced s @ all_rows (st_spec s) (st_events s))"
      using Finish_rows [OF s(1,2,3)] .
    with True s R show ?thesis by (simp add: has_code_def batches_ok_def)
  next
    case False
    with prog init(4) start have "status = cancelled" "stopped s" "st_spec s = spec"
      "produced s = limited (cs_max_rows spec) (all_rows spec (concat batches))"
      by (auto simp: progress_def Let_def)
    with R show ?thesis
      by (simp add: cancelled_def has_code_def Status_init_def stopped_def batches_ok_def produced_def)
  qed
qed

definition sample_read :: canonical_state_read_spec where
  "sample_read =
     \<lparr>cs_facts = \<lparr>fs_part_scope = PartScope_Exact 1, fs_family = kVertexProperty, fs_property = 3,
        fs_entity_range = \<lparr>rg_min = None, rg_max_exclusive = None\<rparr>, fs_valid_from_min = None,
        fs_valid_from_max = None, fs_commit_seq_min = None, fs_commit_seq_max = None,
        fs_preserve_predecessor = False, fs_projection = [], fs_batch_row_limit = 1,
        fs_max_rows = None\<rparr>,
      cs_valid_time = 12, cs_snapshot_seq = 5, cs_max_rows = Some 3\<rparr>"

theorem state_read_delivers_witness:
  "case ReadStateRows 6 [take 1 sample_chain, drop 1 sample_chain] OK sample_read recorder [] of
     (status, delivered) \<Rightarrow>
       status = OK \<and>
       concat delivered = limited (Some 3) (all_rows sample_read (concat [take 1 sample_chain, drop 1 sample_chain])) \<and>
       (\<forall>b \<in> set delivered. b \<noteq> [] \<and> length b \<le> unat (fs_batch_row_limit (cs_facts sample_read)))"
proof -
  have "FactReadSpec_Validate (cs_facts sample_read) = OK" by code_simp
  moreover have "cs_snapshot_seq sample_read \<le> 6" by code_simp
  moreover have "scannable sample_read (concat [take 1 sample_chain, drop 1 sample_chain])" by code_simp
  moreover have "cs_max_rows sample_read = Some 3" by (simp add: sample_read_def)
  ultimately show ?thesis
    using state_read_delivers [of sample_read 6 "[take 1 sample_chain, drop 1 sample_chain]"] by simp
qed

text \<open>The interval of a row starts at a boundary, whose commit the row carries.\<close>

lemma merge_from_froms:
  "i \<in> set (merge_from c is) \<Longrightarrow> \<exists>j \<in> set (c # is). vi_from (iv_interval i) = vi_from (iv_interval j)"
  by (induction c "is" rule: merge_from.induct) (auto split: if_splits)

lemma Present_from:
  assumes "i \<in> set (MaterializePresentState bs)"
  shows "\<exists>b \<in> set bs. vi_from (iv_interval i) = bd_valid_from b"
proof (cases "present_loop None bs")
  case (Cons c "is")
  with assms obtain j where "j \<in> set (present_loop None bs)" "vi_from (iv_interval i) = vi_from (iv_interval j)"
    using merge_from_froms [of i c "is"] by (auto simp: MaterializePresentState_def Coalesce_Cons)
  with present_loop_from [of j None bs] show ?thesis by simp
qed (use assms in \<open>simp add: MaterializePresentState_def\<close>)

lemma current_at_own:
  "sorted_wrt (<) (map bd_valid_from bs) \<Longrightarrow> b \<in> set bs \<Longrightarrow> current_at None bs (bd_valid_from b) = Some b"
proof (induction bs)
  case (Cons a bs)
  have "current_at None bs (bd_valid_from a) = None"
    using Cons.prems(1) by (cases bs) auto
  then show ?case
    using Cons current_at_append [OF Cons.prems(1), of "bd_valid_from b"] by (auto simp: not_less)
qed simp

lemma BoundaryCommit_own:
  assumes "sorted_wrt (<) (map bd_valid_from bs)" "b \<in> set bs"
  shows "BoundaryCommit bs (bd_valid_from b) fallback = bd_commit_seq b"
proof -
  have "distinct (map bd_valid_from bs)" using assms(1) by (simp add: strict_sorted_iff)
  then have "find (\<lambda>c. bd_valid_from c = bd_valid_from b) bs = Some b"
    using assms(2) by (simp add: find_distinct)
  then show ?thesis by (simp add: BoundaryCommit_def)
qed

text \<open>
  C17: the row of a fact answers for the event that governs it. A history of one fact yields a
  row exactly when the event governing the valid time of the read is a PUT; the row carries the
  fact's reference, an interval that contains that time, the governing event's value (up to
  \<^verbatim>\<open>==\<close>), and the commit sequence of the event governing the start of the interval.
\<close>

theorem state_row_answers:
  assumes "ok (ResolveCorrectedBoundaries es (cs_snapshot_seq spec))"
    "distinct (map chain_key (visible es (cs_snapshot_seq spec)))"
  shows "(chain_rows spec es \<noteq> [] \<longleftrightarrow>
      (\<exists>e. governs es (cs_snapshot_seq spec) (cs_valid_time spec) e \<and> ev_operation e = kPut)) \<and>
    length (chain_rows spec es) \<le> 1 \<and>
    (row \<in> set (chain_rows spec es) \<longrightarrow>
      row_ref row = ev_ref (hd es) \<and> within (cs_valid_time spec) (row_effective row) \<and>
      (\<exists>e. governs es (cs_snapshot_seq spec) (cs_valid_time spec) e \<and> ev_operation e = kPut \<and>
           same_state (row_value row) (ev_value e)) \<and>
      (\<exists>e. governs es (cs_snapshot_seq spec) (vi_from (row_effective row)) e \<and>
           row_commit_seq row = ev_commit_seq e))"
proof -
  let ?snap = "cs_snapshot_seq spec" and ?t = "cs_valid_time spec"
  obtain bs where bs: "ResolveCorrectedBoundaries es ?snap = Inr bs"
    using assms(1) by (auto simp: ok_def split: sum.splits)
  note sorted = Resolve_sorted [OF bs] and current = current_governs [OF bs assms(2)]
  let ?P = "MaterializePresentState bs"
  have rows: "chain_rows spec es = map (state_row spec (ev_ref (hd es)) bs)
      (filter (\<lambda>i. within ?t (iv_interval i)) ?P)"
    using bs by (simp add: chain_rows_def)
  have "chain_rows spec es \<noteq> [] \<longleftrightarrow> (\<exists>v. says ?P ?t v)"
    by (auto simp: rows says_def filter_empty_conv)
  then have put: "chain_rows spec es \<noteq> [] \<longleftrightarrow> (\<exists>e. governs es ?snap ?t e \<and> ev_operation e = kPut)"
    using Present_covers [OF sorted, of ?t] by (auto simp: current ToBoundary_def)
  have "row_ref row = ev_ref (hd es) \<and> within ?t (row_effective row) \<and>
      (\<exists>e. governs es ?snap ?t e \<and> ev_operation e = kPut \<and> same_state (row_value row) (ev_value e)) \<and>
      (\<exists>e. governs es ?snap (vi_from (row_effective row)) e \<and> row_commit_seq row = ev_commit_seq e)"
    if "row \<in> set (chain_rows spec es)"
  proof -
    from that obtain i where i: "i \<in> set ?P" "within ?t (iv_interval i)"
      "row = state_row spec (ev_ref (hd es)) bs i"
      by (auto simp: rows)
    then have "says ?P ?t (row_value row)" by (auto simp: says_def state_row_def)
    from Present_states [OF bs assms(2) this]
    have "\<exists>e. governs es ?snap ?t e \<and> ev_operation e = kPut \<and> same_state (row_value row) (ev_value e)" .
    moreover obtain b where b: "b \<in> set bs" "vi_from (iv_interval i) = bd_valid_from b"
      using Present_from [OF i(1)] by auto
    have "\<exists>e. governs es ?snap (vi_from (iv_interval i)) e \<and> b = ToBoundary e"
      using current_at_own [OF sorted b(1)] by (simp add: b(2) current)
    then have "\<exists>e. governs es ?snap (vi_from (row_effective row)) e \<and> row_commit_seq row = ev_commit_seq e"
      using BoundaryCommit_own [OF sorted b(1)] by (auto simp: i(3) state_row_def b(2) ToBoundary_def)
    ultimately show ?thesis using i by (simp add: state_row_def)
  qed
  with put chain_rows_le [of spec es] show ?thesis by blast
qed

theorem state_row_answers_witness:
  "chain_rows sample_read sample_chain \<noteq> [] \<longleftrightarrow>
   (\<exists>e. governs sample_chain 5 12 e \<and> ev_operation e = kPut)"
proof -
  have "cs_snapshot_seq sample_read = 5" "cs_valid_time sample_read = 12" by (simp_all add: sample_read_def)
  then show ?thesis
    using state_row_answers [of sample_chain sample_read] sample_resolved sample_distinct
    by (simp add: ok_def)
qed

end
