(* ===== verification/Kv_Store.thy ===== *)
theory Kv_Store
  imports Cedar_Prelude
begin

text \<open>
  The contract of the storage engine that the fact store builds on: a column family is an
  ordered map from byte strings to byte strings under the bytewise comparator, an iterator
  walks it from a seek position in either direction, and a write batch is applied as a whole.
  The engine itself (\<^verbatim>\<open>src/src/engine/rocksdb\<close>) is vendored code and is represented by this
  contract only; iteration and lookups do not fail.
\<close>

section \<open>Column families\<close>

type_synonym kv = "(bytes \<times> bytes) list"

definition kv_less :: "bytes \<times> 'a \<Rightarrow> bytes \<times> 'a \<Rightarrow> bool" where
  "kv_less a b \<longleftrightarrow> bytes_less (fst a) (fst b)"

definition kv_sorted :: "kv \<Rightarrow> bool" where
  "kv_sorted m \<longleftrightarrow> sorted_wrt kv_less m"

fun kv_put :: "bytes \<Rightarrow> bytes \<Rightarrow> kv \<Rightarrow> kv" where
  "kv_put k v [] = [(k, v)]"
| "kv_put k v ((k', v') # m) =
     (if bytes_less k k' then (k, v) # (k', v') # m
      else if k = k' then (k, v) # m
      else (k', v') # kv_put k v m)"

definition kv_delete :: "bytes \<Rightarrow> kv \<Rightarrow> kv" where
  "kv_delete k m = filter (\<lambda>e. fst e \<noteq> k) m"

definition kv_get :: "kv \<Rightarrow> bytes \<Rightarrow> bytes option" where
  "kv_get m k = map_of m k"

text \<open>The entries an iterator visits: forwards after \<^verbatim>\<open>Seek\<close>, backwards after \<^verbatim>\<open>SeekForPrev\<close>.\<close>

definition Seek :: "kv \<Rightarrow> bytes \<Rightarrow> kv" where
  "Seek m k = dropWhile (\<lambda>e. bytes_less (fst e) k) m"

definition SeekForPrev :: "kv \<Rightarrow> bytes \<Rightarrow> kv" where
  "SeekForPrev m k = rev (takeWhile (\<lambda>e. \<not> bytes_less k (fst e)) m)"

definition StartsWith :: "bytes \<Rightarrow> bytes \<Rightarrow> bool" where
  "StartsWith s prefix \<longleftrightarrow> length s \<ge> length prefix \<and> take (length prefix) s = prefix"

section \<open>Databases and write batches\<close>

datatype column_family = FactsCf | MetaCf

record database =
  db_facts :: kv
  db_meta :: kv

datatype write_op = Put column_family bytes bytes | Delete column_family bytes

type_synonym write_batch = "write_op list"

fun apply_op :: "write_op \<Rightarrow> database \<Rightarrow> database" where
  "apply_op (Put FactsCf k v) db = db\<lparr>db_facts := kv_put k v (db_facts db)\<rparr>"
| "apply_op (Put MetaCf k v) db = db\<lparr>db_meta := kv_put k v (db_meta db)\<rparr>"
| "apply_op (Delete FactsCf k) db = db\<lparr>db_facts := kv_delete k (db_facts db)\<rparr>"
| "apply_op (Delete MetaCf k) db = db\<lparr>db_meta := kv_delete k (db_meta db)\<rparr>"

definition apply_batch :: "write_batch \<Rightarrow> database \<Rightarrow> database" where
  "apply_batch ops db = fold apply_op ops db"

section \<open>Sorted lists\<close>

text \<open>On a sorted list, skipping and taking a prefix are filters.\<close>

lemma dropWhile_filter:
  "sorted_wrt r xs \<Longrightarrow> (\<And>x y. r x y \<Longrightarrow> Q y \<Longrightarrow> Q x) \<Longrightarrow> dropWhile Q xs = filter (\<lambda>x. \<not> Q x) xs"
proof (induction xs)
  case (Cons x xs)
  show ?case
  proof (cases "Q x")
    case False
    then have "\<not> Q y" if "y \<in> set xs" for y using Cons.prems that by auto
    with False show ?thesis by (simp add: filter_id_conv)
  qed (use Cons in auto)
qed simp

lemma takeWhile_filter:
  "sorted_wrt r xs \<Longrightarrow> (\<And>x y. x \<in> set xs \<Longrightarrow> r x y \<Longrightarrow> P y \<Longrightarrow> P x) \<Longrightarrow> takeWhile P xs = filter P xs"
proof (induction xs)
  case (Cons x xs)
  show ?case
  proof (cases "P x")
    case False
    then have "\<not> P y" if "y \<in> set xs" for y using Cons.prems that by auto
    with False show ?thesis by (simp add: filter_empty_conv)
  qed (use Cons in auto)
qed simp

lemma kv_sorted_Cons: "kv_sorted (e # m) \<longleftrightarrow> (\<forall>f \<in> set m. bytes_less (fst e) (fst f)) \<and> kv_sorted m"
  by (auto simp: kv_sorted_def kv_less_def)

lemma kv_sorted_distinct: "kv_sorted m \<Longrightarrow> distinct (map fst m)"
  by (induction m) (auto simp: kv_sorted_Cons)

lemma Seek_filter: "kv_sorted m \<Longrightarrow> Seek m k = filter (\<lambda>e. \<not> bytes_less (fst e) k) m"
  unfolding Seek_def kv_sorted_def
  by (rule dropWhile_filter [where r = kv_less]) (auto simp: kv_less_def intro: bytes_less_trans)

lemma SeekForPrev_filter: "kv_sorted m \<Longrightarrow> SeekForPrev m k = rev (filter (\<lambda>e. \<not> bytes_less k (fst e)) m)"
proof -
  assume "kv_sorted m"
  then have "takeWhile (\<lambda>e. \<not> bytes_less k (fst e)) m = filter (\<lambda>e. \<not> bytes_less k (fst e)) m"
    unfolding kv_sorted_def
    by (rule takeWhile_filter [where r = kv_less]) (auto simp: kv_less_def intro: bytes_less_trans)
  then show ?thesis by (simp add: SeekForPrev_def)
qed

section \<open>Laws of the map\<close>

lemma bytes_less_asym: "bytes_less a b \<Longrightarrow> \<not> bytes_less b a"
  using bytes_less_trans [of a b a] by auto

lemma kv_less_not_mem: "\<forall>f \<in> set m. bytes_less k' (fst f) \<Longrightarrow> k = k' \<or> bytes_less k k' \<Longrightarrow> (k, b) \<notin> set m"
  by (force dest: bytes_less_asym)

lemma set_kv_put: "kv_sorted m \<Longrightarrow> set (kv_put k v m) = insert (k, v) {e \<in> set m. fst e \<noteq> k}"
proof (induction k v m rule: kv_put.induct)
  case (2 k v k' v' m)
  then have m: "\<forall>f \<in> set m. bytes_less k' (fst f)" "kv_sorted m" by (simp_all add: kv_sorted_Cons)
  show ?case
  proof (cases "k = k' \<or> bytes_less k k'")
    case True
    with kv_less_not_mem [OF m(1) True] show ?thesis by auto
  next
    case False
    with 2 m(2) show ?thesis by auto
  qed
qed simp

lemma kv_put_sorted: "kv_sorted m \<Longrightarrow> kv_sorted (kv_put k v m)"
proof (induction k v m rule: kv_put.induct)
  case (2 k v k' v' m)
  then have "bytes_less k' k" if "\<not> bytes_less k k'" "k \<noteq> k'" using that bytes_less_linear by blast
  with 2 show ?case by (auto simp: kv_sorted_Cons set_kv_put intro: bytes_less_trans [of k k'])
qed (simp add: kv_sorted_def)

lemma kv_delete_sorted: "kv_sorted m \<Longrightarrow> kv_sorted (kv_delete k m)"
  by (simp add: kv_delete_def kv_sorted_def sorted_wrt_filter)

lemma set_kv_delete: "set (kv_delete k m) = {e \<in> set m. fst e \<noteq> k}"
  by (auto simp: kv_delete_def)

lemma kv_get_delete: "kv_get (kv_delete k m) j = (if j = k then None else kv_get m j)"
  unfolding kv_get_def kv_delete_def by (induction m) auto

lemma kv_get_iff: "kv_sorted m \<Longrightarrow> kv_get m k = Some v \<longleftrightarrow> (k, v) \<in> set m"
  by (simp add: kv_get_def kv_sorted_distinct)

lemma kv_get_put: "kv_sorted m \<Longrightarrow> kv_get (kv_put k v m) j = (if j = k then Some v else kv_get m j)"
proof -
  assume m: "kv_sorted m"
  then have "kv_get (kv_put k v m) j = Some w \<longleftrightarrow> (if j = k then Some v else kv_get m j) = Some w" for w
    by (auto simp: kv_get_iff kv_put_sorted set_kv_put)
  then show ?thesis by (metis not_Some_eq)
qed

text \<open>A sorted column family is determined by its entries.\<close>

lemma kv_sorted_unique: "kv_sorted m \<Longrightarrow> kv_sorted n \<Longrightarrow> set m = set n \<Longrightarrow> m = n"
proof (induction m arbitrary: n)
  case (Cons a m)
  then obtain b n' where n: "n = b # n'" by (cases n) auto
  have m: "\<forall>f \<in> set m. bytes_less (fst a) (fst f)" "kv_sorted m"
    and n': "\<forall>f \<in> set n'. bytes_less (fst b) (fst f)" "kv_sorted n'"
    using Cons.prems n by (simp_all add: kv_sorted_Cons)
  have "a = b"
  proof (rule ccontr)
    assume "a \<noteq> b"
    with Cons.prems(3) n have "a \<in> set n'" "b \<in> set m" by auto
    with m(1) n'(1) show False by (blast dest: bytes_less_asym)
  qed
  moreover have "a \<notin> set m" "b \<notin> set n'" using m(1) n'(1) by auto
  ultimately have "set m = set n'" using Cons.prems(3) n by auto
  with Cons.IH [OF m(2) n'(2)] \<open>a = b\<close> n show ?case by simp
qed simp

definition db_ok :: "database \<Rightarrow> bool" where
  "db_ok db \<longleftrightarrow> kv_sorted (db_facts db) \<and> kv_sorted (db_meta db)"

lemma apply_op_ok: "db_ok db \<Longrightarrow> db_ok (apply_op op db)"
  by (cases "(op, db)" rule: apply_op.cases) (auto simp: db_ok_def kv_put_sorted kv_delete_sorted)

lemma apply_batch_ok: "db_ok db \<Longrightarrow> db_ok (apply_batch ops db)"
  unfolding apply_batch_def by (induction ops arbitrary: db) (simp_all add: apply_op_ok)

end
