(* ===== verification/Fact_Reader.thy ===== *)
theory Fact_Reader
  imports Kv_Store Fact_Codec Corrected_Chain
begin

text \<open>
  Point reads of the fact store (\<^verbatim>\<open>src/src/storage/rocks/rocks_adapter.cc\<close>): the read of a
  fact at a valid time and snapshot, the temporal neighborhood of a time, and the current
  intervals of a fact, each a scan of the facts column family from an encoded key. The
  reference is the set of events the column family holds; what an iterator meets first is
  shown to be the event that governs the time.
\<close>

section \<open>Reads\<close>

definition kFactIdentityPrefixBytes :: nat where
  "kFactIdentityPrefixBytes = 16"

definition EncodeFactIdentityPrefix ::
  "part_id \<Rightarrow> fact_family \<Rightarrow> property_id \<Rightarrow> entity_id option \<Rightarrow> bytes" where
  "EncodeFactIdentityPrefix part family property entity =
     [2] @ AppendU32 part @ [family_byte family] @ AppendU16 property @
     (case entity of None \<Rightarrow> [] | Some e \<Rightarrow> AppendU64 e)"

definition max_seq :: commit_seq where
  "max_seq = - 1"

text \<open>The loop of \<^verbatim>\<open>FactStore::Read\<close> over the entries from the seek position.\<close>

fun read_loop :: "commit_seq \<Rightarrow> bytes \<Rightarrow> kv \<Rightarrow> fact_event option status_or" where
  "read_loop snap prefix [] = Inr None"
| "read_loop snap prefix ((k, v) # m) =
     (if \<not> StartsWith k prefix then Inr None
      else sbind (DecodeFactKey k) (\<lambda>d.
        if dk_commit_seq d > snap then read_loop snap prefix m
        else if length v > kMaxFactValuePayloadBytes + 64
        then Corruption ''fact read'' ''oversized fact value''
        else sbind (DecodeFactValue (dk_ref d) (dk_valid_from d) (dk_commit_seq d) v) (\<lambda>e.
          if ev_operation e = kDelete then Inr None else Inr (Some e))))"

definition FactStore_Read :: "kv \<Rightarrow> commit_seq \<Rightarrow> fact_ref \<Rightarrow> valid_time \<Rightarrow> fact_event option status_or" where
  "FactStore_Read facts snap ref t =
     sbind (FactRef_Validate ref) (\<lambda>_.
       let seek = EncodeFactKey ref t max_seq in
       if seek = [] then InvalidArgument ''fact read'' ''invalid fact key''
       else read_loop snap (take kFactIdentityPrefixBytes seek) (Seek facts seek))"

record temporal_neighborhood =
  tn_observed :: "fact_event option"
  tn_predecessor :: "valid_time option"
  tn_successor :: "valid_time option"

text \<open>
  The forward loop keeps the boundary it is in and whether that boundary has a visible event;
  the backward loop does the same for the boundaries after the time.
\<close>

fun forward_scan ::
  "commit_seq \<Rightarrow> valid_time \<Rightarrow> bytes \<Rightarrow> temporal_neighborhood \<Rightarrow> valid_time option \<Rightarrow> bool \<Rightarrow> kv
   \<Rightarrow> temporal_neighborhood status_or" where
  "forward_scan limit t prefix n boundary visible_boundary [] = Inr n"
| "forward_scan limit t prefix n boundary visible_boundary ((k, v) # m) =
     (if \<not> StartsWith k prefix then Inr n
      else sbind (DecodeFactKey k) (\<lambda>d.
        if dk_commit_seq d > limit then forward_scan limit t prefix n boundary visible_boundary m
        else
          let fresh = (boundary = None \<or> boundary \<noteq> Some (dk_valid_from d));
              boundary = (if fresh then Some (dk_valid_from d) else boundary);
              visible_boundary = (if fresh then False else visible_boundary)
          in if visible_boundary then forward_scan limit t prefix n boundary visible_boundary m
             else sbind (DecodeFactValue (dk_ref d) (dk_valid_from d) (dk_commit_seq d) v) (\<lambda>e.
               if tn_observed n = None
               then if dk_valid_from d < t
                    then Inr (n\<lparr>tn_observed := Some e, tn_predecessor := Some (dk_valid_from d)\<rparr>)
                    else forward_scan limit t prefix (n\<lparr>tn_observed := Some e\<rparr>) boundary True m
               else Inr (n\<lparr>tn_predecessor := Some (dk_valid_from d)\<rparr>))))"

definition finish_successor :: "temporal_neighborhood \<Rightarrow> valid_time option \<Rightarrow> bool \<Rightarrow> temporal_neighborhood" where
  "finish_successor n boundary visible_boundary =
     (if tn_successor n = None \<and> visible_boundary then n\<lparr>tn_successor := boundary\<rparr> else n)"

fun backward_scan ::
  "commit_seq \<Rightarrow> bytes \<Rightarrow> temporal_neighborhood \<Rightarrow> valid_time option \<Rightarrow> bool \<Rightarrow> kv
   \<Rightarrow> temporal_neighborhood status_or" where
  "backward_scan limit prefix n boundary visible_boundary [] =
     Inr (finish_successor n boundary visible_boundary)"
| "backward_scan limit prefix n boundary visible_boundary ((k, v) # m) =
     (if \<not> StartsWith k prefix then Inr (finish_successor n boundary visible_boundary)
      else sbind (DecodeFactKey k) (\<lambda>d.
        let fresh = (boundary = None \<or> boundary \<noteq> Some (dk_valid_from d)) in
        if fresh \<and> visible_boundary
        then Inr (finish_successor (n\<lparr>tn_successor := boundary\<rparr>) boundary visible_boundary)
        else
          let boundary = (if fresh then Some (dk_valid_from d) else boundary);
              visible_boundary = (if fresh then False else visible_boundary)
          in backward_scan limit prefix n boundary
               (dk_commit_seq d \<le> limit \<or> visible_boundary) m))"

text \<open>
  \<^verbatim>\<open>might\<close> is the answer of the identity history, which the store consults before the scan;
  a store without one answers \<^verbatim>\<open>true\<close>.
\<close>

definition ReadTemporalNeighborhood ::
  "(fact_ref \<Rightarrow> bool) \<Rightarrow> kv \<Rightarrow> fact_ref \<Rightarrow> valid_time \<Rightarrow> commit_seq \<Rightarrow> temporal_neighborhood status_or" where
  "ReadTemporalNeighborhood might facts ref t limit =
     sbind (FactRef_Validate ref) (\<lambda>_.
       let none = \<lparr>tn_observed = None, tn_predecessor = None, tn_successor = None\<rparr> in
       if \<not> might ref then Inr none
       else
         let seek = EncodeFactKey ref t max_seq in
         if seek = [] then InvalidArgument ''temporal neighborhood'' ''invalid fact key''
         else
           let prefix = take kFactIdentityPrefixBytes seek
           in sbind (forward_scan limit t prefix none None False (Seek facts seek)) (\<lambda>n.
                backward_scan limit prefix n None False (SeekForPrev facts seek)))"

record current_fact_interval =
  ci_valid_from :: valid_time
  ci_valid_to :: "valid_time option"
  ci_commit_seq :: commit_seq

fun interval_loop :: "bytes \<Rightarrow> valid_time option \<Rightarrow> kv \<Rightarrow> current_fact_interval list status_or" where
  "interval_loop prefix previous [] = Inr []"
| "interval_loop prefix previous ((k, v) # m) =
     (if \<not> StartsWith k prefix then Inr []
      else sbind (DecodeFactKey k) (\<lambda>d.
        if previous = Some (dk_valid_from d) then interval_loop prefix previous m
        else sbind (interval_loop prefix (Some (dk_valid_from d)) m) (\<lambda>is.
          Inr (\<lparr>ci_valid_from = dk_valid_from d, ci_valid_to = previous,
                ci_commit_seq = dk_commit_seq d\<rparr> # is))))"

definition ScanCurrentFactIntervals :: "kv \<Rightarrow> fact_ref \<Rightarrow> current_fact_interval list status_or" where
  "ScanCurrentFactIntervals facts ref =
     (let prefix = EncodeFactIdentityPrefix (ref_part ref) (ref_family ref) (ref_property ref)
                     (Some (ref_entity ref))
      in interval_loop prefix None (Seek facts prefix))"

section \<open>The events a column family holds\<close>

definition entry :: "fact_event \<Rightarrow> bytes \<times> bytes" where
  "entry e = (key_layout (ev_ref e) (ev_valid_from e) (ev_commit_seq e), event_record e)"

definition facts_ok :: "kv \<Rightarrow> bool" where
  "facts_ok m \<longleftrightarrow> kv_sorted m \<and> (\<forall>x \<in> set m. \<exists>e. storable e \<and> x = entry e)"

definition decode_entry :: "bytes \<times> bytes \<Rightarrow> fact_event list" where
  "decode_entry x =
     (case DecodeFactKey (fst x) of
        Inl _ \<Rightarrow> []
      | Inr d \<Rightarrow> (case DecodeFactValue (dk_ref d) (dk_valid_from d) (dk_commit_seq d) (snd x) of
                   Inl _ \<Rightarrow> [] | Inr e \<Rightarrow> [e]))"

definition events_of :: "kv \<Rightarrow> fact_event list" where
  "events_of m = concat (map decode_entry m)"

definition facts_of :: "kv \<Rightarrow> fact_ref \<Rightarrow> fact_event list" where
  "facts_of m r = filter (\<lambda>e. ev_ref e = r) (events_of m)"

lemma storable_parts:
  "storable e \<Longrightarrow> FactRef_Validate (ev_ref e) = OK \<and> ev_commit_seq e \<noteq> 0 \<and> IsKnownOperation (ev_operation e)"
  by (simp add: storable_def FactEvent_Validate_ref FactEvent_Validate_seq FactEvent_Validate_op)

lemma decode_entry_entry: "storable e \<Longrightarrow> decode_entry (entry e) = [e]"
  using storable_parts [of e]
  by (simp add: decode_entry_def entry_def DecodeFactKey_layout DecodeFactValue_iff [THEN iffD2])

lemma entry_inject: "storable e \<Longrightarrow> storable f \<Longrightarrow> entry e = entry f \<longleftrightarrow> e = f"
  by (metis decode_entry_entry list.inject)

lemma events_of_entries: "\<forall>e \<in> set es. storable e \<Longrightarrow> events_of (map entry es) = es"
  by (induction es) (simp_all add: events_of_def decode_entry_entry)

lemma facts_ok_events:
  assumes "facts_ok m"
  shows "m = map entry (events_of m)" "\<forall>e \<in> set (events_of m). storable e"
proof -
  have "\<exists>es. (\<forall>e \<in> set es. storable e) \<and> m = map entry es"
    using assms unfolding facts_ok_def
  proof (induction m)
    case (Cons x m)
    then obtain e es where "storable e" "x = entry e" "\<forall>e \<in> set es. storable e" "m = map entry es"
      by (auto simp: kv_sorted_Cons)
    then show ?case by (intro exI [of _ "e # es"]) simp
  qed simp
  then show "m = map entry (events_of m)" "\<forall>e \<in> set (events_of m). storable e"
    using events_of_entries by auto
qed

definition ev_less :: "fact_event \<Rightarrow> fact_event \<Rightarrow> bool" where
  "ev_less e f \<longleftrightarrow> bytes_less (fst (entry e)) (fst (entry f))"

lemma facts_ok_sorted: "facts_ok m \<Longrightarrow> sorted_wrt ev_less (events_of m)"
proof -
  assume m: "facts_ok m"
  then have "sorted_wrt kv_less (map entry (events_of m))"
    using facts_ok_events(1) [OF m] by (simp add: facts_ok_def kv_sorted_def)
  then show ?thesis by (simp add: sorted_wrt_map ev_less_def [abs_def] kv_less_def)
qed

lemma facts_ok_key_unique:
  assumes "facts_ok m" "e \<in> set (events_of m)" "f \<in> set (events_of m)" "ev_ref e = ev_ref f"
    "chain_key e = chain_key f"
  shows "e = f"
proof -
  have k: "fst (entry e) = fst (entry f)" using assms(4,5) by (simp add: entry_def chain_key_def)
  have "entry e \<in> set m" "entry f \<in> set m"
    using facts_ok_events(1) [OF assms(1)] assms(2,3) by (metis imageI list.set_map)+
  moreover have "distinct (map fst m)" using assms(1) kv_sorted_distinct by (simp add: facts_ok_def)
  ultimately have "entry e = entry f" using k by (metis eq_key_imp_eq_value prod.collapse)
  with facts_ok_events(2) [OF assms(1)] assms(2,3) entry_inject show ?thesis by blast
qed

lemma ev_less_chain: "ev_ref e = ev_ref f \<Longrightarrow> ev_less e f \<longleftrightarrow> chain_key f < chain_key e"
  by (auto simp: ev_less_def entry_def key_layout_less chain_key_def)

section \<open>Seeking\<close>

lemma key_prefix:
  "key_layout r v c = EncodeFactIdentityPrefix (ref_part r) (ref_family r) (ref_property r) (Some (ref_entity r)) @
     AppendU64 (NOT v) @ AppendU64 (NOT c)"
  by (simp add: key_layout_def EncodeFactIdentityPrefix_def kFactKeyVersion_def)

lemma length_identity_prefix [simp]:
  "length (EncodeFactIdentityPrefix p f q (Some e)) = kFactIdentityPrefixBytes"
  by (simp add: EncodeFactIdentityPrefix_def kFactIdentityPrefixBytes_def)

lemma take_key_prefix:
  "take kFactIdentityPrefixBytes (key_layout r v c) =
     EncodeFactIdentityPrefix (ref_part r) (ref_family r) (ref_property r) (Some (ref_entity r))"
  by (simp add: key_prefix)

definition ref_prefix :: "fact_ref \<Rightarrow> bytes" where
  "ref_prefix r = EncodeFactIdentityPrefix (ref_part r) (ref_family r) (ref_property r) (Some (ref_entity r))"

lemma ref_prefix_inject:
  "FactRef_Validate r = OK \<Longrightarrow> FactRef_Validate s = OK \<Longrightarrow> ref_prefix r = ref_prefix s \<longleftrightarrow> r = s"
proof
  assume valid: "FactRef_Validate r = OK" "FactRef_Validate s = OK" and "ref_prefix r = ref_prefix s"
  then have "key_layout r 0 1 = key_layout s 0 1" by (simp add: key_prefix ref_prefix_def)
  then have "DecodeFactKey (key_layout r 0 1) = DecodeFactKey (key_layout s 0 1)" by (rule arg_cong)
  then show "r = s" by (simp add: DecodeFactKey_layout valid)
qed simp

lemma StartsWith_entry:
  "storable e \<Longrightarrow> FactRef_Validate r = OK \<Longrightarrow> StartsWith (fst (entry e)) (ref_prefix r) \<longleftrightarrow> ev_ref e = r"
  using ref_prefix_inject [of "ev_ref e" r] storable_parts [of e]
  by (simp add: StartsWith_def entry_def ref_prefix_def key_prefix)

text \<open>
  From the key of a time, the entries of the fact come first, and they are the events at or
  before that time, newest first.
\<close>

lemma family_byte_inject:
  "IsKnownFamily f \<Longrightarrow> IsKnownFamily g \<Longrightarrow> family_byte f = family_byte g \<longleftrightarrow> f = g"
  by (metis family_of_byte)

text \<open>An entry between two keys of one fact is a key of that fact.\<close>

lemma key_between:
  assumes "FactRef_Validate r = OK" "FactRef_Validate s = OK"
    "\<not> bytes_less (key_layout s v c) (key_layout r v' c')" "bytes_less (key_layout s v c) (key_layout r v'' c'')"
  shows "s = r"
proof -
  have "IsKnownFamily (ref_family r)" "IsKnownFamily (ref_family s)"
    using assms(1,2) by (simp_all add: FactRef_Validate_OK_iff)
  then have "ref_part s = ref_part r \<and> ref_family s = ref_family r \<and> ref_property s = ref_property r \<and>
      ref_entity s = ref_entity r"
    using assms(3,4) unfolding key_layout_less by (auto simp: family_byte_inject)
  then show ?thesis by simp
qed

lemma key_between':
  assumes "FactRef_Validate r = OK" "FactRef_Validate s = OK"
    "\<not> bytes_less (key_layout r v' c') (key_layout s v c)" "bytes_less (key_layout r v'' c'') (key_layout s v c)"
  shows "s = r"
proof -
  have "IsKnownFamily (ref_family r)" "IsKnownFamily (ref_family s)"
    using assms(1,2) by (simp_all add: FactRef_Validate_OK_iff)
  then have "ref_part s = ref_part r \<and> ref_family s = ref_family r \<and> ref_property s = ref_property r \<and>
      ref_entity s = ref_entity r"
    using assms(3,4) unfolding key_layout_less by (auto simp: family_byte_inject)
  then show ?thesis by simp
qed

lemma forward_events:
  assumes "sorted_wrt ev_less es" "\<forall>e \<in> set es. storable e" "FactRef_Validate r = OK"
  shows "takeWhile (\<lambda>e. ev_ref e = r) (filter (\<lambda>e. \<not> bytes_less (fst (entry e)) (key_layout r t max_seq)) es) =
    filter (\<lambda>e. ev_ref e = r \<and> ev_valid_from e \<le> t) es"
proof -
  let ?ge = "\<lambda>e. \<not> bytes_less (fst (entry e)) (key_layout r t max_seq)"
  have "takeWhile (\<lambda>e. ev_ref e = r) (filter ?ge es) = filter (\<lambda>e. ev_ref e = r) (filter ?ge es)"
  proof (rule takeWhile_filter [where r = ev_less])
    fix x y
    assume "x \<in> set (filter ?ge es)" "ev_less x y" "ev_ref y = r"
    with assms(2,3) storable_parts show "ev_ref x = r"
      by (intro key_between) (auto simp: ev_less_def entry_def)
  qed (simp add: assms sorted_wrt_filter)
  also have "\<dots> = filter (\<lambda>e. ev_ref e = r \<and> ev_valid_from e \<le> t) es"
    by (auto simp: entry_def key_layout_less max_seq_def intro!: filter_cong)
  finally show ?thesis .
qed

section \<open>Loops over stored events\<close>

lemma StartsWith_key:
  "FactRef_Validate s = OK \<Longrightarrow> FactRef_Validate r = OK \<Longrightarrow> StartsWith (key_layout s v c) (ref_prefix r) \<longleftrightarrow> s = r"
  using ref_prefix_inject [of s r] by (simp add: StartsWith_def ref_prefix_def key_prefix)

lemma length_event_record: "storable e \<Longrightarrow> length (event_record e) \<le> kMaxFactValuePayloadBytes + 15"
  by (simp add: storable_def event_record_def seal_def value_body_def)

lemma decode_stored:
  assumes "storable e"
  shows "DecodeFactKey (key_layout (ev_ref e) (ev_valid_from e) (ev_commit_seq e)) =
      Inr \<lparr>dk_ref = ev_ref e, dk_valid_from = ev_valid_from e, dk_commit_seq = ev_commit_seq e\<rparr>"
    "DecodeFactValue (ev_ref e) (ev_valid_from e) (ev_commit_seq e) (event_record e) = Inr e"
    "FactRef_Validate (ev_ref e) = OK" "\<not> kMaxFactValuePayloadBytes + 64 < length (event_record e)"
  using storable_parts [OF assms] assms length_event_record [OF assms]
  by (simp_all add: DecodeFactKey_layout DecodeFactValue_iff)

lemma decode_stored_ref:
  assumes "storable e" "ev_ref e = r"
  shows "DecodeFactKey (key_layout r (ev_valid_from e) (ev_commit_seq e)) =
      Inr \<lparr>dk_ref = r, dk_valid_from = ev_valid_from e, dk_commit_seq = ev_commit_seq e\<rparr>"
    "DecodeFactValue r (ev_valid_from e) (ev_commit_seq e) (event_record e) = Inr e"
  using decode_stored [OF assms(1)] assms(2) by simp_all

lemmas stored_simps = entry_def decode_stored decode_stored_ref StartsWith_key

lemma read_loop_events:
  "\<forall>e \<in> set es. storable e \<Longrightarrow> FactRef_Validate r = OK \<Longrightarrow>
   read_loop snap (ref_prefix r) (map entry es) =
     Inr (case find (\<lambda>e. ev_commit_seq e \<le> snap) (takeWhile (\<lambda>e. ev_ref e = r) es) of
            None \<Rightarrow> None | Some e \<Rightarrow> if ev_operation e = kDelete then None else Some e)"
  by (induction es) (auto simp: stored_simps not_le)

lemma find_hd_filter: "find P xs = (case filter P xs of [] \<Rightarrow> None | x # _ \<Rightarrow> Some x)"
  by (induction xs) auto

text \<open>The first visible event of a descending chain governs.\<close>

lemma chain_descending:
  assumes "sorted_wrt ev_less es"
  shows "sorted_wrt (\<lambda>e f. chain_key f < chain_key e) (filter (\<lambda>e. ev_ref e = r \<and> P e) es)"
proof (rule sorted_wrt_mono_rel [of _ ev_less])
  show "sorted_wrt ev_less (filter (\<lambda>e. ev_ref e = r \<and> P e) es)"
    by (rule sorted_wrt_filter [OF assms])
qed (auto simp: ev_less_chain)

lemma find_governs:
  assumes "sorted_wrt ev_less es"
  shows "find (\<lambda>e. ev_commit_seq e \<le> snap) (filter (\<lambda>e. ev_ref e = r \<and> ev_valid_from e \<le> t) es) = Some e
    \<longleftrightarrow> governs (filter (\<lambda>e. ev_ref e = r) es) snap t e"
proof -
  let ?V = "filter (\<lambda>e. ev_ref e = r \<and> (ev_valid_from e \<le> t \<and> ev_commit_seq e \<le> snap)) es"
  have V: "filter (\<lambda>e. ev_commit_seq e \<le> snap) (filter (\<lambda>e. ev_ref e = r \<and> ev_valid_from e \<le> t) es) = ?V"
    by (auto intro!: filter_cong)
  have mem: "e \<in> set ?V \<longleftrightarrow> e \<in> set (visible (filter (\<lambda>e. ev_ref e = r) es) snap) \<and> ev_valid_from e \<le> t" for e
    by (auto simp: visible_def)
  note desc = chain_descending [OF assms, of r "\<lambda>e. ev_valid_from e \<le> t \<and> ev_commit_seq e \<le> snap"]
  have "(case ?V of [] \<Rightarrow> None | x # _ \<Rightarrow> Some x) = Some e \<longleftrightarrow>
      e \<in> set ?V \<and> (\<forall>f \<in> set ?V. chain_key f \<le> chain_key e)"
    using desc by (cases ?V) (auto simp del: filter_filter)
  then show ?thesis
    unfolding find_hd_filter V governs_def mem using mem by blast
qed

lemma filter_entries:
  "facts_ok m \<Longrightarrow> filter P m = map entry (filter (\<lambda>e. P (entry e)) (events_of m))"
  using arg_cong [OF facts_ok_events(1) [of m], of "filter P"] by (simp add: filter_map comp_def)

lemma Seek_entries:
  "facts_ok m \<Longrightarrow> Seek m k = map entry (filter (\<lambda>e. \<not> bytes_less (fst (entry e)) k) (events_of m))"
  by (subst Seek_filter) (simp_all add: filter_entries, simp add: facts_ok_def)

lemma SeekForPrev_entries:
  "facts_ok m \<Longrightarrow>
   SeekForPrev m k = map entry (rev (filter (\<lambda>e. \<not> bytes_less k (fst (entry e))) (events_of m)))"
  by (subst SeekForPrev_filter) (simp_all add: filter_entries rev_map, simp add: facts_ok_def)

lemma FactStore_Read_governs:
  assumes "facts_ok m" "FactRef_Validate r = OK"
  shows "\<exists>result. FactStore_Read m snap r t = Inr result \<and>
    (\<forall>e. result = Some e \<longleftrightarrow> governs (facts_of m r) snap t e \<and> ev_operation e = kPut)"
proof -
  let ?es = "events_of m"
  let ?scan = "filter (\<lambda>e. \<not> bytes_less (fst (entry e)) (key_layout r t max_seq)) ?es"
  have seek: "EncodeFactKey r t max_seq = key_layout r t max_seq" "key_layout r t max_seq \<noteq> []"
    using assms(2) by (simp_all add: EncodeFactKey_layout max_seq_def key_layout_def)
  note es = facts_ok_events(2) [OF assms(1)]
  have "FactStore_Read m snap r t = read_loop snap (ref_prefix r) (map entry ?scan)"
    using assms by (simp add: FactStore_Read_def seek take_key_prefix ref_prefix_def Seek_entries)
  also have "\<dots> = Inr (case find (\<lambda>e. ev_commit_seq e \<le> snap) (filter (\<lambda>e. ev_ref e = r \<and> ev_valid_from e \<le> t) ?es) of
      None \<Rightarrow> None | Some e \<Rightarrow> if ev_operation e = kDelete then None else Some e)"
    using es assms by (simp add: read_loop_events forward_events facts_ok_sorted)
  finally have R: "FactStore_Read m snap r t = \<dots>" .
  have op: "ev_operation e = kPut \<longleftrightarrow> ev_operation e \<noteq> kDelete" if "governs (facts_of m r) snap t e" for e
    using that es storable_parts by (fastforce simp: governs_def visible_def facts_of_def IsKnownOperation_def)
  have found: "find (\<lambda>e. ev_commit_seq e \<le> snap) (filter (\<lambda>e. ev_ref e = r \<and> ev_valid_from e \<le> t) ?es) = Some e
      \<longleftrightarrow> governs (facts_of m r) snap t e" for e
    using find_governs [OF facts_ok_sorted [OF assms(1)]] by (simp add: facts_of_def)
  show ?thesis
  proof (cases "find (\<lambda>e. ev_commit_seq e \<le> snap) (filter (\<lambda>e. ev_ref e = r \<and> ev_valid_from e \<le> t) ?es)")
    case None
    with found R show ?thesis by simp
  next
    case (Some e)
    with found [of f for f] have "governs (facts_of m r) snap t f \<longleftrightarrow> f = e" for f by (metis option.inject)
    with R Some op show ?thesis by auto
  qed
qed

section \<open>Neighborhoods\<close>

text \<open>One iteration of each loop on a stored event.\<close>

lemma forward_step:
  "storable e \<Longrightarrow> FactRef_Validate r = OK \<Longrightarrow>
   forward_scan limit t (ref_prefix r) n boundary visible_boundary (entry e # m) =
     (if ev_ref e \<noteq> r then Inr n
      else if limit < ev_commit_seq e then forward_scan limit t (ref_prefix r) n boundary visible_boundary m
      else if boundary = Some (ev_valid_from e) \<and> visible_boundary
      then forward_scan limit t (ref_prefix r) n boundary True m
      else if tn_observed n = None
      then if ev_valid_from e < t
           then Inr (n\<lparr>tn_observed := Some e, tn_predecessor := Some (ev_valid_from e)\<rparr>)
           else forward_scan limit t (ref_prefix r) (n\<lparr>tn_observed := Some e\<rparr>) (Some (ev_valid_from e)) True m
      else Inr (n\<lparr>tn_predecessor := Some (ev_valid_from e)\<rparr>))"
  by (cases visible_boundary) (simp_all add: stored_simps Let_def)

lemma backward_step:
  "storable e \<Longrightarrow> FactRef_Validate r = OK \<Longrightarrow>
   backward_scan limit (ref_prefix r) n boundary visible_boundary (entry e # m) =
     (if ev_ref e \<noteq> r then Inr (finish_successor n boundary visible_boundary)
      else if boundary \<noteq> Some (ev_valid_from e) \<and> visible_boundary
      then Inr (finish_successor (n\<lparr>tn_successor := boundary\<rparr>) boundary visible_boundary)
      else backward_scan limit (ref_prefix r) n (Some (ev_valid_from e))
             (ev_commit_seq e \<le> limit \<or> visible_boundary) m)"
  by (cases visible_boundary) (auto simp: stored_simps Let_def)

lemma interval_step:
  "storable e \<Longrightarrow> FactRef_Validate r = OK \<Longrightarrow>
   interval_loop (ref_prefix r) previous (entry e # m) =
     (if ev_ref e \<noteq> r then Inr []
      else if previous = Some (ev_valid_from e) then interval_loop (ref_prefix r) previous m
      else sbind (interval_loop (ref_prefix r) (Some (ev_valid_from e)) m) (\<lambda>is.
        Inr (\<lparr>ci_valid_from = ev_valid_from e, ci_valid_to = previous,
              ci_commit_seq = ev_commit_seq e\<rparr> # is)))"
  by (simp add: stored_simps)

lemma forward_in_boundary:
  "\<forall>e \<in> set es. storable e \<Longrightarrow> FactRef_Validate r = OK \<Longrightarrow> tn_observed n \<noteq> None \<Longrightarrow>
   \<forall>e \<in> set (takeWhile (\<lambda>e. ev_ref e = r) es). ev_valid_from e \<le> t \<Longrightarrow>
   forward_scan limit t (ref_prefix r) n (Some t) True (map entry es) =
     Inr (case find (\<lambda>e. ev_commit_seq e \<le> limit \<and> ev_valid_from e < t) (takeWhile (\<lambda>e. ev_ref e = r) es) of
            None \<Rightarrow> n | Some e \<Rightarrow> n\<lparr>tn_predecessor := Some (ev_valid_from e)\<rparr>)"
  by (induction es) (auto simp: forward_step not_le not_less)

lemma forward_from_start:
  "\<forall>e \<in> set es. storable e \<Longrightarrow> FactRef_Validate r = OK \<Longrightarrow> tn_observed n = None \<Longrightarrow>
   \<forall>e \<in> set (takeWhile (\<lambda>e. ev_ref e = r) es). ev_valid_from e \<le> t \<Longrightarrow>
   forward_scan limit t (ref_prefix r) n None False (map entry es) =
     (let chain = takeWhile (\<lambda>e. ev_ref e = r) es in
      Inr (case find (\<lambda>e. ev_commit_seq e \<le> limit) chain of None \<Rightarrow> n
           | Some e \<Rightarrow>
               (case find (\<lambda>e. ev_commit_seq e \<le> limit \<and> ev_valid_from e < t) chain of
                  None \<Rightarrow> n\<lparr>tn_observed := Some e\<rparr>
                | Some p \<Rightarrow> n\<lparr>tn_observed := Some e, tn_predecessor := Some (ev_valid_from p)\<rparr>)))"
proof (induction es)
  case (Cons e es)
  have le: "ev_valid_from e \<le> t" if "ev_ref e = r" using Cons.prems(4) that by simp
  have chain: "ev_ref e = r \<Longrightarrow> \<forall>f \<in> set (takeWhile (\<lambda>e. ev_ref e = r) es). ev_valid_from f \<le> t"
    using Cons.prems(4) by auto
  consider "ev_ref e \<noteq> r" | "ev_ref e = r" "limit < ev_commit_seq e"
    | "ev_ref e = r" "ev_commit_seq e \<le> limit" by force
  then show ?case
  proof cases
    case 3
    show ?thesis
    proof (cases "ev_valid_from e < t")
      case True
      with 3 Cons.prems show ?thesis by (simp add: forward_step Let_def not_less [symmetric])
    next
      case False
      with le 3 have "ev_valid_from e = t" by simp
      with 3 Cons.prems chain forward_in_boundary [of es r "n\<lparr>tn_observed := Some e\<rparr>" t limit]
      show ?thesis by (auto simp: forward_step Let_def split: option.split)
    qed
  qed (use Cons chain in \<open>auto simp: forward_step Let_def split: option.split\<close>)
qed simp

lemma backward_events:
  "\<forall>e \<in> set es. storable e \<Longrightarrow> FactRef_Validate r = OK \<Longrightarrow> tn_successor n = None \<Longrightarrow> (visible_boundary \<Longrightarrow> boundary \<noteq> None) \<Longrightarrow>
   backward_scan limit (ref_prefix r) n boundary visible_boundary (map entry es) =
     Inr (n\<lparr>tn_successor := if visible_boundary then boundary
       else map_option ev_valid_from
              (find (\<lambda>e. ev_commit_seq e \<le> limit) (takeWhile (\<lambda>e. ev_ref e = r) es))\<rparr>)"
proof (induction es arbitrary: boundary visible_boundary)
  case Nil
  then show ?case by (auto simp: finish_successor_def)
next
  case (Cons e es)
  then show ?case
    by (cases "ev_ref e = r"; cases "ev_commit_seq e \<le> limit")
      (auto simp: backward_step finish_successor_def)
qed

text \<open>Backwards from the key of a time, the events after that time come in ascending order.\<close>

lemma backward_chain:
  assumes "sorted_wrt ev_less es" "\<forall>e \<in> set es. storable e" "FactRef_Validate r = OK"
    "\<forall>e \<in> set es. ev_ref e = r \<longrightarrow> ev_commit_seq e \<noteq> max_seq"
  shows "takeWhile (\<lambda>e. ev_ref e = r) (rev (filter (\<lambda>e. \<not> bytes_less (key_layout r t max_seq) (fst (entry e))) es)) =
    rev (filter (\<lambda>e. ev_ref e = r \<and> t < ev_valid_from e) es)"
proof -
  let ?le = "\<lambda>e. \<not> bytes_less (key_layout r t max_seq) (fst (entry e))"
  have "takeWhile (\<lambda>e. ev_ref e = r) (rev (filter ?le es)) = filter (\<lambda>e. ev_ref e = r) (rev (filter ?le es))"
  proof (rule takeWhile_filter [where r = "\<lambda>x y. ev_less y x"])
    show "sorted_wrt (\<lambda>x y. ev_less y x) (rev (filter ?le es))"
      by (simp add: sorted_wrt_rev assms(1) sorted_wrt_filter)
    fix x y
    assume "x \<in> set (rev (filter ?le es))" "ev_less y x" "ev_ref y = r"
    with assms(2,3) storable_parts show "ev_ref x = r"
      by (intro key_between' [of r _ t max_seq "ev_valid_from x" "ev_commit_seq x" "ev_valid_from y" "ev_commit_seq y"])
        (auto simp: ev_less_def entry_def)
  qed
  also have "\<dots> = rev (filter (\<lambda>e. ev_ref e = r) (filter ?le es))"
    by (simp add: rev_filter)
  also have "filter (\<lambda>e. ev_ref e = r) (filter ?le es) = filter (\<lambda>e. ev_ref e = r \<and> t < ev_valid_from e) es"
  proof -
    have "?le e \<and> ev_ref e = r \<longleftrightarrow> ev_ref e = r \<and> t < ev_valid_from e" if "e \<in> set es" for e
      using assms(4) that max_word_max [of "ev_commit_seq e"]
      by (auto simp: entry_def key_layout_less max_seq_def order.order_iff_strict)
    then show ?thesis by (auto intro!: filter_cong)
  qed
  finally show ?thesis .
qed

definition neighborhood_spec :: "fact_event list \<Rightarrow> commit_seq \<Rightarrow> valid_time \<Rightarrow> temporal_neighborhood \<Rightarrow> bool" where
  "neighborhood_spec es limit t n \<longleftrightarrow>
     (let times = ev_valid_from ` set (visible es limit) in
      (\<forall>e. tn_observed n = Some e \<longleftrightarrow> governs es limit t e) \<and>
      (\<forall>p. tn_predecessor n = Some p \<longleftrightarrow> p \<in> times \<and> p < t \<and> (\<forall>q \<in> times. q < t \<longrightarrow> q \<le> p)) \<and>
      (\<forall>p. tn_successor n = Some p \<longleftrightarrow> p \<in> times \<and> t < p \<and> (\<forall>q \<in> times. t < q \<longrightarrow> p \<le> q)))"

lemma option_eqI: "(\<And>x. a = Some x \<longleftrightarrow> b = Some x) \<Longrightarrow> a = b"
  by (cases a; cases b) auto

lemma neighborhood_unique:
  assumes "neighborhood_spec es limit t n" "neighborhood_spec es limit t n'"
  shows "n = n'"
proof -
  have "tn_observed n = tn_observed n'" "tn_predecessor n = tn_predecessor n'" "tn_successor n = tn_successor n'"
    by (rule option_eqI, use assms in \<open>simp add: neighborhood_spec_def Let_def\<close>)+
  then show ?thesis by simp
qed

lemma chain_key_mono: "chain_key e < chain_key f \<Longrightarrow> ev_valid_from e \<le> ev_valid_from f"
  using chain_key_le [of e f] by simp

lemma find_predecessor:
  assumes "sorted_wrt (\<lambda>e f. chain_key f < chain_key e) es"
  shows "map_option ev_valid_from (find P es) = Some p \<longleftrightarrow>
    (\<exists>e \<in> set es. P e \<and> ev_valid_from e = p \<and> (\<forall>f \<in> set es. P f \<longrightarrow> ev_valid_from f \<le> p))"
  using assms
proof (induction es)
  case (Cons e es)
  have later: "\<forall>f \<in> set es. ev_valid_from f \<le> ev_valid_from e"
    using Cons.prems by (auto dest: chain_key_mono)
  show ?case
  proof (cases "P e")
    case True
    with later show ?thesis by (auto intro: antisym)
  next
    case False
    with Cons show ?thesis by auto
  qed
qed simp

lemma find_successor:
  assumes "sorted_wrt (\<lambda>e f. chain_key e < chain_key f) es"
  shows "map_option ev_valid_from (find P es) = Some p \<longleftrightarrow>
    (\<exists>e \<in> set es. P e \<and> ev_valid_from e = p \<and> (\<forall>f \<in> set es. P f \<longrightarrow> p \<le> ev_valid_from f))"
  using assms
proof (induction es)
  case (Cons e es)
  have later: "\<forall>f \<in> set es. ev_valid_from e \<le> ev_valid_from f"
    using Cons.prems by (auto dest: chain_key_mono)
  show ?case
  proof (cases "P e")
    case True
    with later show ?thesis by (auto intro: antisym)
  next
    case False
    with Cons show ?thesis by auto
  qed
qed simp

lemma Neighborhood_spec:
  assumes "facts_ok m" "FactRef_Validate r = OK" "\<forall>e \<in> set (facts_of m r). ev_commit_seq e \<noteq> max_seq"
    "\<not> might r \<Longrightarrow> facts_of m r = []"
  shows "\<exists>n. ReadTemporalNeighborhood might m r t limit = Inr n \<and> neighborhood_spec (facts_of m r) limit t n"
proof (cases "might r")
  case False
  with assms show ?thesis
    by (simp add: ReadTemporalNeighborhood_def neighborhood_spec_def governs_def visible_def)
next
  case True
  let ?es = "events_of m" and ?p = "ref_prefix r"
  let ?none = "\<lparr>tn_observed = None, tn_predecessor = None, tn_successor = None\<rparr>"
  let ?F = "filter (\<lambda>e. ev_ref e = r \<and> ev_valid_from e \<le> t) ?es"
  let ?B = "rev (filter (\<lambda>e. ev_ref e = r \<and> t < ev_valid_from e) ?es)"
  note es = facts_ok_events(2) [OF assms(1)] and sorted = facts_ok_sorted [OF assms(1)]
  have seek: "EncodeFactKey r t max_seq = key_layout r t max_seq" "key_layout r t max_seq \<noteq> []"
    using assms(2) by (simp_all add: EncodeFactKey_layout max_seq_def key_layout_def)
  have F: "takeWhile (\<lambda>e. ev_ref e = r) (filter (\<lambda>e. \<not> bytes_less (fst (entry e)) (key_layout r t max_seq)) ?es) = ?F"
    by (rule forward_events [OF sorted es assms(2)])
  have B: "takeWhile (\<lambda>e. ev_ref e = r) (rev (filter (\<lambda>e. \<not> bytes_less (key_layout r t max_seq) (fst (entry e))) ?es)) = ?B"
    using assms(3) by (intro backward_chain [OF sorted es assms(2)]) (auto simp: facts_of_def)
  define obs where "obs = find (\<lambda>e. ev_commit_seq e \<le> limit) ?F"
  define pred where "pred = find (\<lambda>e. ev_commit_seq e \<le> limit \<and> ev_valid_from e < t) ?F"
  define succ where "succ = map_option ev_valid_from (find (\<lambda>e. ev_commit_seq e \<le> limit) ?B)"
  let ?n = "\<lparr>tn_observed = obs, tn_predecessor = map_option ev_valid_from pred, tn_successor = succ\<rparr>"
  have "pred = None" if "obs = None"
    using that by (auto simp: pred_def obs_def find_None_iff)
  moreover have "forward_scan limit t ?p ?none None False (Seek m (key_layout r t max_seq)) =
      Inr (case obs of None \<Rightarrow> ?none
           | Some e \<Rightarrow> (case pred of None \<Rightarrow> ?none\<lparr>tn_observed := Some e\<rparr>
               | Some p \<Rightarrow> ?none\<lparr>tn_observed := Some e, tn_predecessor := Some (ev_valid_from p)\<rparr>))"
    using forward_from_start [of "filter (\<lambda>e. \<not> bytes_less (fst (entry e)) (key_layout r t max_seq)) ?es" r ?none t limit]
      es assms(1,2) unfolding F
    by (simp add: Seek_entries Let_def obs_def pred_def split: option.split)
  ultimately have fwd: "forward_scan limit t ?p ?none None False (Seek m (key_layout r t max_seq)) =
      Inr (?n\<lparr>tn_successor := None\<rparr>)"
    by (cases obs; cases pred) simp_all
  have bwd: "backward_scan limit ?p (?n\<lparr>tn_successor := None\<rparr>) None False (SeekForPrev m (key_layout r t max_seq)) = Inr ?n"
    using backward_events [of "rev (filter (\<lambda>e. \<not> bytes_less (key_layout r t max_seq) (fst (entry e))) ?es)" r
        "?n\<lparr>tn_successor := None\<rparr>" False None limit]
      es assms(1,2) unfolding B by (simp add: SeekForPrev_entries succ_def)
  have "ReadTemporalNeighborhood might m r t limit = Inr ?n"
    using True assms(2) fwd bwd
    by (simp add: ReadTemporalNeighborhood_def seek take_key_prefix ref_prefix_def [symmetric])
  moreover have "neighborhood_spec (facts_of m r) limit t ?n"
  proof -
    let ?times = "ev_valid_from ` set (visible (facts_of m r) limit)"
    have "obs = Some e \<longleftrightarrow> governs (facts_of m r) limit t e" for e
      using find_governs [OF sorted] by (simp add: obs_def facts_of_def)
    moreover have "map_option ev_valid_from pred = Some p \<longleftrightarrow>
        p \<in> ?times \<and> p < t \<and> (\<forall>q \<in> ?times. q < t \<longrightarrow> q \<le> p)" for p
      unfolding pred_def find_predecessor [OF chain_descending [OF sorted]]
      by (auto simp: visible_def facts_of_def image_iff)
    moreover have "succ = Some p \<longleftrightarrow> p \<in> ?times \<and> t < p \<and> (\<forall>q \<in> ?times. t < q \<longrightarrow> p \<le> q)" for p
      unfolding succ_def
      by (subst find_successor)
        (auto simp: visible_def facts_of_def image_iff sorted_wrt_rev chain_descending [OF sorted])
    ultimately show ?thesis by (simp add: neighborhood_spec_def Let_def)
  qed
  ultimately show ?thesis by blast
qed

section \<open>Current intervals\<close>

text \<open>The loop without the encoding: one interval per boundary, with its latest commit.\<close>

fun boundary_list :: "valid_time option \<Rightarrow> fact_event list \<Rightarrow> current_fact_interval list" where
  "boundary_list previous [] = []"
| "boundary_list previous (e # es) =
     (if previous = Some (ev_valid_from e) then boundary_list previous es
      else \<lparr>ci_valid_from = ev_valid_from e, ci_valid_to = previous, ci_commit_seq = ev_commit_seq e\<rparr>
             # boundary_list (Some (ev_valid_from e)) es)"

lemma interval_loop_events:
  "\<forall>e \<in> set es. storable e \<Longrightarrow> FactRef_Validate r = OK \<Longrightarrow>
   interval_loop (ref_prefix r) previous (map entry es) =
     Inr (boundary_list previous (takeWhile (\<lambda>e. ev_ref e = r) es))"
  by (induction es arbitrary: previous) (auto simp: interval_step)

lemma bytes_less_prefix:
  "length p = length q \<Longrightarrow> p \<noteq> q \<Longrightarrow> bytes_less (p @ x) (q @ y) = bytes_less p q"
  by (induction p q rule: list_induct2) auto

lemma prefix_events:
  assumes "sorted_wrt ev_less es" "\<forall>e \<in> set es. storable e" "FactRef_Validate r = OK"
  shows "takeWhile (\<lambda>e. ev_ref e = r) (filter (\<lambda>e. \<not> bytes_less (fst (entry e)) (ref_prefix r)) es) =
    filter (\<lambda>e. ev_ref e = r) es"
proof -
  let ?ge = "\<lambda>e. \<not> bytes_less (fst (entry e)) (ref_prefix r)"
  have split: "fst (entry e) = ref_prefix (ev_ref e) @ AppendU64 (NOT (ev_valid_from e)) @ AppendU64 (NOT (ev_commit_seq e))" for e
    by (simp add: entry_def key_prefix ref_prefix_def)
  have len: "length (ref_prefix s) = length (ref_prefix r)" for s by (simp add: ref_prefix_def)
  have other: "bytes_less (fst (entry e)) (ref_prefix r @ z) = bytes_less (fst (entry e)) (ref_prefix r)"
    if "ref_prefix (ev_ref e) \<noteq> ref_prefix r" for e z
    using that bytes_less_prefix [OF len that, of _ "[]"] bytes_less_prefix [OF len that, of _ z]
    unfolding split by simp
  have "takeWhile (\<lambda>e. ev_ref e = r) (filter ?ge es) = filter (\<lambda>e. ev_ref e = r) (filter ?ge es)"
  proof (rule takeWhile_filter [where r = ev_less])
    fix x y
    assume x: "x \<in> set (filter ?ge es)" and "ev_less x y" "ev_ref y = r"
    then have "bytes_less (fst (entry x)) (ref_prefix r @ AppendU64 (NOT (ev_valid_from y)) @ AppendU64 (NOT (ev_commit_seq y)))"
      by (simp add: ev_less_def split [of y])
    with x other [of x] have "ref_prefix (ev_ref x) = ref_prefix r" by auto
    with x assms(2,3) storable_parts ref_prefix_inject show "ev_ref x = r" by auto
  qed (simp add: assms(1) sorted_wrt_filter)
  also have "\<dots> = filter (\<lambda>e. ev_ref e = r) es"
    using bytes_less_append_same [of "ref_prefix r" _ "[]"] by (auto simp: split intro!: filter_cong)
  finally show ?thesis .
qed

lemma ScanCurrentFactIntervals_events:
  assumes "facts_ok m" "FactRef_Validate r = OK"
  shows "ScanCurrentFactIntervals m r = Inr (boundary_list None (facts_of m r))"
  using assms facts_ok_events(2) [OF assms(1)] facts_ok_sorted [OF assms(1)]
  by (simp add: ScanCurrentFactIntervals_def ref_prefix_def [symmetric] Seek_entries
      interval_loop_events prefix_events facts_of_def)

lemma boundary_list_covers:
  "sorted_wrt (\<lambda>e f. chain_key f < chain_key e) es \<Longrightarrow> e \<in> set es \<Longrightarrow> previous \<noteq> Some (ev_valid_from e) \<Longrightarrow>
   \<exists>i \<in> set (boundary_list previous es). ci_valid_from i = ev_valid_from e \<and> ev_commit_seq e \<le> ci_commit_seq i"
proof (induction es arbitrary: previous)
  case (Cons f es)
  show ?case
  proof (cases "ev_valid_from f = ev_valid_from e")
    case True
    have "ev_commit_seq e \<le> ev_commit_seq f"
      using Cons.prems(1,2) True by (auto simp: chain_key_def)
    with True Cons.prems(3) show ?thesis by auto
  next
    case False
    with Cons.prems have "e \<in> set es" by auto
    with False Cons show ?thesis by auto
  qed
qed simp

lemma boundary_list_sound:
  "sorted_wrt (\<lambda>e f. chain_key f < chain_key e) es \<Longrightarrow>
   \<forall>e \<in> set es. \<forall>p. previous = Some p \<longrightarrow> ev_valid_from e \<le> p \<Longrightarrow>
   i \<in> set (boundary_list previous es) \<Longrightarrow>
   \<exists>e \<in> set es. ci_valid_from i = ev_valid_from e \<and> ci_commit_seq i = ev_commit_seq e \<and>
     previous \<noteq> Some (ev_valid_from e) \<and>
     (\<forall>f \<in> set es. ev_valid_from f = ev_valid_from e \<longrightarrow> ev_commit_seq f \<le> ev_commit_seq e) \<and>
     (case ci_valid_to i of
        None \<Rightarrow> previous = None \<and> (\<forall>f \<in> set es. ev_valid_from f \<le> ev_valid_from e)
      | Some x \<Rightarrow> ev_valid_from e < x \<and> (previous = Some x \<or> x \<in> ev_valid_from ` set es) \<and>
                  (\<forall>f \<in> set es. ev_valid_from e < ev_valid_from f \<longrightarrow> x \<le> ev_valid_from f))"
proof (induction es arbitrary: previous)
  case (Cons e es)
  have later: "\<forall>f \<in> set es. ev_valid_from f \<le> ev_valid_from e \<and>
      (ev_valid_from f = ev_valid_from e \<longrightarrow> ev_commit_seq f \<le> ev_commit_seq e)"
    using Cons.prems(1) by (auto dest: chain_key_mono simp: chain_key_def)
  show ?case
  proof (cases "previous = Some (ev_valid_from e)")
    case True
    with Cons.prems(3) have "i \<in> set (boundary_list previous es)" by simp
    with Cons.IH [of previous] Cons.prems obtain e' where e': "e' \<in> set es"
      "ci_valid_from i = ev_valid_from e'" "ci_commit_seq i = ev_commit_seq e'"
      "previous \<noteq> Some (ev_valid_from e')"
      "\<forall>f \<in> set es. ev_valid_from f = ev_valid_from e' \<longrightarrow> ev_commit_seq f \<le> ev_commit_seq e'"
      "case ci_valid_to i of
         None \<Rightarrow> previous = None \<and> (\<forall>f \<in> set es. ev_valid_from f \<le> ev_valid_from e')
       | Some x \<Rightarrow> ev_valid_from e' < x \<and> (previous = Some x \<or> x \<in> ev_valid_from ` set es) \<and>
                   (\<forall>f \<in> set es. ev_valid_from e' < ev_valid_from f \<longrightarrow> x \<le> ev_valid_from f)"
      by auto
    with True later show ?thesis
      by (intro bexI [of _ e']) (auto split: option.splits)
  next
    case fresh: False
    show ?thesis
    proof (cases "i \<in> set (boundary_list (Some (ev_valid_from e)) es)")
      case True
      with Cons.IH [of "Some (ev_valid_from e)"] Cons.prems(1) later obtain e' where e': "e' \<in> set es"
        "ci_valid_from i = ev_valid_from e'" "ci_commit_seq i = ev_commit_seq e'"
        "ev_valid_from e \<noteq> ev_valid_from e'"
        "\<forall>f \<in> set es. ev_valid_from f = ev_valid_from e' \<longrightarrow> ev_commit_seq f \<le> ev_commit_seq e'"
        "case ci_valid_to i of
           None \<Rightarrow> False
         | Some x \<Rightarrow> ev_valid_from e' < x \<and> (ev_valid_from e = x \<or> x \<in> ev_valid_from ` set es) \<and>
                     (\<forall>f \<in> set es. ev_valid_from e' < ev_valid_from f \<longrightarrow> x \<le> ev_valid_from f)"
        by (auto split: option.splits)
      moreover from this later have "ev_valid_from e' < ev_valid_from e" by (simp add: order.not_eq_order_implies_strict)
      moreover have "previous \<noteq> Some (ev_valid_from e')"
        using Cons.prems(2) calculation by fastforce
      ultimately show ?thesis
        using later by (intro bexI [of _ e']) (auto split: option.splits)
    next
      case False
      with Cons.prems(3) fresh have i: "i = \<lparr>ci_valid_from = ev_valid_from e, ci_valid_to = previous,
          ci_commit_seq = ev_commit_seq e\<rparr>" by simp
      have "ev_valid_from e < p" if "previous = Some p" for p
        using Cons.prems(2) fresh that by (simp add: order.not_eq_order_implies_strict)
      with i later fresh show ?thesis
        by (intro bexI [of _ e]) (auto split: option.splits)
    qed
  qed
qed simp

section \<open>Properties\<close>

text \<open>
  C18: a point read is right about every fact, valid time and snapshot: on a facts column
  family that holds encoded events, \<^verbatim>\<open>FactStore::Read\<close> succeeds, and what it returns is the
  event that governs the time at the snapshot, or nothing when there is none or it is a DELETE.
\<close>

theorem point_read_correct:
  assumes "facts_ok m" "FactRef_Validate r = OK"
  shows "\<exists>result. FactStore_Read m snap r t = Inr result \<and>
    (\<forall>e. result = Some e \<longleftrightarrow> governs (facts_of m r) snap t e \<and> ev_operation e = kPut)"
  using assms by (rule FactStore_Read_governs)

lemma sample_facts_ok: "facts_ok [entry sample_event]"
  using sample_event_encodes
  by (auto simp: facts_ok_def kv_sorted_def EncodeFactValue_iff)

lemma sample_ref_valid: "FactRef_Validate (ev_ref sample_event) = OK"
  using sample_event_encodes storable_parts by (simp add: EncodeFactValue_iff)

theorem point_read_correct_witness:
  "\<exists>result. FactStore_Read [entry sample_event] 100 (ev_ref sample_event) 50 = Inr result \<and>
    (\<forall>e. result = Some e \<longleftrightarrow>
       governs (facts_of [entry sample_event] (ev_ref sample_event)) 100 50 e \<and> ev_operation e = kPut)"
  by (rule point_read_correct [OF sample_facts_ok sample_ref_valid])

text \<open>
  C39: the neighborhood a strict read records is exact: the observed event governs the time,
  the predecessor is the greatest earlier and the successor the least later valid time with
  an event visible at the limit. The identity filter may only skip a scan that would find
  nothing; the last commit sequence is the one number the seek key cannot tell from itself.
\<close>

theorem neighborhood_correct:
  assumes "facts_ok m" "FactRef_Validate r = OK" "\<forall>e \<in> set (facts_of m r). ev_commit_seq e \<noteq> max_seq"
    "\<not> might r \<Longrightarrow> facts_of m r = []"
  shows "\<exists>n. ReadTemporalNeighborhood might m r t limit = Inr n \<and> neighborhood_spec (facts_of m r) limit t n"
  using assms by (rule Neighborhood_spec)

theorem neighborhood_correct_witness:
  "\<exists>n. ReadTemporalNeighborhood (\<lambda>_. True) [entry sample_event] (ev_ref sample_event) 50 100 = Inr n \<and>
       neighborhood_spec (facts_of [entry sample_event] (ev_ref sample_event)) 100 50 n"
proof (rule neighborhood_correct [OF sample_facts_ok sample_ref_valid])
  have "events_of [entry sample_event] = [sample_event]"
    using events_of_entries [of "[sample_event]"] sample_event_encodes by (simp add: EncodeFactValue_iff)
  then show "\<forall>e \<in> set (facts_of [entry sample_event] (ev_ref sample_event)). ev_commit_seq e \<noteq> max_seq"
    by (simp add: facts_of_def sample_event_def max_seq_def)
qed simp

end
