(* ===== verification/Commit_Validation.thy ===== *)
theory Commit_Validation
  imports Fact_Reader Commit_Batch
begin

text \<open>
  The checks a commit passes against the current store
  (\<^verbatim>\<open>src/src/storage/rocks/rocks_adapter.cc\<close>): snapshot write dependencies against later
  overlapping events, strict read dependencies against changes of what was read, and edge
  identities against the identities already recorded. The in-memory aids that let a check
  skip or shorten a scan (recent-write index, identity history, validation cache) enter through
  their answers; a locale states what the checks rely on.
\<close>

section \<open>In-memory aids\<close>

record aids =
  aid_unchanged :: "fact_ref \<Rightarrow> commit_seq \<Rightarrow> bool"
  aid_might :: "fact_ref \<Rightarrow> bool"
  aid_cached :: "fact_ref \<Rightarrow> (valid_time \<times> commit_seq) list option"

text \<open>The answers of a store without them (null pointers).\<close>

definition no_aids :: aids where
  "no_aids = \<lparr>aid_unchanged = (\<lambda>_ _. False), aid_might = (\<lambda>_. True), aid_cached = (\<lambda>_. None)\<rparr>"

fun intervals_of :: "valid_time option \<Rightarrow> (valid_time \<times> commit_seq) list \<Rightarrow> current_fact_interval list" where
  "intervals_of previous [] = []"
| "intervals_of previous ((v, c) # bs) =
     \<lparr>ci_valid_from = v, ci_valid_to = previous, ci_commit_seq = c\<rparr> # intervals_of (Some v) bs"

definition CachedFactIntervals :: "aids \<Rightarrow> fact_ref \<Rightarrow> current_fact_interval list option" where
  "CachedFactIntervals a ref = map_option (intervals_of None) (aid_cached a ref)"

section \<open>Snapshot write dependencies\<close>

fun pending_dependencies ::
  "aids \<Rightarrow> commit_seq \<Rightarrow> snapshot_write_dependency list \<Rightarrow> snapshot_write_dependency list status_or" where
  "pending_dependencies a visible_seq [] = Inr []"
| "pending_dependencies a visible_seq (d # ds) =
     (if sw_snapshot_seq d > visible_seq
      then InvalidArgument ''commit'' ''snapshot dependency exceeds visible watermark''
      else if aid_unchanged a (sw_ref d) (sw_snapshot_seq d) \<or> \<not> aid_might a (sw_ref d)
      then pending_dependencies a visible_seq ds
      else sbind (pending_dependencies a visible_seq ds) (\<lambda>rest. Inr (d # rest)))"

definition ref_tuple :: "fact_ref \<Rightarrow> u32 \<times> u8 \<times> u16 \<times> u64" where
  "ref_tuple r = (ref_part r, family_byte (ref_family r), ref_property r, ref_entity r)"

definition interval_conflicts :: "snapshot_write_dependency \<Rightarrow> current_fact_interval \<Rightarrow> bool" where
  "interval_conflicts d i \<longleftrightarrow>
     (if ci_commit_seq i \<le> sw_snapshot_seq d then False
      else if ci_valid_from i < sw_valid_from d
      then \<not> (case ci_valid_to i of None \<Rightarrow> True | Some x \<Rightarrow> x \<le> sw_valid_from d)
      else \<not> (case sw_successor d of None \<Rightarrow> False | Some x \<Rightarrow> ci_valid_from i \<ge> x))"

text \<open>One pass over the groups of dependencies on the same fact, whose intervals are read once.\<close>

function check_pending :: "aids \<Rightarrow> kv \<Rightarrow> snapshot_write_dependency list \<Rightarrow> status" where
  "check_pending a facts [] = OK"
| "check_pending a facts (d # ds) =
     sbind (case CachedFactIntervals a (sw_ref d) of
              Some is \<Rightarrow> Inr is | None \<Rightarrow> ScanCurrentFactIntervals facts (sw_ref d)) (\<lambda>is.
       if list_ex (\<lambda>x. list_ex (interval_conflicts x) is) (d # takeWhile (\<lambda>x. sw_ref x = sw_ref d) ds)
       then Conflict ''commit'' ''snapshot write conflicts with a later overlapping event''
       else check_pending a facts (dropWhile (\<lambda>x. sw_ref x = sw_ref d) ds))"
  by pat_completeness auto
termination
  by (relation "measure (\<lambda>(a, facts, ds). length ds)") (auto simp: le_imp_less_Suc length_dropWhile_le)

definition ValidateSnapshotWriteDependencies ::
  "aids \<Rightarrow> kv \<Rightarrow> commit_seq \<Rightarrow> snapshot_write_dependency list \<Rightarrow> status" where
  "ValidateSnapshotWriteDependencies a facts visible_seq deps =
     sbind (pending_dependencies a visible_seq deps) (\<lambda>pending.
       check_pending a facts (sort_key (\<lambda>d. ref_tuple (sw_ref d)) pending))"

section \<open>Strict read dependencies\<close>

definition SameEvent :: "fact_event \<Rightarrow> fact_event \<Rightarrow> bool" where
  "SameEvent l r \<longleftrightarrow>
     ev_ref l = ev_ref r \<and> ev_valid_from l = ev_valid_from r \<and> ev_commit_seq l = ev_commit_seq r \<and>
     ev_operation l = ev_operation r \<and> ev_schema_epoch l = ev_schema_epoch r \<and>
     opt_val_eq (ev_value l) (ev_value r)"

definition SameFactEvent :: "fact_event option \<Rightarrow> fact_event option \<Rightarrow> bool" where
  "SameFactEvent l r \<longleftrightarrow>
     (case (l, r) of (None, None) \<Rightarrow> True | (Some x, Some y) \<Rightarrow> SameEvent x y | _ \<Rightarrow> False)"

definition SameStrictReadIdentity :: "temporal_neighborhood \<Rightarrow> temporal_neighborhood \<Rightarrow> bool" where
  "SameStrictReadIdentity l r \<longleftrightarrow>
     SameFactEvent (tn_observed l) (tn_observed r) \<and> tn_predecessor l = tn_predecessor r \<and>
     tn_successor l = tn_successor r"

definition MatchesStrictReadDependency :: "temporal_neighborhood \<Rightarrow> strict_read_dependency \<Rightarrow> bool" where
  "MatchesStrictReadDependency n d \<longleftrightarrow>
     SameFactEvent (tn_observed n) (st_observed d) \<and> tn_predecessor n = st_predecessor d \<and>
     tn_successor n = st_successor d"

fun ValidateStrictReadDependencies ::
  "aids \<Rightarrow> kv \<Rightarrow> commit_seq \<Rightarrow> strict_read_dependency list \<Rightarrow> status" where
  "ValidateStrictReadDependencies a facts visible_seq [] = OK"
| "ValidateStrictReadDependencies a facts visible_seq (d # ds) =
     (if st_snapshot_seq d > visible_seq
      then InvalidArgument ''commit'' ''strict dependency exceeds visible watermark''
      else sbind (ReadTemporalNeighborhood (aid_might a) facts (st_ref d) (st_valid_time d) (st_snapshot_seq d)) (\<lambda>at_snapshot.
        if \<not> MatchesStrictReadDependency at_snapshot d
        then Conflict ''commit'' ''strict read identity does not match its snapshot''
        else sbind (ReadTemporalNeighborhood (aid_might a) facts (st_ref d) (st_valid_time d) visible_seq) (\<lambda>current.
          if \<not> SameStrictReadIdentity at_snapshot current
          then Conflict ''commit'' ''strict read was changed after its snapshot''
          else ValidateStrictReadDependencies a facts visible_seq ds)))"

section \<open>Edge identities\<close>

definition identity_ref :: "part_id \<Rightarrow> entity_id \<Rightarrow> fact_ref" where
  "identity_ref home edge =
     \<lparr>ref_part = home, ref_family = kEdgeIdentity, ref_property = 0, ref_entity = edge\<rparr>"

fun identity_loop :: "bytes \<Rightarrow> kv \<Rightarrow> edge_identity option status_or" where
  "identity_loop prefix [] = Inr None"
| "identity_loop prefix ((k, v) # m) =
     (if \<not> StartsWith k prefix then Inr None
      else sbind (DecodeFactKey k) (\<lambda>d.
        sbind (DecodeFactValue (dk_ref d) (dk_valid_from d) (dk_commit_seq d) v) (\<lambda>e.
          if ev_operation e = kDelete then Inr None
          else if ev_identity e = None
          then Corruption ''edge identity'' ''identity fact lacks identity payload''
          else Inr (ev_identity e))))"

definition ReadLatestEdgeIdentity :: "kv \<Rightarrow> edge_ref \<Rightarrow> edge_identity option status_or" where
  "ReadLatestEdgeIdentity facts edge =
     (let seek = EncodeFactKey (identity_ref (er_home edge) (er_edge edge)) 0 max_seq in
      if seek = [] then InvalidArgument ''edge identity'' ''invalid edge key''
      else identity_loop (take kFactIdentityPrefixBytes seek) (Seek facts seek))"

fun check_assertions :: "kv \<Rightarrow> edge_identity list \<Rightarrow> pending_mutation list \<Rightarrow> status" where
  "check_assertions facts supplied [] = OK"
| "check_assertions facts supplied (m # ms) =
     (if ref_family (mu_ref m) \<noteq> kEdgeState \<or> mu_operation m \<noteq> kPut
      then check_assertions facts supplied ms
      else sbind (ReadLatestEdgeIdentity facts
                    \<lparr>er_home = ref_part (mu_ref m), er_edge = ref_entity (mu_ref m)\<rparr>) (\<lambda>existing.
        if existing = None \<and>
           \<not> list_ex (\<lambda>i. ei_home i = ref_part (mu_ref m) \<and> ei_edge i = ref_entity (mu_ref m)) supplied
        then InvalidArgument ''commit'' ''first edge assertion requires identity''
        else check_assertions facts supplied ms))"

fun check_identities :: "kv \<Rightarrow> edge_identity list \<Rightarrow> status" where
  "check_identities facts [] = OK"
| "check_identities facts (i # is) =
     sbind (ReadLatestEdgeIdentity facts (EdgeIdentity_edge_ref i)) (\<lambda>existing.
       if existing \<noteq> None \<and> existing \<noteq> Some i
       then Inl (Status_init kIdentityConflict ''commit'' ''edge ID has a different identity'')
       else check_identities facts is)"

definition ValidateEdgeIdentitiesForCommit :: "kv \<Rightarrow> store_commit_batch \<Rightarrow> status" where
  "ValidateEdgeIdentitiesForCommit facts b =
     sbind (check_assertions facts (cb_edge_identities b) (cb_mutations b)) (\<lambda>_.
       check_identities facts (cb_edge_identities b))"

section \<open>What the checks rely on\<close>

locale sound_aids =
  fixes facts :: kv and a :: aids
  assumes unchanged: "aid_unchanged a r s \<Longrightarrow> e \<in> set (facts_of facts r) \<Longrightarrow> ev_commit_seq e \<le> s"
    and might: "\<not> aid_might a r \<Longrightarrow> facts_of facts r = []"
    and cached: "aid_cached a r = Some bs \<Longrightarrow> intervals_of None bs = boundary_list None (facts_of facts r)"
begin

lemma intervals:
  assumes "facts_ok facts" "FactRef_Validate r = OK"
  shows "(case CachedFactIntervals a r of Some is \<Rightarrow> Inr is | None \<Rightarrow> ScanCurrentFactIntervals facts r) =
    Inr (boundary_list None (facts_of facts r))"
  using ScanCurrentFactIntervals_events [OF assms] cached [of r]
  by (auto simp: CachedFactIntervals_def split: option.split)

end

interpretation plain: sound_aids facts no_aids for facts
  by unfold_locales (simp_all add: no_aids_def)

text \<open>An event written after the snapshot that overlaps the interval a write covers.\<close>

definition conflicting_event :: "fact_event list \<Rightarrow> snapshot_write_dependency \<Rightarrow> fact_event \<Rightarrow> bool" where
  "conflicting_event es d e \<longleftrightarrow>
     e \<in> set es \<and> ev_commit_seq e > sw_snapshot_seq d \<and>
     (if ev_valid_from e < sw_valid_from d
      then (\<forall>f \<in> set es. ev_valid_from f = ev_valid_from e \<longrightarrow> ev_commit_seq f \<le> ev_commit_seq e) \<and>
           (\<exists>f \<in> set es. ev_valid_from e < ev_valid_from f) \<and>
           (\<forall>f \<in> set es. ev_valid_from e < ev_valid_from f \<longrightarrow> sw_valid_from d < ev_valid_from f)
      else (case sw_successor d of None \<Rightarrow> True | Some x \<Rightarrow> ev_valid_from e < x))"

lemma facts_of_descending:
  "facts_ok m \<Longrightarrow> sorted_wrt (\<lambda>e f. chain_key f < chain_key e) (facts_of m r)"
  using chain_descending [OF facts_ok_sorted, of m r "\<lambda>_. True"] by (simp add: facts_of_def)

lemma interval_conflicts_iff:
  assumes "sorted_wrt (\<lambda>e f. chain_key f < chain_key e) es"
  shows "list_ex (interval_conflicts d) (boundary_list None es) \<longleftrightarrow> (\<exists>e. conflicting_event es d e)"
proof
  assume "list_ex (interval_conflicts d) (boundary_list None es)"
  then obtain i where i: "i \<in> set (boundary_list None es)" "interval_conflicts d i"
    by (auto simp: list_ex_iff)
  from boundary_list_sound [OF assms _ i(1)] obtain e where "e \<in> set es"
    "ci_valid_from i = ev_valid_from e" "ci_commit_seq i = ev_commit_seq e"
    "\<forall>f \<in> set es. ev_valid_from f = ev_valid_from e \<longrightarrow> ev_commit_seq f \<le> ev_commit_seq e"
    "case ci_valid_to i of None \<Rightarrow> (\<forall>f \<in> set es. ev_valid_from f \<le> ev_valid_from e)
     | Some x \<Rightarrow> ev_valid_from e < x \<and> x \<in> ev_valid_from ` set es \<and>
        (\<forall>f \<in> set es. ev_valid_from e < ev_valid_from f \<longrightarrow> x \<le> ev_valid_from f)"
    by (auto split: option.splits)
  with i(2) have "conflicting_event es d e"
    by (auto simp: interval_conflicts_def conflicting_event_def not_le split: option.splits if_splits)
  then show "\<exists>e. conflicting_event es d e" ..
next
  assume "\<exists>e. conflicting_event es d e"
  then obtain e where e: "conflicting_event es d e" by blast
  then have "e \<in> set es" by (simp add: conflicting_event_def)
  with boundary_list_covers [OF assms this, of None] obtain i where
    i: "i \<in> set (boundary_list None es)" "ci_valid_from i = ev_valid_from e" "ev_commit_seq e \<le> ci_commit_seq i"
    by auto
  from boundary_list_sound [OF assms _ i(1)] obtain e' where "e' \<in> set es"
    "ci_valid_from i = ev_valid_from e'" "ci_commit_seq i = ev_commit_seq e'"
    "case ci_valid_to i of None \<Rightarrow> (\<forall>f \<in> set es. ev_valid_from f \<le> ev_valid_from e')
     | Some x \<Rightarrow> ev_valid_from e' < x \<and> x \<in> ev_valid_from ` set es \<and>
        (\<forall>f \<in> set es. ev_valid_from e' < ev_valid_from f \<longrightarrow> x \<le> ev_valid_from f)"
    by (auto split: option.splits)
  with e i have "interval_conflicts d i"
    by (auto simp: interval_conflicts_def conflicting_event_def not_le split: option.splits if_splits)
  with i(1) show "list_ex (interval_conflicts d) (boundary_list None es)" by (auto simp: list_ex_iff)
qed

context sound_aids
begin

lemma skip_sound:
  "aid_unchanged a (sw_ref d) (sw_snapshot_seq d) \<or> \<not> aid_might a (sw_ref d) \<Longrightarrow>
   \<not> conflicting_event (facts_of facts (sw_ref d)) d e"
  using unchanged [of "sw_ref d" "sw_snapshot_seq d" e] might [of "sw_ref d"]
  by (auto simp: conflicting_event_def)

lemma pending_dependencies_Inr:
  "pending_dependencies a v ds = Inr ps \<longleftrightarrow>
     (\<forall>d \<in> set ds. sw_snapshot_seq d \<le> v) \<and>
     ps = filter (\<lambda>d. \<not> (aid_unchanged a (sw_ref d) (sw_snapshot_seq d) \<or> \<not> aid_might a (sw_ref d))) ds"
  by (induction ds arbitrary: ps) (auto simp: sbind_Inr_iff not_less)

lemma pending_dependencies_Inl:
  "pending_dependencies a v ds = Inl err \<Longrightarrow>
   err = Status_init kInvalidArgument ''commit'' ''snapshot dependency exceeds visible watermark''"
  by (induction ds) (auto simp: sbind_def split: if_splits sum.splits)

lemma check_pending_iff:
  assumes "facts_ok facts"
  shows "\<forall>d \<in> set ds. FactRef_Validate (sw_ref d) = OK \<Longrightarrow>
    (check_pending a facts ds = OK \<longleftrightarrow>
       (\<forall>d \<in> set ds. \<forall>e. \<not> conflicting_event (facts_of facts (sw_ref d)) d e)) \<and>
    (check_pending a facts ds = OK \<or> has_code kConflict (check_pending a facts ds))"
proof (induction "length ds" arbitrary: ds rule: less_induct)
  case less
  show ?case
  proof (cases ds)
    case (Cons d es)
    let ?group = "takeWhile (\<lambda>x. sw_ref x = sw_ref d) es" and ?rest = "dropWhile (\<lambda>x. sw_ref x = sw_ref d) es"
    let ?clear = "\<lambda>x. \<forall>e. \<not> conflicting_event (facts_of facts (sw_ref x)) x e"
    have i: "(case CachedFactIntervals a (sw_ref d) of Some is \<Rightarrow> Inr is
        | None \<Rightarrow> ScanCurrentFactIntervals facts (sw_ref d)) = Inr (boundary_list None (facts_of facts (sw_ref d)))"
      using assms less.prems Cons by (simp add: intervals)
    have all: "set es = set ?group \<union> set ?rest" by (metis set_append takeWhile_dropWhile_id)
    have "length ?rest < length ds" using Cons length_dropWhile_le [of _ es] by (simp add: le_imp_less_Suc)
    from less.hyps [OF this] less.prems all Cons
    have IH: "check_pending a facts ?rest = OK \<longleftrightarrow> (\<forall>x \<in> set ?rest. ?clear x)"
      "check_pending a facts ?rest = OK \<or> has_code kConflict (check_pending a facts ?rest)"
      by auto
    have r: "sw_ref x = sw_ref d" if "x \<in> set (d # ?group)" for x
      using that set_takeWhileD [of x _ es] by auto
    have "list_ex (interval_conflicts x) (boundary_list None (facts_of facts (sw_ref d))) \<longleftrightarrow> \<not> ?clear x"
      if "x \<in> set (d # ?group)" for x
      unfolding r [OF that] interval_conflicts_iff [OF facts_of_descending [OF assms]] by blast
    then have g: "list_ex (\<lambda>x. list_ex (interval_conflicts x) (boundary_list None (facts_of facts (sw_ref d)))) (d # ?group)
        \<longleftrightarrow> \<not> (\<forall>x \<in> set (d # ?group). ?clear x)"
      unfolding list_ex_iff by blast
    have split: "(\<forall>x \<in> set ds. ?clear x) \<longleftrightarrow> (\<forall>x \<in> set (d # ?group). ?clear x) \<and> (\<forall>x \<in> set ?rest. ?clear x)"
      using Cons all by auto
    have "check_pending a facts ds =
        (if \<forall>x \<in> set (d # ?group). ?clear x then check_pending a facts ?rest
         else Conflict ''commit'' ''snapshot write conflicts with a later overlapping event'')"
      unfolding Cons check_pending.simps i sbind_simps g by simp
    then show ?thesis
      unfolding split using IH by (auto simp: has_code_def Status_init_def)
  qed simp
qed

lemma snapshot_validation:
  assumes "facts_ok facts" "\<forall>d \<in> set deps. FactRef_Validate (sw_ref d) = OK"
  shows "ValidateSnapshotWriteDependencies a facts v deps = OK \<longleftrightarrow>
      (\<forall>d \<in> set deps. sw_snapshot_seq d \<le> v \<and> (\<forall>e. \<not> conflicting_event (facts_of facts (sw_ref d)) d e))"
    and "has_code kConflict (ValidateSnapshotWriteDependencies a facts v deps) \<longleftrightarrow>
      (\<forall>d \<in> set deps. sw_snapshot_seq d \<le> v) \<and>
      (\<exists>d \<in> set deps. \<exists>e. conflicting_event (facts_of facts (sw_ref d)) d e)"
proof -
  let ?skip = "\<lambda>d. aid_unchanged a (sw_ref d) (sw_snapshot_seq d) \<or> \<not> aid_might a (sw_ref d)"
  let ?ps = "sort_key (\<lambda>d. ref_tuple (sw_ref d)) (filter (\<lambda>d. \<not> ?skip d) deps)"
  let ?check = "check_pending a facts ?ps"
  have ps: "set ?ps = {d \<in> set deps. \<not> ?skip d}" by auto
  have "\<forall>d \<in> set ?ps. FactRef_Validate (sw_ref d) = OK" using assms(2) by simp
  note c = check_pending_iff [OF assms(1) this]
  have clear: "(\<forall>d \<in> set ?ps. \<forall>e. \<not> conflicting_event (facts_of facts (sw_ref d)) d e) \<longleftrightarrow>
      (\<forall>d \<in> set deps. \<forall>e. \<not> conflicting_event (facts_of facts (sw_ref d)) d e)"
    unfolding ps using skip_sound by blast
  have check: "?check = OK \<longleftrightarrow> (\<forall>d \<in> set deps. \<forall>e. \<not> conflicting_event (facts_of facts (sw_ref d)) d e)"
    using c unfolding clear by blast
  have code: "has_code kConflict ?check \<longleftrightarrow> ?check \<noteq> OK"
    using c by (auto simp: has_code_def)
  have V: "ValidateSnapshotWriteDependencies a facts v deps =
      (if \<forall>d \<in> set deps. sw_snapshot_seq d \<le> v then ?check
       else InvalidArgument ''commit'' ''snapshot dependency exceeds visible watermark'')"
  proof (cases "pending_dependencies a v deps")
    case (Inl err)
    moreover have "\<not> (\<forall>d \<in> set deps. sw_snapshot_seq d \<le> v)"
      using Inl pending_dependencies_Inr [of v deps] by auto
    ultimately show ?thesis
      by (simp only: ValidateSnapshotWriteDependencies_def sbind_simps pending_dependencies_Inl [OF Inl] if_False)
  next
    case (Inr ps)
    then have le: "\<forall>d \<in> set deps. sw_snapshot_seq d \<le> v" and ps_eq: "ps = filter (\<lambda>d. \<not> ?skip d) deps"
      by (simp_all add: pending_dependencies_Inr)
    show ?thesis
      unfolding ValidateSnapshotWriteDependencies_def Inr sbind_simps(2) if_P [OF le] by (simp only: ps_eq)
  qed
  have other: "\<not> has_code kConflict (InvalidArgument ''commit'' ''snapshot dependency exceeds visible watermark'' :: status)"
    by (simp add: has_code_def Status_init_def)
  show "ValidateSnapshotWriteDependencies a facts v deps = OK \<longleftrightarrow>
      (\<forall>d \<in> set deps. sw_snapshot_seq d \<le> v \<and> (\<forall>e. \<not> conflicting_event (facts_of facts (sw_ref d)) d e))"
  proof (cases "\<forall>d \<in> set deps. sw_snapshot_seq d \<le> v")
    case True
    then show ?thesis unfolding V if_P [OF True] check by blast
  next
    case False
    then show ?thesis unfolding V if_not_P [OF False] by blast
  qed
  show "has_code kConflict (ValidateSnapshotWriteDependencies a facts v deps) \<longleftrightarrow>
      (\<forall>d \<in> set deps. sw_snapshot_seq d \<le> v) \<and>
      (\<exists>d \<in> set deps. \<exists>e. conflicting_event (facts_of facts (sw_ref d)) d e)"
  proof (cases "\<forall>d \<in> set deps. sw_snapshot_seq d \<le> v")
    case True
    then show ?thesis unfolding V if_P [OF True] code check by blast
  next
    case False
    with other show ?thesis unfolding V if_not_P [OF False] by blast
  qed
qed

lemma strict_validation:
  assumes "facts_ok facts"
  shows "\<forall>d \<in> set deps. FactRef_Validate (st_ref d) = OK \<and>
      (\<forall>e \<in> set (facts_of facts (st_ref d)). ev_commit_seq e \<noteq> max_seq) \<Longrightarrow>
    ValidateStrictReadDependencies a facts v deps = OK \<longleftrightarrow>
      (\<forall>d \<in> set deps. st_snapshot_seq d \<le> v \<and>
        (\<exists>n n'. neighborhood_spec (facts_of facts (st_ref d)) (st_snapshot_seq d) (st_valid_time d) n \<and>
           neighborhood_spec (facts_of facts (st_ref d)) v (st_valid_time d) n' \<and>
           MatchesStrictReadDependency n d \<and> SameStrictReadIdentity n n'))"
proof (induction deps)
  case (Cons d ds)
  let ?read = "ReadTemporalNeighborhood (aid_might a) facts (st_ref d) (st_valid_time d)"
  let ?es = "facts_of facts (st_ref d)"
  have d: "FactRef_Validate (st_ref d) = OK" "\<forall>e \<in> set ?es. ev_commit_seq e \<noteq> max_seq"
    using Cons.prems by simp_all
  obtain n n' where n: "?read (st_snapshot_seq d) = Inr n" "neighborhood_spec ?es (st_snapshot_seq d) (st_valid_time d) n"
    "?read v = Inr n'" "neighborhood_spec ?es v (st_valid_time d) n'"
    using Neighborhood_spec [OF assms d, of "aid_might a" "st_valid_time d"] might by meson
  have "(\<exists>x x'. neighborhood_spec ?es (st_snapshot_seq d) (st_valid_time d) x \<and>
      neighborhood_spec ?es v (st_valid_time d) x' \<and> MatchesStrictReadDependency x d \<and> SameStrictReadIdentity x x') \<longleftrightarrow>
      MatchesStrictReadDependency n d \<and> SameStrictReadIdentity n n'"
    using n(2,4) neighborhood_unique by blast
  moreover have "ValidateStrictReadDependencies a facts v (d # ds) = OK \<longleftrightarrow>
      st_snapshot_seq d \<le> v \<and> MatchesStrictReadDependency n d \<and> SameStrictReadIdentity n n' \<and>
      ValidateStrictReadDependencies a facts v ds = OK"
    by (cases "v < st_snapshot_seq d") (auto simp: n(1,3) not_less)
  moreover have "ValidateStrictReadDependencies a facts v ds = OK \<longleftrightarrow>
      (\<forall>d \<in> set ds. st_snapshot_seq d \<le> v \<and>
        (\<exists>n n'. neighborhood_spec (facts_of facts (st_ref d)) (st_snapshot_seq d) (st_valid_time d) n \<and>
           neighborhood_spec (facts_of facts (st_ref d)) v (st_valid_time d) n' \<and>
           MatchesStrictReadDependency n d \<and> SameStrictReadIdentity n n'))"
    using Cons.prems by (intro Cons.IH) simp
  ultimately show ?case unfolding list.set ball_simps(7) by blast
qed simp

end

section \<open>Latest edge identities\<close>

lemma identity_step:
  "storable e \<Longrightarrow> FactRef_Validate r = OK \<Longrightarrow>
   identity_loop (ref_prefix r) (entry e # m) =
     (if ev_ref e \<noteq> r then Inr None
      else if ev_operation e = kDelete then Inr None
      else if ev_identity e = None
      then Corruption ''edge identity'' ''identity fact lacks identity payload''
      else Inr (ev_identity e))"
  by (simp add: stored_simps)

lemma identity_event:
  assumes "storable e" "ref_family (ev_ref e) = kEdgeIdentity"
  shows "ev_valid_from e = 0 \<and> ev_operation e = kPut \<and> (\<exists>i. ev_identity e = Some i \<and>
    ev_ref e = identity_ref (ei_home i) (ei_edge i))"
proof -
  have v: "FactEvent_Validate e = OK" using assms(1) by (simp add: storable_def)
  then have "ref_property (ev_ref e) = 0"
    using assms(2) FactEvent_Validate_ref [OF v] by (simp add: FactRef_Validate_OK_iff IsStateFamily_def)
  moreover have "ev_valid_from e = 0 \<and> ev_operation e = kPut \<and> (\<exists>i. ev_identity e = Some i \<and>
      EdgeIdentity_edge_ref i = \<lparr>er_home = ref_part (ev_ref e), er_edge = ref_entity (ev_ref e)\<rparr>)"
    using v assms(2) by (auto simp: FactEvent_Validate_def sbind_Inr_iff split: option.splits if_splits)
  ultimately show ?thesis
    using assms(2) by (cases "ev_ref e") (auto simp: identity_ref_def EdgeIdentity_edge_ref_def)
qed

lemma ReadLatestEdgeIdentity_spec:
  assumes "facts_ok m" "er_edge edge \<noteq> 0"
  shows "ReadLatestEdgeIdentity m edge =
    Inr (case facts_of m (identity_ref (er_home edge) (er_edge edge)) of [] \<Rightarrow> None | e # _ \<Rightarrow> ev_identity e)"
proof -
  let ?r = "identity_ref (er_home edge) (er_edge edge)"
  let ?scan = "filter (\<lambda>e. \<not> bytes_less (fst (entry e)) (key_layout ?r 0 max_seq)) (events_of m)"
  have r: "FactRef_Validate ?r = OK"
    using assms(2) by (simp add: FactRef_Validate_OK_iff identity_ref_def IsKnownFamily_def IsStateFamily_def)
  have seek: "EncodeFactKey ?r 0 max_seq = key_layout ?r 0 max_seq" "key_layout ?r 0 max_seq \<noteq> []"
    using r by (simp_all add: EncodeFactKey_layout max_seq_def key_layout_def)
  note es = facts_ok_events(2) [OF assms(1)]
  have ident: "ev_valid_from e = 0 \<and> ev_operation e = kPut \<and> ev_identity e \<noteq> None"
    if "e \<in> set (events_of m)" "ev_ref e = ?r" for e
    using identity_event [of e] es that by (auto simp: identity_ref_def)
  have chain: "takeWhile (\<lambda>e. ev_ref e = ?r) ?scan = facts_of m ?r"
    unfolding forward_events [OF facts_ok_sorted [OF assms(1)] es r] facts_of_def
    using ident by (auto intro!: filter_cong)
  have "ReadLatestEdgeIdentity m edge = identity_loop (ref_prefix ?r) (map entry ?scan)"
    using assms(1) by (simp add: ReadLatestEdgeIdentity_def seek take_key_prefix ref_prefix_def Seek_entries)
  also have "\<dots> = Inr (case facts_of m ?r of [] \<Rightarrow> None | e # _ \<Rightarrow> ev_identity e)"
  proof (cases ?scan)
    case Nil
    with chain [symmetric] show ?thesis by simp
  next
    case (Cons e es')
    then have e: "e \<in> set (events_of m)" by (metis filter_is_subset list.set_intros(1) subsetD)
    with Cons chain es r ident [OF e] show ?thesis by (auto simp: identity_step simp flip: chain)
  qed
  finally show ?thesis .
qed

lemma batch_ids_nonzero:
  assumes "StoreCommitBatch_Validate b = OK"
  shows "\<forall>m \<in> set (cb_mutations b). ref_entity (mu_ref m) \<noteq> 0"
    "\<forall>i \<in> set (cb_edge_identities b). ei_edge i \<noteq> 0"
  using assms mutation_valid_ref
  by (auto simp: batch_ok_iff batch_ok_def FactRef_Validate_OK_iff EdgeIdentity_Validate_def split: if_splits)

section \<open>Properties\<close>

text \<open>
  C19: the snapshot check is exact. A commit passes exactly when no dependency is ahead of the
  visible watermark and no event committed after a dependency's snapshot conflicts with it; it
  reports a conflict exactly when no dependency is ahead of the watermark and there is such an
  event. An event at or after the write's valid time conflicts unless it lies at or beyond the
  recorded successor. An event before it conflicts when it is the latest version of its valid
  time and its interval is closed and ends strictly after the write's valid time: a preceding
  version that is open-ended, or that ends at the write, does not conflict. Sound in-memory
  aids change neither answer.
\<close>

theorem snapshot_check_exact:
  assumes "sound_aids facts a" "facts_ok facts" "\<forall>d \<in> set deps. FactRef_Validate (sw_ref d) = OK"
  shows "(ValidateSnapshotWriteDependencies a facts v deps = OK \<longleftrightarrow>
      (\<forall>d \<in> set deps. sw_snapshot_seq d \<le> v \<and> (\<forall>e. \<not> conflicting_event (facts_of facts (sw_ref d)) d e))) \<and>
    (has_code kConflict (ValidateSnapshotWriteDependencies a facts v deps) \<longleftrightarrow>
      (\<forall>d \<in> set deps. sw_snapshot_seq d \<le> v) \<and>
      (\<exists>d \<in> set deps. \<exists>e. conflicting_event (facts_of facts (sw_ref d)) d e))"
  using sound_aids.snapshot_validation [OF assms] by simp

definition sample_dependency :: snapshot_write_dependency where
  "sample_dependency =
     \<lparr>sw_ref = ev_ref sample_event, sw_valid_from = 10, sw_predecessor = None, sw_successor = None,
      sw_snapshot_seq = 2\<rparr>"

lemma sample_events_of: "events_of [entry sample_event] = [sample_event]"
  using events_of_entries [of "[sample_event]"] sample_event_encodes by (simp add: EncodeFactValue_iff)

lemma sample_facts_of: "facts_of [entry sample_event] (ev_ref sample_event) = [sample_event]"
  by (simp add: facts_of_def sample_events_of)

theorem snapshot_check_exact_witness:
  "has_code kConflict (ValidateSnapshotWriteDependencies no_aids [entry sample_event] 5 [sample_dependency])"
  using snapshot_check_exact [OF plain.sound_aids_axioms sample_facts_ok, of "[sample_dependency]" 5]
    sample_ref_valid sample_facts_of
  by (auto simp: sample_dependency_def conflicting_event_def sample_event_def)

lemma strict_stable:
  assumes "sound_aids facts a" "facts_ok facts" "ValidateStrictReadDependencies a facts v deps = OK"
    "\<forall>d \<in> set deps. FactRef_Validate (st_ref d) = OK \<and>
       (\<forall>e \<in> set (facts_of facts (st_ref d)). ev_commit_seq e \<noteq> max_seq)"
    "d \<in> set deps"
  shows "(\<forall>e. governs (facts_of facts (st_ref d)) (st_snapshot_seq d) (st_valid_time d) e \<longleftrightarrow>
              governs (facts_of facts (st_ref d)) v (st_valid_time d) e) \<and>
    (case st_observed d of
       None \<Rightarrow> \<forall>e. \<not> governs (facts_of facts (st_ref d)) v (st_valid_time d) e
     | Some ob \<Rightarrow> \<exists>e. governs (facts_of facts (st_ref d)) v (st_valid_time d) e \<and> SameEvent e ob)"
proof -
  let ?es = "facts_of facts (st_ref d)" and ?t = "st_valid_time d"
  obtain n n' where n: "neighborhood_spec ?es (st_snapshot_seq d) ?t n" "neighborhood_spec ?es v ?t n'"
    "MatchesStrictReadDependency n d" "SameStrictReadIdentity n n'"
    using sound_aids.strict_validation [OF assms(1,2,4)] assms(3,5) by blast
  have obs: "tn_observed n = Some e \<longleftrightarrow> governs ?es (st_snapshot_seq d) ?t e"
    "tn_observed n' = Some e \<longleftrightarrow> governs ?es v ?t e" for e
    using n(1,2) by (simp_all add: neighborhood_spec_def Let_def)
  have key: "e = e'" if "governs ?es s ?t e" "governs ?es s' ?t e'" "SameEvent e e'" for e e' s s'
  proof -
    have "e \<in> set (events_of facts)" "e' \<in> set (events_of facts)" "ev_ref e = ev_ref e'" "chain_key e = chain_key e'"
      using that by (auto simp: governs_def visible_def facts_of_def SameEvent_def chain_key_def)
    then show ?thesis using facts_ok_key_unique [OF assms(2)] by blast
  qed
  have same: "SameFactEvent (tn_observed n) (tn_observed n')"
    using n(4) by (simp add: SameStrictReadIdentity_def)
  have "tn_observed n = tn_observed n'"
  proof (cases "tn_observed n")
    case None
    with same show ?thesis by (simp add: SameFactEvent_def split: option.splits)
  next
    case (Some e)
    with same obtain e' where e': "tn_observed n' = Some e'" "SameEvent e e'"
      by (auto simp: SameFactEvent_def split: option.splits)
    from key [OF obs(1) [THEN iffD1, OF Some] obs(2) [THEN iffD1, OF e'(1)] e'(2)] Some e'(1)
    show ?thesis by simp
  qed
  then have "\<forall>e. governs ?es (st_snapshot_seq d) ?t e \<longleftrightarrow> governs ?es v ?t e" using obs by simp
  moreover have "case st_observed d of None \<Rightarrow> \<forall>e. \<not> governs ?es v ?t e
      | Some ob \<Rightarrow> \<exists>e. governs ?es v ?t e \<and> SameEvent e ob"
    using n(3) obs \<open>tn_observed n = tn_observed n'\<close>
    by (auto simp: MatchesStrictReadDependency_def SameFactEvent_def split: option.splits)
  ultimately show ?thesis by blast
qed

text \<open>
  C20: strict reads are serializable. When the strict check passes, what governs each read's
  valid time is the same at the read's snapshot and now, so re-running the reads at commit
  time gives the recorded answers.
\<close>

theorem strict_reads_stable:
  assumes "sound_aids facts a" "facts_ok facts" "ValidateStrictReadDependencies a facts v deps = OK"
    "\<forall>d \<in> set deps. FactRef_Validate (st_ref d) = OK \<and>
       (\<forall>e \<in> set (facts_of facts (st_ref d)). ev_commit_seq e \<noteq> max_seq)"
    "d \<in> set deps"
  shows "(\<forall>e. governs (facts_of facts (st_ref d)) (st_snapshot_seq d) (st_valid_time d) e \<longleftrightarrow>
              governs (facts_of facts (st_ref d)) v (st_valid_time d) e) \<and>
    (case st_observed d of
       None \<Rightarrow> \<forall>e. \<not> governs (facts_of facts (st_ref d)) v (st_valid_time d) e
     | Some ob \<Rightarrow> \<exists>e. governs (facts_of facts (st_ref d)) v (st_valid_time d) e \<and> SameEvent e ob)"
  using assms by (rule strict_stable)

definition sample_strict :: strict_read_dependency where
  "sample_strict =
     \<lparr>st_ref = ev_ref sample_event, st_valid_time = 12, st_snapshot_seq = 4,
      st_observed = Some sample_event, st_predecessor = Some 10, st_successor = None\<rparr>"

lemma sample_strict_deps:
  "\<forall>d \<in> set [sample_strict]. FactRef_Validate (st_ref d) = OK \<and>
     (\<forall>e \<in> set (facts_of [entry sample_event] (st_ref d)). ev_commit_seq e \<noteq> max_seq)"
  using sample_ref_valid sample_facts_of by (simp add: sample_strict_def) (simp add: sample_event_def max_seq_def)

lemma sample_strict_passes: "ValidateStrictReadDependencies no_aids [entry sample_event] 5 [sample_strict] = OK"
proof -
  have facts: "facts_of [entry sample_event] (st_ref sample_strict) = [sample_event]"
    using sample_facts_of by (simp add: sample_strict_def)
  let ?n = "\<lparr>tn_observed = Some sample_event, tn_predecessor = Some 10, tn_successor = None\<rparr>"
  have "neighborhood_spec [sample_event] s 12 ?n" if "s \<in> {4, 5}" for s
    using that by (auto simp: neighborhood_spec_def visible_def governs_def chain_key_def sample_event_def)
  then have n: "neighborhood_spec (facts_of [entry sample_event] (st_ref sample_strict)) s 12 ?n" if "s \<in> {4, 5}" for s
    using that unfolding facts by blast
  have same: "MatchesStrictReadDependency ?n sample_strict" "SameStrictReadIdentity ?n ?n"
    by (simp_all add: sample_strict_def MatchesStrictReadDependency_def SameStrictReadIdentity_def
        SameFactEvent_def SameEvent_def opt_val_eq_def sample_event_def)
  have "st_snapshot_seq sample_strict = 4" "st_valid_time sample_strict = 12"
    by (simp_all add: sample_strict_def)
  then show ?thesis
    unfolding plain.strict_validation [OF sample_facts_ok sample_strict_deps] using n [of 4] n [of 5] same by auto
qed

theorem strict_reads_stable_witness:
  "\<forall>e. governs (facts_of [entry sample_event] (st_ref sample_strict)) 4 12 e \<longleftrightarrow>
       governs (facts_of [entry sample_event] (st_ref sample_strict)) 5 12 e"
  using strict_reads_stable [OF plain.sound_aids_axioms sample_facts_ok sample_strict_passes sample_strict_deps, of sample_strict]
  by (simp add: sample_strict_def)

text \<open>
  C40: an edge never changes its identity. The identity check passes exactly when every edge
  asserted by a state PUT has a recorded or a supplied identity, and every supplied identity
  equals the latest recorded one of its edge, if there is any.
\<close>

theorem edge_identity_check:
  assumes "facts_ok facts" "StoreCommitBatch_Validate b = OK"
  shows "ValidateEdgeIdentitiesForCommit facts b = OK \<longleftrightarrow>
    (\<forall>m \<in> set (cb_mutations b). ref_family (mu_ref m) = kEdgeState \<and> mu_operation m = kPut \<longrightarrow>
       facts_of facts (identity_ref (ref_part (mu_ref m)) (ref_entity (mu_ref m))) \<noteq> [] \<or>
       (\<exists>i \<in> set (cb_edge_identities b). ei_home i = ref_part (mu_ref m) \<and> ei_edge i = ref_entity (mu_ref m))) \<and>
    (\<forall>i \<in> set (cb_edge_identities b).
       case facts_of facts (identity_ref (ei_home i) (ei_edge i)) of
         [] \<Rightarrow> True | e # _ \<Rightarrow> ev_identity e = Some i)"
proof -
  have valid: "\<forall>m \<in> set (cb_mutations b). ref_entity (mu_ref m) \<noteq> 0"
    "\<forall>i \<in> set (cb_edge_identities b). ei_edge i \<noteq> 0"
    using batch_ids_nonzero [OF assms(2)] by blast+
  have ident: "ev_identity e \<noteq> None" if "facts_of facts (identity_ref h k) = e # es" for e es h k
  proof -
    have "e \<in> set (facts_of facts (identity_ref h k))" using that by simp
    then have "storable e" "ev_ref e = identity_ref h k"
      using facts_ok_events(2) [OF assms(1)] by (auto simp: facts_of_def)
    then show ?thesis using identity_event [of e] by (auto simp: identity_ref_def)
  qed
  have a: "check_assertions facts sup ms = OK \<longleftrightarrow>
      (\<forall>m \<in> set ms. ref_family (mu_ref m) = kEdgeState \<and> mu_operation m = kPut \<longrightarrow>
         facts_of facts (identity_ref (ref_part (mu_ref m)) (ref_entity (mu_ref m))) \<noteq> [] \<or>
         (\<exists>i \<in> set sup. ei_home i = ref_part (mu_ref m) \<and> ei_edge i = ref_entity (mu_ref m)))"
    if "\<forall>m \<in> set ms. ref_entity (mu_ref m) \<noteq> 0" for sup ms
    using that
    by (induction ms) (auto simp: ReadLatestEdgeIdentity_spec [OF assms(1)] list_ex_iff ident split: list.splits)
  have i: "check_identities facts is = OK \<longleftrightarrow>
      (\<forall>i \<in> set is. case facts_of facts (identity_ref (ei_home i) (ei_edge i)) of
         [] \<Rightarrow> True | e # _ \<Rightarrow> ev_identity e = Some i)"
    if "\<forall>i \<in> set is. ei_edge i \<noteq> 0" for "is"
    using that
    by (induction "is")
      (auto simp: ReadLatestEdgeIdentity_spec [OF assms(1)] EdgeIdentity_edge_ref_def ident split: list.splits)
  show ?thesis
    using valid by (auto simp: ValidateEdgeIdentitiesForCommit_def sbind_Inr_iff a i)
qed

definition sample_edge_batch :: store_commit_batch where
  "sample_edge_batch =
     \<lparr>cb_txn_id = 1, cb_system_hlc = 1,
      cb_mutations =
        [\<lparr>mu_ref = EntityFact_Edge \<lparr>er_home = 1, er_edge = 9\<rparr>, mu_valid_from = 10, mu_operation = kPut,
          mu_schema_epoch = 0, mu_value = None\<rparr>],
      cb_edge_identities =
        [\<lparr>ei_edge = 9, ei_source = 7, ei_target = 8, ei_type = 2, ei_home = 1, ei_source_part = 1,
          ei_target_part = 1\<rparr>],
      cb_snapshot_deps = [], cb_strict_deps = [], cb_fresh = True\<rparr>"

lemma sample_edge_batch_valid: "StoreCommitBatch_Validate sample_edge_batch = OK"
  by (auto simp: batch_ok_iff batch_ok_def sample_edge_batch_def PendingFactMutation_Validate_def
      ValidateMutation_OK_iff FactRef_Validate_OK_iff EntityFact_Edge_def IsKnownFamily_def IsStateFamily_def
      IsKnownOperation_def IsProperty_def EdgeIdentity_Validate_def EdgeIdentity_edge_ref_def)

theorem edge_identity_check_witness:
  "ValidateEdgeIdentitiesForCommit [entry sample_event] sample_edge_batch = OK"
proof -
  have "facts_of [entry sample_event] (identity_ref h k) = []" for h k
    by (simp add: facts_of_def sample_events_of) (simp add: identity_ref_def sample_event_def PropertyFact_Vertex_def)
  then show ?thesis
    unfolding edge_identity_check [OF sample_facts_ok sample_edge_batch_valid]
    by (simp add: sample_edge_batch_def EntityFact_Edge_def)
qed

end
