(* ===== verification/Fact_Identity.thy ===== *)
theory Fact_Identity
  imports Facts
begin

text \<open>
  Fact identities and the fixed-size filter over them: the identity tuples and hashes of
  \<^verbatim>\<open>group_commit_planner.{h,cc}\<close>, the three-probe Bloom words that
  \<^verbatim>\<open>fact_identity_history.cc\<close> and \<^verbatim>\<open>recent_fact_write_index.cc\<close> share, and
  \<^verbatim>\<open>FactIdentityHistory\<close> itself. The filter contract (no false negatives) is a locale.
\<close>

section \<open>Identities and hashes\<close>

type_synonym fact_identity = "u32 \<times> u8 \<times> u16 \<times> u64"

definition IdentityOf :: "fact_ref \<Rightarrow> fact_identity" where
  "IdentityOf r = (ref_part r, family_byte (ref_family r), ref_property r, ref_entity r)"

definition kGolden :: u64 where
  "kGolden = 0x9e3779b97f4a7c15"

definition MixHash :: "u64 \<Rightarrow> u64" where
  "MixHash v =
     (let v = v XOR drop_bit 30 v;
          v = v * 0xbf58476d1ce4e5b9;
          v = v XOR drop_bit 27 v;
          v = v * 0x94d049bb133111eb
      in v XOR drop_bit 31 v)"

definition planner_Mix :: "u64 \<Rightarrow> u64" where
  "planner_Mix v =
     (let v = v + kGolden;
          v = (v XOR drop_bit 30 v) * 0xbf58476d1ce4e5b9;
          v = (v XOR drop_bit 27 v) * 0x94d049bb133111eb
      in v XOR drop_bit 31 v)"

fun FactIdentityHash :: "fact_identity \<Rightarrow> u64" where
  "FactIdentityHash (part, family, property, entity) =
     (let family_property = (push_bit 32 (ucast part) OR push_bit 16 (ucast family)) OR ucast property
      in planner_Mix entity XOR planner_Mix family_property)"

fun EdgeIdentityKeyHash :: "u32 \<times> u64 \<Rightarrow> u64" where
  "EdgeIdentityKeyHash (part, edge) = planner_Mix edge XOR planner_Mix (ucast part)"

definition IdentityHash :: "fact_ref \<Rightarrow> u64" where
  "IdentityHash r =
     (let hash = ucast (ref_part r) * kGolden;
          hash = hash XOR push_bit 56 (ucast (family_byte (ref_family r)));
          hash = hash XOR push_bit 40 (ucast (ref_property r));
          hash = hash XOR MixHash (ref_entity r)
      in MixHash hash)"

section \<open>Sizes rounded to powers of two\<close>

text \<open>The loop \<^verbatim>\<open>while (power <= limit / 2) power <<= 1;\<close> from a positive start.\<close>

function double_up_to :: "nat \<Rightarrow> nat \<Rightarrow> nat" where
  "double_up_to limit p =
     (if 0 < p \<and> p \<le> limit div 2 then double_up_to limit (2 * p) else p)"
  by pat_completeness auto
termination
  by (relation "measure (\<lambda>(limit, p). limit - p)") auto

declare double_up_to.simps [simp del]

lemma double_up_to_bounds:
  "0 < p \<Longrightarrow> p \<le> limit \<Longrightarrow>
   double_up_to limit p \<le> limit \<and> limit < 2 * double_up_to limit p \<and>
   (\<exists>k. double_up_to limit p = p * 2 ^ k)"
proof (induction limit p rule: double_up_to.induct)
  case (1 limit p)
  show ?case
  proof (cases "p \<le> limit div 2")
    case True
    then have "2 * p \<le> limit" by linarith
    with 1 True obtain k where "double_up_to limit (2 * p) = p * 2 ^ Suc k"
      "double_up_to limit (2 * p) \<le> limit" "limit < 2 * double_up_to limit (2 * p)"
      by auto
    with 1 True show ?thesis by (subst (1 2 3) double_up_to.simps) (auto intro: exI [of _ "Suc k"])
  next
    case False
    with 1 have "double_up_to limit p = p * 2 ^ 0" by (subst double_up_to.simps) simp
    with 1 False show ?thesis by (auto intro: exI [of _ 0])
  qed
qed

section \<open>Bloom words\<close>

definition probes :: "nat \<Rightarrow> u64 \<Rightarrow> u64 list" where
  "probes word_count base =
     (let mask = of_nat word_count * 64 - 1;
          step = MixHash (base XOR kGolden) OR 1
      in map (\<lambda>probe. (base + probe * step) AND mask) [0, 1, 2])"

definition word_index :: "u64 \<Rightarrow> nat" where
  "word_index b = unat (drop_bit 6 b)"

definition bit_in_word :: "u64 \<Rightarrow> u64" where
  "bit_in_word b = push_bit (unat (b AND 63)) 1"

definition bloom_set :: "u64 \<Rightarrow> u64 list \<Rightarrow> u64 list" where
  "bloom_set b ws = ws[word_index b := ws ! word_index b OR bit_in_word b]"

definition bloom_test :: "u64 list \<Rightarrow> u64 \<Rightarrow> bool" where
  "bloom_test ws b \<longleftrightarrow> ws ! word_index b AND bit_in_word b \<noteq> 0"

definition bloom_add :: "u64 \<Rightarrow> u64 list \<Rightarrow> u64 list" where
  "bloom_add base ws = fold bloom_set (probes (length ws) base) ws"

definition bloom_might_contain :: "u64 list \<Rightarrow> u64 \<Rightarrow> bool" where
  "bloom_might_contain ws base \<longleftrightarrow> list_all (bloom_test ws) (probes (length ws) base)"

section \<open>The history of written identities\<close>

type_synonym identity_history = "u64 list"

definition WordCountForBytes :: "nat \<Rightarrow> nat" where
  "WordCountForBytes max_bytes = double_up_to (max 1 (max_bytes div 8)) 1"

definition FactIdentityHistory :: "nat \<Rightarrow> identity_history" where
  "FactIdentityHistory max_bytes = replicate (WordCountForBytes max_bytes) 0"

definition kUsefulBitsPerIdentity :: nat where
  "kUsefulBitsPerIdentity = 8"

definition CanRepresent :: "nat \<Rightarrow> nat \<Rightarrow> bool" where
  "CanRepresent max_bytes estimated_identities \<longleftrightarrow>
     estimated_identities \<le> WordCountForBytes max_bytes * 64 div kUsefulBitsPerIdentity"

definition Disable :: "identity_history \<Rightarrow> identity_history" where
  "Disable h = []"

definition Publish_identity :: "fact_ref \<Rightarrow> identity_history \<Rightarrow> identity_history" where
  "Publish_identity r h =
     (if h = [] \<or> FactRef_Validate r \<noteq> OK then h else bloom_add (IdentityHash r) h)"

definition MightContain :: "identity_history \<Rightarrow> fact_ref \<Rightarrow> bool" where
  "MightContain h r \<longleftrightarrow>
     h = [] \<or> FactRef_Validate r \<noteq> OK \<or> bloom_might_contain h (IdentityHash r)"

section \<open>No false negatives\<close>

lemma length_bloom_set [simp]: "length (bloom_set b ws) = length ws"
  by (simp add: bloom_set_def)

lemma length_bloom_add [simp]: "length (bloom_add base ws) = length ws"
proof -
  have "length (fold bloom_set bs ws) = length ws" for bs ws
    by (induction bs arbitrary: ws) simp_all
  then show ?thesis by (simp add: bloom_add_def)
qed

lemma bit_in_word_not_zero [simp]: "bit_in_word b \<noteq> 0"
proof -
  have "unat (b AND 63) < 64"
    using word_and_le1 [of b 63] by (simp add: word_le_nat_alt)
  then have "bit (bit_in_word b) (unat (b AND 63))"
    by (simp add: bit_in_word_def bit_push_bit_iff bit_exp_iff)
  then show ?thesis by auto
qed

lemma bloom_test_set:
  assumes "word_index b < length ws"
  shows "bloom_test (bloom_set b ws) b"
proof -
  have "(w OR m) AND m = m" for w m :: u64
    by (rule bit_eqI) (auto simp: bit_and_iff bit_or_iff)
  with assms show ?thesis by (simp add: bloom_test_def bloom_set_def)
qed

lemma bloom_test_mono:
  assumes "bloom_test ws b"
  shows "bloom_test (bloom_set c ws) b"
proof (cases "word_index c = word_index b \<and> word_index b < length ws")
  case True
  from assms obtain n where "bit (ws ! word_index b AND bit_in_word b) n"
    unfolding bloom_test_def by (metis bit_eqI bit_0_eq bot_apply bot_bool_def)
  then have "bit ((ws ! word_index b OR bit_in_word c) AND bit_in_word b) n"
    by (simp add: bit_and_iff bit_or_iff)
  with True show ?thesis by (auto simp: bloom_test_def bloom_set_def)
next
  case False
  with assms show ?thesis
    by (cases "word_index c < length ws") (auto simp: bloom_test_def bloom_set_def nth_list_update not_less list_update_beyond)
qed

text \<open>Every probe stays inside the words, so that neither access is out of range.\<close>

lemma probe_in_range:
  assumes "0 < n" "n \<le> 2 ^ 58" "b \<in> set (probes n base)"
  shows "word_index b < n"
proof -
  have "of_nat n * 64 - 1 = (of_nat (n * 64 - 1) :: u64)" using assms(1) by (simp add: of_nat_diff)
  moreover have "n * 64 - 1 < 18446744073709551616" using assms(2) by simp
  ultimately have mask: "unat (of_nat n * 64 - 1 :: u64) = n * 64 - 1"
    using unat_of_nat_small(2) by metis
  from assms(3) obtain x where "b = x AND (of_nat n * 64 - 1)" by (auto simp: probes_def Let_def)
  then have "b \<le> of_nat n * 64 - 1" by (simp add: word_and_le1)
  then have "unat b \<le> n * 64 - 1" unfolding word_le_nat_alt mask .
  with assms(1) have "unat b div 64 < n" by (simp add: div_less_iff_less_mult)
  then show ?thesis by (simp add: word_index_def drop_bit_eq_div unat_div)
qed

locale membership_filter =
  fixes ready :: "'f \<Rightarrow> bool" and add :: "'k \<Rightarrow> 'f \<Rightarrow> 'f" and test :: "'f \<Rightarrow> 'k \<Rightarrow> bool"
  assumes ready_add: "ready f \<Longrightarrow> ready (add k f)"
    and test_add: "ready f \<Longrightarrow> test (add k f) k"
    and test_mono: "ready f \<Longrightarrow> test f k \<Longrightarrow> test (add k' f) k"
begin

lemma ready_fold: "ready f \<Longrightarrow> ready (fold add ks f)"
  by (induction ks arbitrary: f) (simp_all add: ready_add)

lemma test_fold_mono: "ready f \<Longrightarrow> test f k \<Longrightarrow> test (fold add ks f) k"
  by (induction ks arbitrary: f) (simp_all add: ready_add test_mono)

lemma no_false_negative: "ready f \<Longrightarrow> k \<in> set ks \<Longrightarrow> test (fold add ks f) k"
proof (induction ks arbitrary: f)
  case (Cons k' ks)
  then show ?case
    by (cases "k = k'") (simp_all add: ready_add test_add test_fold_mono)
qed simp

end

definition bloom_ready :: "u64 list \<Rightarrow> bool" where
  "bloom_ready ws \<longleftrightarrow> 0 < length ws \<and> length ws \<le> 2 ^ 58"

lemma bloom_set_fold:
  "\<forall>b \<in> set bs. word_index b < length ws \<Longrightarrow>
   (\<forall>b \<in> set bs. bloom_test (fold bloom_set bs ws) b) \<and>
   (\<forall>b. bloom_test ws b \<longrightarrow> bloom_test (fold bloom_set bs ws) b)"
  by (induction bs arbitrary: ws) (auto simp: bloom_test_set bloom_test_mono)

lemma bloom_add_tests:
  assumes "bloom_ready ws"
  shows "bloom_might_contain (bloom_add base ws) base"
    and "bloom_might_contain ws base' \<Longrightarrow> bloom_might_contain (bloom_add base ws) base'"
  using bloom_set_fold [of "probes (length ws) base" ws] probe_in_range [of "length ws" _ base] assms
  by (auto simp: bloom_ready_def bloom_might_contain_def list_all_iff) (simp_all add: bloom_add_def)

interpretation bloom: membership_filter bloom_ready bloom_add bloom_might_contain
  by unfold_locales (simp_all add: bloom_ready_def [of "bloom_add _ _"] bloom_add_tests, simp add: bloom_ready_def)

interpretation history: membership_filter "\<lambda>h. h = [] \<or> bloom_ready h" Publish_identity MightContain
  by unfold_locales
    (auto simp: Publish_identity_def MightContain_def bloom.test_add bloom.test_mono bloom.ready_add)

lemma WordCount_bounds:
  "0 < WordCountForBytes max_bytes \<and> WordCountForBytes max_bytes \<le> max 1 (max_bytes div 8) \<and>
   max 1 (max_bytes div 8) < 2 * WordCountForBytes max_bytes"
  using double_up_to_bounds [of 1 "max 1 (max_bytes div 8)"]
  by (auto simp: WordCountForBytes_def simp del: max_less_iff_conj)

lemma FactIdentityHistory_ready:
  "max_bytes \<le> 2 ^ 61 \<Longrightarrow> bloom_ready (FactIdentityHistory max_bytes)"
  using WordCount_bounds [of max_bytes] by (auto simp: bloom_ready_def FactIdentityHistory_def)

text \<open>
  C23: the identity history never denies a written fact. For a budget of at most \<open>2 ^ 61\<close> bytes
  and whatever identities a store publishes, in any order, every one of them is reported as
  possibly written, also after the filter is disabled; its size stays within the byte budget
  (or one word).
\<close>

theorem identity_history_complete:
  assumes "max_bytes \<le> 2 ^ 61" "r \<in> set rs"
  shows "MightContain (fold Publish_identity rs (FactIdentityHistory max_bytes)) r \<and>
    MightContain (Disable (fold Publish_identity rs (FactIdentityHistory max_bytes))) r \<and>
    length (fold Publish_identity rs (FactIdentityHistory max_bytes)) * 8 \<le> max 8 max_bytes"
proof -
  have len: "length (fold Publish_identity rs h) = length h" for rs h
    by (induction rs arbitrary: h) (simp_all add: Publish_identity_def)
  have "length (FactIdentityHistory max_bytes) * 8 \<le> max 8 max_bytes"
    using WordCount_bounds [of max_bytes] by (auto simp: FactIdentityHistory_def)
  with history.no_false_negative [OF disjI2 [OF FactIdentityHistory_ready [OF assms(1)]] assms(2)]
  show ?thesis by (simp add: len Disable_def MightContain_def)
qed

theorem identity_history_complete_witness:
  "MightContain (fold Publish_identity [EntityFact_Vertex \<lparr>vr_part = 1, vr_vertex = 7\<rparr>] (FactIdentityHistory 64))
     (EntityFact_Vertex \<lparr>vr_part = 1, vr_vertex = 7\<rparr>)"
  using identity_history_complete [of 64 "EntityFact_Vertex \<lparr>vr_part = 1, vr_vertex = 7\<rparr>"
      "[EntityFact_Vertex \<lparr>vr_part = 1, vr_vertex = 7\<rparr>]"] by simp

end
