(* ===== verification/Recent_Writes.thy ===== *)
theory Recent_Writes
  imports Fact_Identity
begin

text \<open>
  \<^verbatim>\<open>RecentFactWriteIndex\<close> of \<^verbatim>\<open>recent_fact_write_index.{h,cc}\<close>: exact latest-write buckets
  and rolling Bloom windows over commit sequences, which together may prove that a fact has not
  changed since a snapshot. Its event counters are not part of the state. The byte sizes of
  the two structures it allocates are arguments of the constructor.
\<close>

section \<open>State\<close>

record exact_slot =
  es_identity :: fact_identity
  es_latest :: u64
  es_occupied :: bool

record exact_bucket =
  eb_slots :: "exact_slot list"
  eb_next :: nat

record window =
  wi_first :: u64
  wi_last :: u64
  wi_published :: u64
  wi_identities :: nat
  wi_active :: bool
  wi_words :: "u64 list"

record recent_index =
  ri_windows :: "window list"
  ri_max_identities :: nat
  ri_window_sequences :: u64
  ri_anchor :: u64
  ri_buckets :: "exact_bucket list"
  ri_exact_start :: u64
  ri_start :: u64
  ri_latest :: u64

definition kFilterCount :: nat where
  "kFilterCount = 4"

definition WordsPerFilter :: "nat \<Rightarrow> nat" where
  "WordsPerFilter max_bytes =
     (let raw_words = max_bytes div kFilterCount div 8
      in if raw_words = 0 then 0 else double_up_to raw_words 1)"

definition empty_slot :: exact_slot where
  "empty_slot = \<lparr>es_identity = (0, 0, 0, 0), es_latest = 0, es_occupied = False\<rparr>"

definition empty_bucket :: exact_bucket where
  "empty_bucket = \<lparr>eb_slots = replicate 4 empty_slot, eb_next = 0\<rparr>"

definition RecentFactWriteIndex ::
  "nat \<Rightarrow> nat \<Rightarrow> nat \<Rightarrow> commit_seq \<Rightarrow> u64 \<Rightarrow> recent_index" where
  "RecentFactWriteIndex sizeof_bucket sizeof_filter max_bytes coverage_start window_sequences =
     (let exact_count = max_bytes div 2 div sizeof_bucket;
          remaining = max_bytes - exact_count * sizeof_bucket;
          filter_headers = kFilterCount * sizeof_filter;
          words = (if filter_headers \<le> remaining then WordsPerFilter (remaining - filter_headers) else 0)
      in \<lparr>ri_windows =
            (if words = 0 then []
             else replicate kFilterCount
                    \<lparr>wi_first = 0, wi_last = 0, wi_published = 0, wi_identities = 0, wi_active = False,
                     wi_words = replicate words 0\<rparr>),
          ri_max_identities = words * 4,
          ri_window_sequences = max 1 window_sequences,
          ri_anchor = (if coverage_start = - 1 then coverage_start else coverage_start + 1),
          ri_buckets = replicate exact_count empty_bucket,
          ri_exact_start = coverage_start, ri_start = coverage_start, ri_latest = coverage_start\<rparr>)"

section \<open>Exact latest writes\<close>

fun index_where :: "('a \<Rightarrow> bool) \<Rightarrow> 'a list \<Rightarrow> nat option" where
  "index_where P [] = None"
| "index_where P (x # xs) = (if P x then Some 0 else map_option Suc (index_where P xs))"

definition ExactBucketFor :: "recent_index \<Rightarrow> fact_identity \<Rightarrow> nat option" where
  "ExactBucketFor x i =
     (if ri_buckets x = [] then None
      else Some (unat (MixHash (FactIdentityHash i)) mod length (ri_buckets x)))"

definition publish_slot :: "fact_identity \<Rightarrow> u64 \<Rightarrow> exact_bucket \<Rightarrow> exact_bucket" where
  "publish_slot i sequence b =
     (let slots = eb_slots b; fresh = \<lparr>es_identity = i, es_latest = sequence, es_occupied = True\<rparr>
      in case index_where (\<lambda>s. es_occupied s \<and> es_identity s = i) slots of
           Some k \<Rightarrow> b\<lparr>eb_slots := slots[k := (slots ! k)\<lparr>es_latest := max (es_latest (slots ! k)) sequence\<rparr>]\<rparr>
         | None \<Rightarrow>
             (case index_where (\<lambda>s. \<not> es_occupied s) slots of
                Some k \<Rightarrow> b\<lparr>eb_slots := slots[k := fresh]\<rparr>
              | None \<Rightarrow> b\<lparr>eb_slots := slots[eb_next b := fresh], eb_next := (eb_next b + 1) mod 4\<rparr>))"

definition PublishExact :: "fact_identity \<Rightarrow> u64 \<Rightarrow> recent_index \<Rightarrow> recent_index" where
  "PublishExact i sequence x =
     (case ExactBucketFor x i of
        None \<Rightarrow> x
      | Some k \<Rightarrow> x\<lparr>ri_buckets := (ri_buckets x)[k := publish_slot i sequence (ri_buckets x ! k)]\<rparr>)"

section \<open>Version windows\<close>

definition WindowStart :: "recent_index \<Rightarrow> u64 \<Rightarrow> u64" where
  "WindowStart x sequence =
     (if sequence \<le> ri_anchor x then ri_anchor x
      else let quotient = (sequence - ri_anchor x) div ri_window_sequences x
           in if quotient > (- 1 - ri_anchor x) div ri_window_sequences x then - 1
              else ri_anchor x + quotient * ri_window_sequences x)"

definition FindFilter :: "recent_index \<Rightarrow> u64 \<Rightarrow> nat option" where
  "FindFilter x sequence =
     index_where (\<lambda>f. wi_active f \<and> wi_first f \<le> sequence \<and> sequence \<le> wi_last f) (ri_windows x)"

definition Clear :: "u64 \<Rightarrow> u64 \<Rightarrow> window \<Rightarrow> window" where
  "Clear window_sequences first f =
     \<lparr>wi_first = first,
      wi_last = (if - 1 - first < window_sequences - 1 then - 1 else first + window_sequences - 1),
      wi_published = (if first = 0 then 0 else first - 1), wi_identities = 0, wi_active = True,
      wi_words = replicate (length (wi_words f)) 0\<rparr>"

definition min_element :: "u64 list \<Rightarrow> nat" where
  "min_element xs = (case index_where (\<lambda>x. \<forall>y \<in> set xs. x \<le> y) xs of Some k \<Rightarrow> k | None \<Rightarrow> 0)"

definition ActivateFilter :: "u64 \<Rightarrow> recent_index \<Rightarrow> recent_index \<times> nat" where
  "ActivateFilter first x =
     (case index_where (\<lambda>f. \<not> wi_active f) (ri_windows x) of
        Some k \<Rightarrow>
          (x\<lparr>ri_windows := (ri_windows x)[k := Clear (ri_window_sequences x) first (ri_windows x ! k)]\<rparr>, k)
      | None \<Rightarrow>
          (let k = min_element (map wi_first (ri_windows x)); oldest = ri_windows x ! k
           in (x\<lparr>ri_start := max (ri_start x) (max (wi_last oldest) (wi_published oldest)),
                 ri_windows := (ri_windows x)[k := Clear (ri_window_sequences x) first oldest]\<rparr>, k)))"

definition window_base :: "fact_identity \<Rightarrow> u64" where
  "window_base i = MixHash (FactIdentityHash i)"

definition window_might_contain :: "window \<Rightarrow> fact_identity \<Rightarrow> bool" where
  "window_might_contain f i \<longleftrightarrow> wi_words f = [] \<or> bloom_might_contain (wi_words f) (window_base i)"

definition window_add :: "fact_identity \<Rightarrow> window \<Rightarrow> window" where
  "window_add i f = f\<lparr>wi_words := bloom_add (window_base i) (wi_words f)\<rparr>"

definition RollFilter :: "nat \<Rightarrow> u64 \<Rightarrow> recent_index \<Rightarrow> recent_index" where
  "RollFilter k sequence x =
     (let f = ri_windows x ! k
      in fst (ActivateFilter sequence
                (if wi_first f < sequence
                 then x\<lparr>ri_windows := (ri_windows x)[k := f\<lparr>wi_last := sequence - 1\<rparr>]\<rparr>
                 else x\<lparr>ri_start := max (ri_start x) sequence\<rparr>)))"

section \<open>Publishing and proving\<close>

definition publish_exact_step :: "fact_identity \<Rightarrow> u64 \<Rightarrow> recent_index \<Rightarrow> recent_index" where
  "publish_exact_step i sequence x =
     (if sequence < ri_latest x
      then x\<lparr>ri_buckets := map (\<lambda>_. empty_bucket) (ri_buckets x), ri_exact_start := ri_latest x\<rparr>
      else PublishExact i sequence x)"

definition drop_stale_windows :: "u64 \<Rightarrow> recent_index \<Rightarrow> recent_index" where
  "drop_stale_windows sequence x =
     (if sequence < ri_start x
      then x\<lparr>ri_windows := map (\<lambda>f. f\<lparr>wi_words := replicate (length (wi_words f)) 0, wi_active := False\<rparr>) (ri_windows x),
             ri_start := ri_latest x\<rparr>
      else x)"

definition publish_window :: "fact_identity \<Rightarrow> u64 \<Rightarrow> recent_index \<Rightarrow> recent_index" where
  "publish_window i sequence x =
     (let (x, k) = (case FindFilter x sequence of
                      Some k \<Rightarrow> (x, k) | None \<Rightarrow> ActivateFilter (WindowStart x sequence) x);
          f = window_add i (ri_windows x ! k);
          f = f\<lparr>wi_identities := wi_identities f + 1, wi_published := max (wi_published f) sequence\<rparr>;
          x = x\<lparr>ri_windows := (ri_windows x)[k := f], ri_latest := max (ri_latest x) sequence\<rparr>
      in if ri_max_identities x \<noteq> 0 \<and> wi_identities f \<ge> ri_max_identities x
         then RollFilter k sequence x else x)"

definition Publish_recent :: "fact_ref \<Rightarrow> commit_seq \<Rightarrow> recent_index \<Rightarrow> recent_index" where
  "Publish_recent r sequence x =
     (if sequence = 0 \<or> FactRef_Validate r \<noteq> OK then x
      else let x = publish_exact_step (IdentityOf r) sequence x
           in if ri_windows x = [] then x\<lparr>ri_latest := max (ri_latest x) sequence\<rparr>
              else publish_window (IdentityOf r) sequence (drop_stale_windows sequence x))"

definition exact_slot_of :: "recent_index \<Rightarrow> fact_identity \<Rightarrow> exact_slot option" where
  "exact_slot_of x i =
     (case ExactBucketFor x i of
        None \<Rightarrow> None
      | Some k \<Rightarrow> find (\<lambda>s. es_occupied s \<and> es_identity s = i) (eb_slots (ri_buckets x ! k)))"

definition windows_prove :: "recent_index \<Rightarrow> fact_identity \<Rightarrow> commit_seq \<Rightarrow> bool" where
  "windows_prove x i snapshot \<longleftrightarrow>
     \<not> (ri_windows x = [] \<or> snapshot < ri_start x) \<and>
     list_all (\<lambda>f. \<not> wi_active f \<or> wi_published f \<le> snapshot \<or> \<not> window_might_contain f i) (ri_windows x)"

definition CanProveUnchanged :: "recent_index \<Rightarrow> fact_ref \<Rightarrow> commit_seq \<Rightarrow> bool" where
  "CanProveUnchanged x r snapshot =
     (if FactRef_Validate r \<noteq> OK then False
      else case (if ri_exact_start x \<le> snapshot then exact_slot_of x (IdentityOf r) else None) of
             Some s \<Rightarrow> es_latest s \<le> snapshot
           | None \<Rightarrow> windows_prove x (IdentityOf r) snapshot)"

section \<open>What the index remembers\<close>

lemma index_where_Some:
  "index_where P xs = Some k \<Longrightarrow> k < length xs \<and> P (xs ! k)"
  by (induction xs arbitrary: k) (auto split: if_splits)

lemma index_where_None: "index_where P xs = None \<longleftrightarrow> (\<forall>x \<in> set xs. \<not> P x)"
  by (induction xs) auto

lemma min_element_in_range: "xs \<noteq> [] \<Longrightarrow> min_element xs < length xs"
  by (auto simp: min_element_def dest: index_where_Some split: option.split)

text \<open>
  A history is the set of published writes. A slot bounds the writes of its identity, up to the
  sequence where exact coverage starts; the windows cover every later write.
\<close>

definition home :: "nat \<Rightarrow> fact_identity \<Rightarrow> nat" where
  "home n i = unat (MixHash (FactIdentityHash i)) mod n"

definition slot_ok :: "nat \<Rightarrow> nat \<Rightarrow> u64 \<Rightarrow> (fact_identity \<times> u64) set \<Rightarrow> exact_slot \<Rightarrow> bool" where
  "slot_ok n k start H s \<longleftrightarrow>
     (es_occupied s \<longrightarrow>
        home n (es_identity s) = k \<and> (\<forall>q. (es_identity s, q) \<in> H \<longrightarrow> q \<le> es_latest s \<or> q \<le> start))"

definition bucket_ok :: "nat \<Rightarrow> nat \<Rightarrow> u64 \<Rightarrow> (fact_identity \<times> u64) set \<Rightarrow> exact_bucket \<Rightarrow> bool" where
  "bucket_ok n k start H b \<longleftrightarrow>
     length (eb_slots b) = 4 \<and> eb_next b < 4 \<and> (\<forall>s \<in> set (eb_slots b). slot_ok n k start H s) \<and>
     (\<forall>j < 4. \<forall>l < 4. es_occupied (eb_slots b ! j) \<and> es_occupied (eb_slots b ! l) \<and>
        es_identity (eb_slots b ! j) = es_identity (eb_slots b ! l) \<longrightarrow> j = l)"

definition buckets_ok :: "u64 \<Rightarrow> (fact_identity \<times> u64) set \<Rightarrow> exact_bucket list \<Rightarrow> bool" where
  "buckets_ok start H bs \<longleftrightarrow> (\<forall>k < length bs. bucket_ok (length bs) k start H (bs ! k))"

definition windows_cover :: "u64 \<Rightarrow> (fact_identity \<times> u64) set \<Rightarrow> window list \<Rightarrow> bool" where
  "windows_cover start H ws \<longleftrightarrow>
     (\<forall>(i, q) \<in> H. q \<le> start \<or> (\<exists>f \<in> set ws. wi_active f \<and> q \<le> wi_published f \<and> window_might_contain f i))"

definition recent_ok :: "u64 \<Rightarrow> (fact_identity \<times> u64) set \<Rightarrow> recent_index \<Rightarrow> bool" where
  "recent_ok c H x \<longleftrightarrow>
     c \<le> ri_exact_start x \<and> c \<le> ri_start x \<and> c \<le> ri_latest x \<and>
     (\<forall>(i, q) \<in> H. q \<le> ri_latest x) \<and>
     buckets_ok (ri_exact_start x) H (ri_buckets x) \<and>
     (\<forall>f \<in> set (ri_windows x). bloom_ready (wi_words f)) \<and>
     (ri_windows x \<noteq> [] \<longrightarrow> windows_cover (ri_start x) H (ri_windows x))"

section \<open>Exact slots\<close>

lemma bucket_ok_update:
  assumes "bucket_ok n k start H b" "j < 4" "\<forall>q' \<in> snd ` H. q' \<le> q" "home n i = k" "q \<le> es_latest s"
    "es_identity s = i" "es_occupied s"
    "\<forall>l < 4. l \<noteq> j \<longrightarrow> es_occupied (eb_slots b ! l) \<longrightarrow> es_identity (eb_slots b ! l) \<noteq> i" "m < 4"
  shows "bucket_ok n k start (insert (i, q) H) (b\<lparr>eb_slots := (eb_slots b)[j := s], eb_next := m\<rparr>)"
proof -
  have b: "length (eb_slots b) = 4" "\<forall>s \<in> set (eb_slots b). slot_ok n k start H s"
    using assms(1) by (simp_all add: bucket_ok_def)
  have "slot_ok n k start (insert (i, q) H) ((eb_slots b)[j := s] ! l)" if "l < 4" for l
  proof (cases "l = j")
    case True
    with assms b(1) show ?thesis by (force simp: slot_ok_def)
  next
    case False
    with that b have "slot_ok n k start H (eb_slots b ! l)" by simp
    with False that assms(8) b(1) show ?thesis by (auto simp: slot_ok_def)
  qed
  then have "\<forall>s' \<in> set ((eb_slots b)[j := s]). slot_ok n k start (insert (i, q) H) s'"
    using b(1) by (auto simp: in_set_conv_nth)
  moreover have "\<forall>l < 4. \<forall>l' < 4. es_occupied ((eb_slots b)[j := s] ! l) \<and> es_occupied ((eb_slots b)[j := s] ! l') \<and>
      es_identity ((eb_slots b)[j := s] ! l) = es_identity ((eb_slots b)[j := s] ! l') \<longrightarrow> l = l'"
    using assms(1,2,6,8) by (auto simp: bucket_ok_def nth_list_update)
  ultimately show ?thesis using b(1) assms(9) by (simp add: bucket_ok_def)
qed

lemma publish_slot_ok:
  assumes "bucket_ok n k start H b" "\<forall>q' \<in> snd ` H. q' \<le> q" "home n i = k"
  shows "bucket_ok n k start (insert (i, q) H) (publish_slot i q b)"
proof -
  let ?match = "\<lambda>s. es_occupied s \<and> es_identity s = i"
  have len: "length (eb_slots b) = 4" "eb_next b < 4" using assms(1) by (simp_all add: bucket_ok_def)
  note update = bucket_ok_update [OF assms(1) _ assms(2,3)]
  show ?thesis
  proof (cases "index_where ?match (eb_slots b)")
    case (Some j)
    then have j: "j < 4" "?match (eb_slots b ! j)" using index_where_Some [OF Some] len by auto
    then have "\<forall>l < 4. l \<noteq> j \<longrightarrow> es_occupied (eb_slots b ! l) \<longrightarrow> es_identity (eb_slots b ! l) \<noteq> i"
      using assms(1) by (auto simp: bucket_ok_def)
    from update [OF j(1) _ _ _ this len(2), of "(eb_slots b ! j)\<lparr>es_latest := max (es_latest (eb_slots b ! j)) q\<rparr>"] j(2) Some
    show ?thesis by (simp add: publish_slot_def Let_def)
  next
    case None
    then have none: "\<forall>l < 4. l \<noteq> j \<longrightarrow> es_occupied (eb_slots b ! l) \<longrightarrow> es_identity (eb_slots b ! l) \<noteq> i" for j
      using len(1) by (auto simp: index_where_None)
    let ?fresh = "\<lparr>es_identity = i, es_latest = q, es_occupied = True\<rparr>"
    show ?thesis
    proof (cases "index_where (\<lambda>s. \<not> es_occupied s) (eb_slots b)")
      case (Some j)
      then have "j < 4" using index_where_Some [OF Some] len by simp
      from update [OF this _ _ _ none len(2), of ?fresh] None Some show ?thesis
        by (simp add: publish_slot_def Let_def)
    next
      case full: None
      from update [OF len(2) _ _ _ none, of ?fresh "(eb_next b + 1) mod 4"] None full show ?thesis
        by (simp add: publish_slot_def Let_def)
    qed
  qed
qed

lemma publish_exact_step_ok:
  assumes "buckets_ok (ri_exact_start x) H (ri_buckets x)" "\<forall>q' \<in> snd ` H. q' \<le> ri_latest x"
    "q \<noteq> 0"
  shows "buckets_ok (ri_exact_start (publish_exact_step i q x)) (insert (i, q) H) (ri_buckets (publish_exact_step i q x))"
proof (cases "q < ri_latest x")
  case True
  have "bucket_ok n k start H' empty_bucket" for n k start H'
    by (auto simp: bucket_ok_def empty_bucket_def slot_ok_def empty_slot_def nth_replicate)
  with True show ?thesis by (simp add: publish_exact_step_def buckets_ok_def)
next
  case False
  with assms(2) have le: "\<forall>q' \<in> snd ` H. q' \<le> q" by fastforce
  let ?bs = "ri_buckets x" let ?h = "home (length ?bs) i"
  have other: "bucket_ok (length ?bs) k (ri_exact_start x) (insert (i, q) H) (?bs ! k)" if "k < length ?bs" "k \<noteq> ?h" for k
    using assms(1) that by (auto simp: buckets_ok_def bucket_ok_def slot_ok_def)
  have "bucket_ok (length ?bs) k (ri_exact_start x) (insert (i, q) H) (?bs[?h := publish_slot i q (?bs ! ?h)] ! k)"
    if "k < length ?bs" for k
  proof (cases "k = ?h")
    case True
    with that assms(1) have "bucket_ok (length ?bs) ?h (ri_exact_start x) H (?bs ! ?h)" by (auto simp: buckets_ok_def)
    from publish_slot_ok [OF this le refl] True that show ?thesis by simp
  next
    case False
    with other [OF that] show ?thesis by simp
  qed
  with assms(1) False show ?thesis
    by (auto simp: publish_exact_step_def PublishExact_def ExactBucketFor_def buckets_ok_def simp flip: home_def)
qed

lemma publish_exact_step_fields [simp]:
  "ri_windows (publish_exact_step i q x) = ri_windows x"
  "ri_start (publish_exact_step i q x) = ri_start x"
  "ri_latest (publish_exact_step i q x) = ri_latest x"
  by (simp_all add: publish_exact_step_def PublishExact_def split: option.split)

lemma publish_exact_step_start:
  "ri_exact_start (publish_exact_step i q x) \<in> {ri_exact_start x, ri_latest x}"
  by (simp add: publish_exact_step_def PublishExact_def split: option.split)

section \<open>Windows\<close>

text \<open>Replacing a window keeps the coverage when what the old one recorded is below the new start.\<close>

lemma cover_replace:
  assumes "windows_cover start H ws" "start \<le> start'" "k < length ws"
    "wi_active (ws ! k) \<Longrightarrow> wi_published (ws ! k) \<le> start'"
  shows "windows_cover start' H (ws[k := g])"
  unfolding windows_cover_def
proof safe
  fix i q
  assume "(i, q) \<in> H" and none: "\<not> (\<exists>f \<in> set (ws[k := g]). wi_active f \<and> q \<le> wi_published f \<and> window_might_contain f i)"
  with assms(1) consider "q \<le> start"
    | j where "j < length ws" "wi_active (ws ! j)" "q \<le> wi_published (ws ! j)" "window_might_contain (ws ! j) i"
    by (fastforce simp: windows_cover_def in_set_conv_nth)
  then show "q \<le> start'"
  proof cases
    case 1
    with assms(2) show ?thesis by simp
  next
    case 2
    have "j = k"
    proof (rule ccontr)
      assume "j \<noteq> k"
      with 2 have "ws ! j \<in> set (ws[k := g])" by (metis length_list_update nth_list_update_neq nth_mem)
      with none 2 show False by blast
    qed
    with 2 assms(4) show ?thesis by auto
  qed
qed

lemma cover_extend:
  assumes "windows_cover start H ws" "k < length ws" "wi_active g" "wi_published (ws ! k) \<le> wi_published g"
    "q \<le> wi_published g" "\<forall>j. window_might_contain (ws ! k) j \<longrightarrow> window_might_contain g j" "window_might_contain g i"
  shows "windows_cover start (insert (i, q) H) (ws[k := g])"
proof -
  have g: "g \<in> set (ws[k := g])" using assms(2) by (rule set_update_memI)
  have "\<exists>f \<in> set (ws[k := g]). wi_active f \<and> q' \<le> wi_published f \<and> window_might_contain f j"
    if f: "f \<in> set ws" "wi_active f" "q' \<le> wi_published f" "window_might_contain f j" for f j q'
  proof (cases "f = ws ! k")
    case True
    with f assms(4) have "q' \<le> wi_published g" by (simp add: order_trans)
    moreover have "window_might_contain g j" using f(4) assms(6) unfolding True by blast
    ultimately show ?thesis using g assms(3) by blast
  next
    case False
    with f(1) have "f \<in> set (ws[k := g])" by (metis in_set_conv_nth length_list_update nth_list_update_neq)
    with f show ?thesis by blast
  qed
  with assms(1) g assms(3,5,7) show ?thesis unfolding windows_cover_def by blast
qed

lemma cover_close:
  assumes "windows_cover start H ws" "k < length ws"
  shows "windows_cover start H (ws[k := (ws ! k)\<lparr>wi_last := l\<rparr>])"
  unfolding windows_cover_def
proof safe
  fix i q
  assume "(i, q) \<in> H" and none: "\<not> (\<exists>f \<in> set (ws[k := (ws ! k)\<lparr>wi_last := l\<rparr>]).
    wi_active f \<and> q \<le> wi_published f \<and> window_might_contain f i)"
  show "q \<le> start"
  proof (rule ccontr)
    assume "\<not> q \<le> start"
    with assms(1) \<open>(i, q) \<in> H\<close> obtain j where j: "j < length ws" "wi_active (ws ! j)" "q \<le> wi_published (ws ! j)"
      "window_might_contain (ws ! j) i"
      by (fastforce simp: windows_cover_def in_set_conv_nth)
    have mem: "ws[k := (ws ! k)\<lparr>wi_last := l\<rparr>] ! j \<in> set (ws[k := (ws ! k)\<lparr>wi_last := l\<rparr>])"
      using j(1) by (intro nth_mem) simp
    have "wi_active (ws[k := (ws ! k)\<lparr>wi_last := l\<rparr>] ! j) \<and> q \<le> wi_published (ws[k := (ws ! k)\<lparr>wi_last := l\<rparr>] ! j) \<and>
        window_might_contain (ws[k := (ws ! k)\<lparr>wi_last := l\<rparr>] ! j) i"
      using j assms(2) by (cases "j = k") (simp_all add: window_might_contain_def)
    with none mem show False by blast
  qed
qed

lemma Clear_fields [simp]:
  "wi_active (Clear w first f)" "bloom_ready (wi_words (Clear w first f)) = bloom_ready (wi_words f)"
  by (simp_all add: Clear_def bloom_ready_def)

definition windows_ok :: "(fact_identity \<times> u64) set \<Rightarrow> recent_index \<Rightarrow> bool" where
  "windows_ok H x \<longleftrightarrow>
     ri_windows x \<noteq> [] \<and> (\<forall>f \<in> set (ri_windows x). bloom_ready (wi_words f)) \<and>
     windows_cover (ri_start x) H (ri_windows x)"

text \<open>A step on the windows leaves the exact part alone and never lowers the start.\<close>

definition windows_step :: "recent_index \<Rightarrow> recent_index \<Rightarrow> bool" where
  "windows_step x y \<longleftrightarrow>
     ri_start x \<le> ri_start y \<and> ri_exact_start y = ri_exact_start x \<and> ri_buckets y = ri_buckets x \<and>
     ri_latest x \<le> ri_latest y"

lemma ready_update:
  "\<forall>f \<in> set ws. bloom_ready (wi_words f) \<Longrightarrow> bloom_ready (wi_words g) \<Longrightarrow>
   \<forall>f \<in> set (ws[k := g]). bloom_ready (wi_words f)"
  using set_update_subset_insert [of ws k g] by blast

lemma ActivateFilter_ok:
  assumes "windows_ok H x" "ActivateFilter first x = (y, k)"
  shows "windows_ok H y \<and> windows_step x y \<and> ri_latest y = ri_latest x \<and> k < length (ri_windows y) \<and>
    wi_active (ri_windows y ! k)"
proof -
  let ?ws = "ri_windows x"
  have x: "?ws \<noteq> []" "\<forall>f \<in> set ?ws. bloom_ready (wi_words f)" "windows_cover (ri_start x) H ?ws"
    using assms(1) by (simp_all add: windows_ok_def)
  show ?thesis
  proof (cases "index_where (\<lambda>f. \<not> wi_active f) ?ws")
    case (Some j)
    from index_where_Some [OF this] have j: "j < length ?ws" "\<not> wi_active (?ws ! j)" by auto
    let ?g = "Clear (ri_window_sequences x) first (?ws ! j)"
    have "windows_cover (ri_start x) H (?ws[j := ?g])"
      using cover_replace [OF x(3) order_refl j(1)] j(2) by blast
    moreover have "\<forall>f \<in> set (?ws[j := ?g]). bloom_ready (wi_words f)"
      using x(2) j(1) by (intro ready_update) simp_all
    moreover have "y = x\<lparr>ri_windows := ?ws[j := ?g]\<rparr>" "k = j"
      using assms(2) Some by (auto simp: ActivateFilter_def)
    ultimately show ?thesis using x(1) j(1) by (simp add: windows_ok_def windows_step_def)
  next
    case None
    let ?j = "min_element (map wi_first ?ws)"
    let ?g = "Clear (ri_window_sequences x) first (?ws ! ?j)"
    let ?s = "max (ri_start x) (max (wi_last (?ws ! ?j)) (wi_published (?ws ! ?j)))"
    have j: "?j < length ?ws" using min_element_in_range [of "map wi_first ?ws"] x(1) by simp
    have "windows_cover ?s H (?ws[?j := ?g])"
      by (rule cover_replace [OF x(3) _ j]) (simp_all add: le_max_iff_disj)
    moreover have "\<forall>f \<in> set (?ws[?j := ?g]). bloom_ready (wi_words f)"
      using x(2) j by (intro ready_update) simp_all
    moreover have "y = x\<lparr>ri_start := ?s, ri_windows := ?ws[?j := ?g]\<rparr>" "k = ?j"
      using assms(2) None by (auto simp: ActivateFilter_def Let_def)
    ultimately show ?thesis using x(1) j by (simp add: windows_ok_def windows_step_def)
  qed
qed

lemma RollFilter_ok:
  assumes "windows_ok H x" "k < length (ri_windows x)"
  shows "windows_ok H (RollFilter k q x) \<and> windows_step x (RollFilter k q x) \<and>
    ri_latest (RollFilter k q x) = ri_latest x"
proof -
  let ?f = "ri_windows x ! k"
  let ?y = "if wi_first ?f < q then x\<lparr>ri_windows := (ri_windows x)[k := ?f\<lparr>wi_last := q - 1\<rparr>]\<rparr>
    else x\<lparr>ri_start := max (ri_start x) q\<rparr>"
  obtain z j where z: "ActivateFilter q ?y = (z, j)" by (cases "ActivateFilter q ?y")
  have x: "ri_windows x \<noteq> []" "\<forall>f \<in> set (ri_windows x). bloom_ready (wi_words f)"
    "windows_cover (ri_start x) H (ri_windows x)"
    using assms(1) by (simp_all add: windows_ok_def)
  have "windows_cover (ri_start x) H ((ri_windows x)[k := ?f\<lparr>wi_last := q - 1\<rparr>])"
    by (rule cover_close [OF x(3) assms(2)])
  moreover have "windows_cover (max (ri_start x) q) H (ri_windows x)"
    using cover_replace [OF x(3) _ assms(2), of "max (ri_start x) q"] x(3)
    unfolding windows_cover_def by (simp add: le_max_iff_disj) blast
  moreover have "\<forall>f \<in> set ((ri_windows x)[k := ?f\<lparr>wi_last := q - 1\<rparr>]). bloom_ready (wi_words f)"
    using x(2) assms(2) by (intro ready_update) simp_all
  ultimately have "windows_ok H ?y" using x by (simp add: windows_ok_def)
  from ActivateFilter_ok [OF this z] have "windows_ok H z" "windows_step ?y z" "ri_latest z = ri_latest ?y" by blast+
  then show ?thesis
    by (auto simp: RollFilter_def Let_def z windows_step_def split: if_splits)
qed

lemma window_add_might:
  assumes "bloom_ready (wi_words f)"
  shows "window_might_contain (window_add i f) i"
    "window_might_contain f j \<Longrightarrow> window_might_contain (window_add i f) j"
  using assms bloom.test_add [OF assms] bloom.test_mono [OF assms]
  by (auto simp: window_might_contain_def window_add_def bloom_ready_def)

lemma publish_window_ok:
  assumes "windows_ok H x"
  shows "windows_ok (insert (i, q) H) (publish_window i q x) \<and> windows_step x (publish_window i q x) \<and>
    q \<le> ri_latest (publish_window i q x)"
proof -
  obtain y k where y: "(case FindFilter x q of Some k \<Rightarrow> (x, k) | None \<Rightarrow> ActivateFilter (WindowStart x q) x) = (y, k)"
    by fastforce
  have "windows_ok H y \<and> windows_step x y \<and> k < length (ri_windows y) \<and> wi_active (ri_windows y ! k)"
  proof (cases "FindFilter x q")
    case None
    with y ActivateFilter_ok [OF assms, of "WindowStart x q" y k] show ?thesis by simp
  next
    case (Some j)
    with y index_where_Some [OF Some [unfolded FindFilter_def]] assms show ?thesis
      by (auto simp: windows_step_def)
  qed
  then have k: "windows_ok H y" "windows_step x y" "k < length (ri_windows y)" "wi_active (ri_windows y ! k)"
    by blast+
  let ?f = "ri_windows y ! k"
  let ?g = "(window_add i ?f)\<lparr>wi_identities := wi_identities ?f + 1, wi_published := max (wi_published ?f) q\<rparr>"
  let ?z = "y\<lparr>ri_windows := (ri_windows y)[k := ?g], ri_latest := max (ri_latest y) q\<rparr>"
  have ready: "bloom_ready (wi_words ?f)" using k(1,3) by (simp add: windows_ok_def)
  have "window_might_contain ?g j \<longleftrightarrow> window_might_contain (window_add i ?f) j" for j
    by (simp add: window_might_contain_def)
  then have might: "\<forall>j. window_might_contain ?f j \<longrightarrow> window_might_contain ?g j" "window_might_contain ?g i"
    using window_add_might [OF ready] by blast+
  have "wi_active ?g" using k(4) by (simp add: window_add_def)
  then have "windows_cover (ri_start y) (insert (i, q) H) ((ri_windows y)[k := ?g])"
    using k(1,3) might by (intro cover_extend) (simp_all add: windows_ok_def)
  moreover have "bloom_ready (wi_words ?g)" using ready by (simp add: window_add_def bloom.ready_add)
  then have "\<forall>f \<in> set ((ri_windows y)[k := ?g]). bloom_ready (wi_words f)"
    using k(1) by (intro ready_update) (simp_all add: windows_ok_def)
  ultimately have z: "windows_ok (insert (i, q) H) ?z" using k(1) by (simp add: windows_ok_def)
  have step: "windows_step x ?z" using k(2) by (simp add: windows_step_def le_max_iff_disj)
  have g: "wi_identities (window_add i ?f) = wi_identities ?f" "wi_published (window_add i ?f) = wi_published ?f"
    by (simp_all add: window_add_def)
  have p: "publish_window i q x =
      (if ri_max_identities ?z \<noteq> 0 \<and> wi_identities ?g \<ge> ri_max_identities ?z then RollFilter k q ?z else ?z)"
    unfolding publish_window_def y Let_def by (simp add: g)
  from RollFilter_ok [OF z, of k q] k(3) z step show ?thesis
    unfolding p by (auto simp: windows_step_def)
qed

section \<open>Soundness\<close>

lemma drop_stale_windows_ok:
  assumes "recent_ok c H x" "ri_windows x \<noteq> []"
  shows "windows_ok H (drop_stale_windows q x) \<and> c \<le> ri_start (drop_stale_windows q x) \<and>
    ri_exact_start (drop_stale_windows q x) = ri_exact_start x \<and>
    ri_buckets (drop_stale_windows q x) = ri_buckets x \<and> ri_latest (drop_stale_windows q x) = ri_latest x"
proof (cases "q < ri_start x")
  case True
  have "windows_cover (ri_latest x) H ws" for ws
    using assms(1) unfolding recent_ok_def windows_cover_def by blast
  with True assms show ?thesis
    by (auto simp: drop_stale_windows_def windows_ok_def recent_ok_def bloom_ready_def)
next
  case False
  with assms show ?thesis by (simp add: drop_stale_windows_def windows_ok_def recent_ok_def)
qed

lemma recent_ok_latest: "recent_ok c H x \<Longrightarrow> \<forall>q \<in> snd ` H. q \<le> ri_latest x"
  unfolding recent_ok_def by fastforce

lemma Publish_recent_ok:
  assumes "recent_ok c H x" "FactRef_Validate r = OK" "q \<noteq> 0"
  shows "recent_ok c (insert (IdentityOf r, q) H) (Publish_recent r q x)"
proof -
  let ?i = "IdentityOf r" let ?y = "publish_exact_step ?i q x"
  have y: "recent_ok c H ?y"
    using assms(1) publish_exact_step_start [of ?i q x]
      publish_exact_step_ok [OF _ recent_ok_latest [OF assms(1)] assms(3), of ?i]
    by (auto simp: recent_ok_def buckets_ok_def bucket_ok_def slot_ok_def)
  have exact: "buckets_ok (ri_exact_start ?y) (insert (?i, q) H) (ri_buckets ?y)"
    using publish_exact_step_ok [OF _ recent_ok_latest [OF assms(1)] assms(3)] assms(1) by (simp add: recent_ok_def)
  have latest: "\<forall>(j, p) \<in> insert (?i, q) H. p \<le> l" if "ri_latest x \<le> l" "q \<le> l" for l
    using recent_ok_latest [OF assms(1)] that by fastforce
  show ?thesis
  proof (cases "ri_windows ?y = []")
    case True
    then have "Publish_recent r q x = ?y\<lparr>ri_latest := max (ri_latest ?y) q\<rparr>"
      using assms(2,3) by (simp add: Publish_recent_def Let_def)
    with True y exact latest [of "max (ri_latest x) q"] show ?thesis
      by (simp add: recent_ok_def le_max_iff_disj)
  next
    case False
    let ?z = "drop_stale_windows q ?y" let ?w = "publish_window ?i q ?z"
    note z = drop_stale_windows_ok [OF y False, of q]
    then have w: "windows_ok (insert (?i, q) H) ?w" "windows_step ?z ?w" "q \<le> ri_latest ?w"
      using publish_window_ok [of H ?z ?i q] by blast+
    have "Publish_recent r q x = ?w"
      using False assms(2,3) by (simp add: Publish_recent_def Let_def)
    with z w y exact latest [of "ri_latest ?w"] show ?thesis
      by (auto simp: recent_ok_def windows_ok_def windows_step_def)
  qed
qed

lemma RecentFactWriteIndex_ok:
  assumes "max_bytes \<le> 2 ^ 61"
  shows "recent_ok c {} (RecentFactWriteIndex sb sf max_bytes c w)"
proof -
  have "bloom_ready (replicate (WordsPerFilter b) 0)" if "WordsPerFilter b \<noteq> 0" "b \<le> max_bytes" for b
    using that assms double_up_to_bounds [of 1 "b div 4 div 8"]
    by (auto simp: bloom_ready_def WordsPerFilter_def kFilterCount_def Let_def split: if_splits)
  then show ?thesis
    by (auto simp: recent_ok_def RecentFactWriteIndex_def Let_def windows_cover_def buckets_ok_def bucket_ok_def
        empty_bucket_def slot_ok_def empty_slot_def split: if_splits)
qed

lemma find_nth_slot:
  "find P xs = Some x \<Longrightarrow> x \<in> set xs \<and> P x"
  by (induction xs) (auto split: if_splits)

lemma CanProveUnchanged_sound:
  assumes "recent_ok c H x" "CanProveUnchanged x r s"
  shows "c \<le> s \<and> ((IdentityOf r, q) \<in> H \<longrightarrow> q \<le> s)"
proof -
  let ?i = "IdentityOf r"
  show ?thesis
  proof (cases "if ri_exact_start x \<le> s then exact_slot_of x ?i else None")
    case None
    with assms(2) have w: "windows_prove x ?i s" by (simp add: CanProveUnchanged_def split: if_splits)
    then have start: "ri_windows x \<noteq> []" "ri_start x \<le> s" by (auto simp: windows_prove_def)
    moreover have "q \<le> s" if "(?i, q) \<in> H"
    proof (rule ccontr)
      assume "\<not> q \<le> s"
      with start have "\<not> q \<le> ri_start x" by simp
      with that assms(1) start(1) obtain f where "f \<in> set (ri_windows x)" "wi_active f" "q \<le> wi_published f"
        "window_might_contain f ?i"
        unfolding recent_ok_def windows_cover_def by blast
      with w \<open>\<not> q \<le> s\<close> show False by (auto simp: windows_prove_def list_all_iff)
    qed
    ultimately show ?thesis using assms(1) by (auto simp: recent_ok_def)
  next
    case (Some slot)
    then have s: "ri_exact_start x \<le> s" "es_latest slot \<le> s" "exact_slot_of x ?i = Some slot"
      using assms(2) by (auto simp: CanProveUnchanged_def split: if_splits)
    then obtain k where k: "ExactBucketFor x ?i = Some k" "slot \<in> set (eb_slots (ri_buckets x ! k))"
      "es_occupied slot" "es_identity slot = ?i"
      by (auto simp: exact_slot_of_def split: option.splits dest!: find_nth_slot)
    then have "k < length (ri_buckets x)" by (auto simp: ExactBucketFor_def split: if_splits)
    then have "bucket_ok (length (ri_buckets x)) k (ri_exact_start x) H (ri_buckets x ! k)"
      using assms(1) by (simp add: recent_ok_def buckets_ok_def)
    with k(2) have "slot_ok (length (ri_buckets x)) k (ri_exact_start x) H slot"
      unfolding bucket_ok_def by blast
    with k(3,4) have "(?i, q) \<in> H \<longrightarrow> q \<le> es_latest slot \<or> q \<le> ri_exact_start x"
      by (simp add: slot_ok_def)
    moreover have "c \<le> ri_exact_start x" using assms(1) by (simp add: recent_ok_def)
    ultimately show ?thesis using s(1,2) by (auto intro: order_trans)
  qed
qed

definition publish_all :: "(fact_ref \<times> commit_seq) list \<Rightarrow> recent_index \<Rightarrow> recent_index" where
  "publish_all = fold (\<lambda>(r, q). Publish_recent r q)"

lemma publish_all_ok:
  "recent_ok c H x \<Longrightarrow>
   recent_ok c (H \<union> {(IdentityOf r, q) | r q. (r, q) \<in> set ps \<and> FactRef_Validate r = OK \<and> q \<noteq> 0}) (publish_all ps x)"
proof (induction ps arbitrary: H x)
  case (Cons p ps)
  obtain r q where p: "p = (r, q)" by (cases p)
  let ?new = "if FactRef_Validate r = OK \<and> q \<noteq> 0 then {(IdentityOf r, q)} else {}"
  have "recent_ok c (?new \<union> H) (Publish_recent r q x)"
    using Cons.prems Publish_recent_ok [of c H x r q] by (simp add: Publish_recent_def)
  from Cons.IH [OF this]
  have ih: "recent_ok c (?new \<union> H \<union> {(IdentityOf r, q) | r q. (r, q) \<in> set ps \<and> FactRef_Validate r = OK \<and> q \<noteq> 0})
      (publish_all (p # ps) x)"
    by (simp add: publish_all_def p)
  have eq: "?new \<union> H \<union> {(IdentityOf r, q) | r q. (r, q) \<in> set ps \<and> FactRef_Validate r = OK \<and> q \<noteq> 0} =
      H \<union> {(IdentityOf r, q) | r q. (r, q) \<in> set (p # ps) \<and> FactRef_Validate r = OK \<and> q \<noteq> 0}"
    by (auto simp: p)
  show ?case using ih unfolding eq .
qed (simp add: publish_all_def)

text \<open>
  C21: the recent-write index proves only true things. For an index of at most \<open>2 ^ 61\<close> bytes
  and after any sequence of published writes, in or out of commit order, a positive answer for
  a fact and a snapshot means that the snapshot is not older than the index's start and that
  no published write of the fact is newer than the snapshot. Evicted slots, reused windows and
  full windows only cost answers.
\<close>

theorem recent_index_sound:
  assumes "max_bytes \<le> 2 ^ 61"
    "CanProveUnchanged (publish_all ps (RecentFactWriteIndex sb sf max_bytes c w)) r s"
  shows "c \<le> s \<and> (\<forall>q. (r, q) \<in> set ps \<longrightarrow> q \<le> s)"
proof -
  let ?x = "publish_all ps (RecentFactWriteIndex sb sf max_bytes c w)"
  have r: "FactRef_Validate r = OK" using assms(2) by (simp add: CanProveUnchanged_def split: if_splits)
  note ok = publish_all_ok [OF RecentFactWriteIndex_ok [OF assms(1)], of c ps sb sf w]
  have "q \<le> s" if "(r, q) \<in> set ps" for q
  proof (cases "q = 0")
    case False
    with that r CanProveUnchanged_sound [OF ok assms(2), of q] show ?thesis by blast
  qed simp
  with CanProveUnchanged_sound [OF ok assms(2)] show ?thesis by blast
qed

definition sample_writes :: "(fact_ref \<times> commit_seq) list" where
  "sample_writes =
     [(EntityFact_Vertex \<lparr>vr_part = 1, vr_vertex = 7\<rparr>, 3), (EntityFact_Vertex \<lparr>vr_part = 1, vr_vertex = 8\<rparr>, 4)]"

lemma sample_index:
  "RecentFactWriteIndex 96 64 192 2 16 =
     \<lparr>ri_windows = [], ri_max_identities = 0, ri_window_sequences = 16, ri_anchor = 3, ri_buckets = [empty_bucket],
      ri_exact_start = 2, ri_start = 2, ri_latest = 2\<rparr>"
  by (simp add: RecentFactWriteIndex_def kFilterCount_def)

lemma empty_bucket_slots:
  "empty_bucket = \<lparr>eb_slots = [empty_slot, empty_slot, empty_slot, empty_slot], eb_next = 0\<rparr>"
  by (simp add: empty_bucket_def eval_nat_numeral)

theorem recent_index_sound_witness:
  "CanProveUnchanged (publish_all sample_writes (RecentFactWriteIndex 96 64 192 2 16))
     (EntityFact_Vertex \<lparr>vr_part = 1, vr_vertex = 7\<rparr>) 3 \<and> (2 :: u64) \<le> 3"
proof -
  have "CanProveUnchanged (publish_all sample_writes (RecentFactWriteIndex 96 64 192 2 16))
     (EntityFact_Vertex \<lparr>vr_part = 1, vr_vertex = 7\<rparr>) 3"
    unfolding sample_index
    by (simp add: publish_all_def sample_writes_def Publish_recent_def publish_exact_step_def
        PublishExact_def ExactBucketFor_def publish_slot_def empty_bucket_slots empty_slot_def
        CanProveUnchanged_def exact_slot_of_def IdentityOf_def EntityFact_Vertex_def FactRef_Validate_OK_iff
        IsKnownFamily_def IsStateFamily_def)
  with recent_index_sound [OF _ this] show ?thesis by simp
qed

end
