(* ===== verification/Version_Cache.thy ===== *)
theory Version_Cache
  imports Fact_Identity
begin

text \<open>
  \<^verbatim>\<open>VersionValidationCache\<close> of \<^verbatim>\<open>version_validation_cache.{h,cc}\<close>: a set-associative cache of
  short boundary chains, primed by scans of the store and kept current by publications. A step
  relation interleaves durable writes, publications, lookups and scans that may overlap with
  publications, as the publisher and its readers do.
\<close>

section \<open>Chains\<close>

type_synonym validation_boundary = "valid_time \<times> commit_seq"

definition kMaxBoundariesPerChain :: nat where
  "kMaxBoundariesPerChain = 8"

definition InsertBoundary :: "validation_boundary \<Rightarrow> validation_boundary list \<Rightarrow> bool \<times> validation_boundary list" where
  "InsertBoundary b chain =
     (let position = length (takeWhile (\<lambda>c. fst c > fst b) chain)
      in if position < length chain \<and> fst (chain ! position) = fst b
         then (True, chain[position := (fst b, max (snd (chain ! position)) (snd b))])
         else if length chain = kMaxBoundariesPerChain then (False, chain)
         else (True, take position chain @ b # drop position chain))"

section \<open>The cache\<close>

record cache_slot =
  cs_key :: fact_identity
  cs_chain :: "validation_boundary list"
  cs_touch :: u64
  cs_occupied :: bool

record version_cache =
  vc_slots :: "cache_slot list"
  vc_clock :: u64
  vc_resident :: nat
  vc_hits :: u64
  vc_misses :: u64
  vc_skipped :: u64
  vc_generation :: u64

definition kSetWays :: nat where
  "kSetWays = 4"

definition SlotCapacityForBytes :: "nat \<Rightarrow> nat \<Rightarrow> nat" where
  "SlotCapacityForBytes sizeof_slot max_bytes =
     (let raw_slots = max_bytes div sizeof_slot
      in if raw_slots < kSetWays then 0 else double_up_to raw_slots kSetWays)"

definition VersionValidationCache :: "nat \<Rightarrow> nat \<Rightarrow> version_cache" where
  "VersionValidationCache sizeof_slot max_bytes =
     \<lparr>vc_slots = replicate (SlotCapacityForBytes sizeof_slot max_bytes)
        \<lparr>cs_key = (0, 0, 0, 0), cs_chain = [], cs_touch = 0, cs_occupied = False\<rparr>,
      vc_clock = 0, vc_resident = 0, vc_hits = 0, vc_misses = 0, vc_skipped = 0, vc_generation = 0\<rparr>"

definition SetOffset :: "version_cache \<Rightarrow> fact_identity \<Rightarrow> nat" where
  "SetOffset c key =
     unat (FactIdentityHash key AND (of_nat (length (vc_slots c) div kSetWays) - 1)) * kSetWays"

definition ways :: "version_cache \<Rightarrow> fact_identity \<Rightarrow> nat list" where
  "ways c key = map (\<lambda>index. SetOffset c key + index) [0..<kSetWays]"

definition FindLocked :: "version_cache \<Rightarrow> fact_identity \<Rightarrow> nat option" where
  "FindLocked c key =
     (if vc_slots c = [] then None
      else find (\<lambda>k. cs_occupied (vc_slots c ! k) \<and> cs_key (vc_slots c ! k) = key) (ways c key))"

definition SelectForPrimeLocked :: "version_cache \<Rightarrow> fact_identity \<Rightarrow> nat" where
  "SelectForPrimeLocked c key =
     (case find (\<lambda>k. \<not> cs_occupied (vc_slots c ! k)) (ways c key) of
        Some k \<Rightarrow> k
      | None \<Rightarrow>
          foldl (\<lambda>oldest k. if cs_touch (vc_slots c ! k) < cs_touch (vc_slots c ! oldest) then k else oldest)
            (SetOffset c key) (ways c key))"

definition update_slot :: "nat \<Rightarrow> (cache_slot \<Rightarrow> cache_slot) \<Rightarrow> version_cache \<Rightarrow> version_cache" where
  "update_slot k f c = c\<lparr>vc_slots := (vc_slots c)[k := f (vc_slots c ! k)]\<rparr>"

definition TouchLocked :: "nat \<Rightarrow> version_cache \<Rightarrow> version_cache" where
  "TouchLocked k c =
     update_slot k (\<lambda>s. s\<lparr>cs_touch := vc_clock c + 1\<rparr>) (c\<lparr>vc_clock := vc_clock c + 1\<rparr>)"

definition Evict :: "nat \<Rightarrow> version_cache \<Rightarrow> version_cache" where
  "Evict k c = (update_slot k (\<lambda>s. s\<lparr>cs_occupied := False\<rparr>) c)\<lparr>vc_resident := vc_resident c - 1\<rparr>"

definition Lookup :: "version_cache \<Rightarrow> fact_ref \<Rightarrow> validation_boundary list option \<times> version_cache" where
  "Lookup c r =
     (if FactRef_Validate r \<noteq> OK then (None, c)
      else case FindLocked c (IdentityOf r) of
             None \<Rightarrow> (None, c\<lparr>vc_misses := vc_misses c + 1\<rparr>)
           | Some k \<Rightarrow>
               (Some (cs_chain (vc_slots c ! k)), TouchLocked k (c\<lparr>vc_hits := vc_hits c + 1\<rparr>)))"

fun build_chain :: "validation_boundary list \<Rightarrow> validation_boundary list \<Rightarrow> validation_boundary list option" where
  "build_chain chain [] = Some chain"
| "build_chain chain (b # bs) =
     (if snd b = 0 then build_chain chain bs
      else let (inserted, chain') = InsertBoundary b chain
           in if inserted then build_chain chain' bs else None)"

definition Prime :: "fact_ref \<Rightarrow> validation_boundary list \<Rightarrow> u64 \<Rightarrow> version_cache \<Rightarrow> version_cache" where
  "Prime r boundaries observed_generation c =
     (if vc_slots c = [] \<or> FactRef_Validate r \<noteq> OK then c
      else let key = IdentityOf r in
        case build_chain [] boundaries of
          None \<Rightarrow> (case FindLocked c key of None \<Rightarrow> c | Some k \<Rightarrow> Evict k c)
        | Some chain \<Rightarrow>
            if vc_generation c \<noteq> observed_generation then c\<lparr>vc_skipped := vc_skipped c + 1\<rparr>
            else let (k, resident) =
                       (case FindLocked c key of
                          Some k \<Rightarrow> (k, vc_resident c)
                        | None \<Rightarrow>
                            (let k = SelectForPrimeLocked c key
                             in (k, if cs_occupied (vc_slots c ! k) then vc_resident c else vc_resident c + 1)))
                 in TouchLocked k
                      (update_slot k (\<lambda>s. s\<lparr>cs_key := key, cs_chain := chain, cs_occupied := True\<rparr>)
                        (c\<lparr>vc_resident := resident\<rparr>)))"

definition Publish_version :: "fact_ref \<Rightarrow> valid_time \<Rightarrow> commit_seq \<Rightarrow> version_cache \<Rightarrow> version_cache" where
  "Publish_version r valid_from sequence c =
     (if sequence = 0 \<or> FactRef_Validate r \<noteq> OK then c
      else let c = c\<lparr>vc_generation := vc_generation c + 1\<rparr> in
        case FindLocked c (IdentityOf r) of
          None \<Rightarrow> c
        | Some k \<Rightarrow>
            let (inserted, chain) = InsertBoundary (valid_from, sequence) (cs_chain (vc_slots c ! k))
            in if inserted then TouchLocked k (update_slot k (\<lambda>s. s\<lparr>cs_chain := chain\<rparr>) c) else Evict k c)"

definition resident_bytes :: "nat \<Rightarrow> version_cache \<Rightarrow> nat" where
  "resident_bytes sizeof_slot c = vc_resident c * sizeof_slot"

section \<open>Chains as sets of boundaries\<close>

definition descending :: "validation_boundary list \<Rightarrow> bool" where
  "descending = sorted_wrt (\<lambda>a b. fst a > fst b)"

text \<open>Every entry is one of \<open>W\<close>, and every one of \<open>P\<close> is covered by an entry at its time.\<close>

definition chain_between :: "validation_boundary set \<Rightarrow> validation_boundary set \<Rightarrow> validation_boundary list \<Rightarrow> bool" where
  "chain_between P W chain \<longleftrightarrow>
     descending chain \<and> set chain \<subseteq> W \<and> (\<forall>(v, q) \<in> P. \<exists>q'. (v, q') \<in> set chain \<and> q \<le> q')"

lemma descending_distinct: "descending chain \<Longrightarrow> distinct (map fst chain)"
  by (induction chain) (auto simp: descending_def)

lemma InsertBoundary_split:
  "\<exists>pre post. chain = pre @ post \<and> (\<forall>c \<in> set pre. fst c > fst b) \<and> (post \<noteq> [] \<longrightarrow> \<not> fst (hd post) > fst b) \<and>
     InsertBoundary b chain =
       (if post \<noteq> [] \<and> fst (hd post) = fst b then (True, pre @ (fst b, max (snd (hd post)) (snd b)) # tl post)
        else if length chain = kMaxBoundariesPerChain then (False, chain)
        else (True, pre @ b # post))"
proof -
  obtain pre post where pp: "pre = takeWhile (\<lambda>c. fst c > fst b) chain" "post = dropWhile (\<lambda>c. fst c > fst b) chain"
    by blast
  then have chain: "chain = pre @ post" by simp
  have "\<forall>c \<in> set pre. fst c > fst b" using pp(1) by (auto dest: set_takeWhileD)
  moreover have "post \<noteq> [] \<longrightarrow> \<not> fst (hd post) > fst b" using hd_dropWhile pp(2) by blast
  moreover have "InsertBoundary b chain =
      (if post \<noteq> [] \<and> fst (hd post) = fst b then (True, pre @ (fst b, max (snd (hd post)) (snd b)) # tl post)
       else if length chain = kMaxBoundariesPerChain then (False, chain)
       else (True, pre @ b # post))"
  proof -
    have "InsertBoundary b chain =
        (if length pre < length chain \<and> fst (chain ! length pre) = fst b
         then (True, chain[length pre := (fst b, max (snd (chain ! length pre)) (snd b))])
         else if length chain = kMaxBoundariesPerChain then (False, chain)
         else (True, take (length pre) chain @ b # drop (length pre) chain))"
      by (simp only: InsertBoundary_def pp(1) Let_def)
    then show ?thesis unfolding chain by (cases post) (auto simp: nth_append list_update_append)
  qed
  ultimately show ?thesis using chain by blast
qed

lemma InsertBoundary_between:
  assumes "chain_between P W chain" "InsertBoundary b chain = (True, chain')"
  shows "chain_between (insert b P) (insert b W) chain'"
proof -
  obtain pre post where split: "chain = pre @ post" "\<forall>c \<in> set pre. fst c > fst b"
    "post \<noteq> [] \<longrightarrow> \<not> fst (hd post) > fst b"
    "InsertBoundary b chain =
       (if post \<noteq> [] \<and> fst (hd post) = fst b then (True, pre @ (fst b, max (snd (hd post)) (snd b)) # tl post)
        else if length chain = kMaxBoundariesPerChain then (False, chain)
        else (True, pre @ b # post))"
    using InsertBoundary_split [of chain b] by blast
  have old: "descending (pre @ post)" "set (pre @ post) \<subseteq> W" "\<forall>(v, q) \<in> P. \<exists>q'. (v, q') \<in> set (pre @ post) \<and> q \<le> q'"
    using assms(1) unfolding split(1) chain_between_def by auto
  show ?thesis
  proof (cases "post \<noteq> [] \<and> fst (hd post) = fst b")
    case True
    then obtain q0 rest where post: "post = (fst b, q0) # rest" by (cases post) auto
    with True assms(2) split(4) have chain': "chain' = pre @ (fst b, max q0 (snd b)) # rest" by simp
    have "(fst b, max q0 (snd b)) \<in> insert b W" using old(2) by (cases b) (auto simp: post max_def)
    moreover have "\<exists>q'. (v, q') \<in> set chain' \<and> q \<le> q'" if "(v, q) \<in> insert b P" for v q
    proof (cases "(v, q) = b")
      case True
      then show ?thesis by (auto simp: chain')
    next
      case False
      with that old(3) obtain q' where "(v, q') \<in> set (pre @ post)" "q \<le> q'" by fastforce
      then show ?thesis by (auto simp: chain' post le_max_iff_disj)
    qed
    moreover have "descending chain'" using old(1) by (auto simp: chain' post descending_def sorted_wrt_append)
    ultimately show ?thesis using old(2) by (auto simp: chain_between_def chain' post)
  next
    case False
    with assms(2) split(4) have chain': "chain' = pre @ b # post" by (auto split: if_splits)
    have "fst c < fst b" if "c \<in> set post" for c
    proof -
      have "fst (hd post) < fst b" using False split(3) that by (cases post) force+
      moreover have "c = hd post \<or> fst c < fst (hd post)"
        using that old(1) by (cases post) (auto simp: descending_def sorted_wrt_append)
      ultimately show ?thesis by auto
    qed
    then have "descending chain'" using old(1) split(2) by (auto simp: chain' descending_def sorted_wrt_append)
    moreover have "\<exists>q'. (v, q') \<in> set chain' \<and> q \<le> q'" if "(v, q) \<in> insert b P" for v q
      using that old(3) by (fastforce simp: chain')
    ultimately show ?thesis using old(2) by (auto simp: chain_between_def chain')
  qed
qed

lemma build_chain_between:
  "chain_between P W chain \<Longrightarrow> build_chain chain bs = Some chain' \<Longrightarrow> \<forall>b \<in> set bs. snd b \<noteq> 0 \<Longrightarrow>
   chain_between (P \<union> set bs) (W \<union> set bs) chain'"
proof (induction bs arbitrary: chain P W)
  case (Cons b bs)
  obtain chain1 where 1: "InsertBoundary b chain = (True, chain1)" "build_chain chain1 bs = Some chain'"
    using Cons.prems(2,3) by (auto simp: Let_def split: prod.splits if_splits)
  from Cons.IH [OF InsertBoundary_between [OF Cons.prems(1) 1(1)] 1(2)] Cons.prems(3) show ?case by simp
qed (simp)

lemma InsertBoundary_length:
  "length chain \<le> 8 \<Longrightarrow> InsertBoundary b chain = (inserted, chain') \<Longrightarrow> length chain' \<le> 8"
  by (auto simp: InsertBoundary_def kMaxBoundariesPerChain_def Let_def split: if_splits)

lemma chain_between_mono:
  "chain_between P W chain \<Longrightarrow> P' \<subseteq> P \<Longrightarrow> W \<subseteq> W' \<Longrightarrow> chain_between P' W' chain"
  unfolding chain_between_def by blast

text \<open>Such a chain is determined by what it represents.\<close>

lemma chain_between_unique:
  assumes "chain_between P P xs" "chain_between P P ys"
  shows "xs = ys"
proof -
  have sub: "set as \<subseteq> set bs" if "chain_between P P as" "chain_between P P bs" for as bs
  proof
    fix c
    assume c: "c \<in> set as"
    obtain v q where vq: "c = (v, q)" by (cases c)
    with c that obtain q1 where q1: "(v, q1) \<in> set bs" "q \<le> q1" unfolding chain_between_def by blast
    with that obtain q2 where q2: "(v, q2) \<in> set as" "q1 \<le> q2" unfolding chain_between_def by blast
    have "distinct (map fst as)" using that(1) by (simp add: chain_between_def descending_distinct)
    with c q2 vq have "q = q2" by (metis eq_key_imp_eq_value)
    with q1 q2 vq show "c \<in> set bs" by simp
  qed
  have "sorted_wrt (\<lambda>a b. fst a > fst b) xs" "sorted_wrt (\<lambda>a b. fst a > fst b) ys"
    using assms by (auto simp: chain_between_def descending_def)
  then show ?thesis
    using sub [OF assms] sub [OF assms(2,1)]
  proof (induction xs arbitrary: ys)
    case Nil
    then show ?case by simp
  next
    case (Cons x xs)
    then obtain y ys' where ys: "ys = y # ys'" by (cases ys) auto
    have "x = y" using Cons.prems ys by force
    moreover have "x \<notin> set xs" "y \<notin> set ys'" using Cons.prems ys by auto
    ultimately have "set xs = set ys'" using Cons.prems ys by auto
    with Cons ys \<open>x = y\<close> show ?case by auto
  qed
qed

section \<open>Slots\<close>

type_synonym write_history = "(fact_identity \<times> valid_time \<times> commit_seq) set"

definition at_identity :: "write_history \<Rightarrow> fact_identity \<Rightarrow> validation_boundary set" where
  "at_identity H i = {(v, q). (i, v, q) \<in> H}"

definition slot_holds :: "write_history \<Rightarrow> write_history \<Rightarrow> version_cache \<Rightarrow> nat \<Rightarrow> bool" where
  "slot_holds P W c k \<longleftrightarrow>
     (let s = vc_slots c ! k in
      cs_occupied s \<longrightarrow>
        k \<in> set (ways c (cs_key s)) \<and> length (cs_chain s) \<le> 8 \<and>
        chain_between (at_identity P (cs_key s)) (at_identity W (cs_key s)) (cs_chain s))"

definition keys_unique :: "version_cache \<Rightarrow> bool" where
  "keys_unique c \<longleftrightarrow>
     (\<forall>j < length (vc_slots c). \<forall>k < length (vc_slots c).
        cs_occupied (vc_slots c ! j) \<and> cs_occupied (vc_slots c ! k) \<and>
        cs_key (vc_slots c ! j) = cs_key (vc_slots c ! k) \<longrightarrow> j = k)"

definition cache_ok :: "write_history \<Rightarrow> write_history \<Rightarrow> version_cache \<Rightarrow> bool" where
  "cache_ok P W c \<longleftrightarrow>
     (\<forall>i. \<forall>k \<in> set (ways c i). vc_slots c \<noteq> [] \<longrightarrow> k < length (vc_slots c)) \<and>
     (\<forall>k < length (vc_slots c). slot_holds P W c k) \<and> keys_unique c \<and>
     vc_resident c = length (filter cs_occupied (vc_slots c))"

lemma ways_cong: "length (vc_slots c) = length (vc_slots d) \<Longrightarrow> ways c = ways d"
  by (simp add: ways_def SetOffset_def fun_eq_iff)

lemma update_slot_simps [simp]:
  "length (vc_slots (update_slot k f c)) = length (vc_slots c)"
  "ways (update_slot k f c) = ways c"
  "vc_resident (update_slot k f c) = vc_resident c"
  "vc_generation (update_slot k f c) = vc_generation c"
  by (simp_all add: update_slot_def ways_def SetOffset_def fun_eq_iff)

lemma count_update:
  "k < length xs \<Longrightarrow>
   length (filter p (xs[k := y])) + (if p (xs ! k) then 1 else 0) = length (filter p xs) + (if p y then 1 else 0)"
proof (induction xs arbitrary: k)
  case (Cons x xs)
  then show ?case using Cons.IH [of "k - 1"] by (cases k) auto
qed simp

text \<open>Replacing one slot: the new content must hold and its key must be new or already there.\<close>

lemma cache_ok_update:
  assumes "cache_ok P W c" "k < length (vc_slots c)"
    "cs_occupied s \<Longrightarrow> k \<in> set (ways c (cs_key s)) \<and> length (cs_chain s) \<le> 8 \<and>
       chain_between (at_identity P' (cs_key s)) (at_identity W' (cs_key s)) (cs_chain s)"
    "\<forall>j < length (vc_slots c). j \<noteq> k \<longrightarrow> cs_occupied (vc_slots c ! j) \<longrightarrow>
       (cs_occupied s \<longrightarrow> cs_key (vc_slots c ! j) \<noteq> cs_key s) \<and>
       at_identity P' (cs_key (vc_slots c ! j)) = at_identity P (cs_key (vc_slots c ! j)) \<and> W \<subseteq> W'"
    "vc_slots d = (vc_slots c)[k := s]"
    "vc_resident d + (if cs_occupied (vc_slots c ! k) then 1 else 0) = vc_resident c + (if cs_occupied s then 1 else 0)"
  shows "cache_ok P' W' d"
proof -
  have w: "ways d = ways c" using assms(5) by (intro ways_cong) simp
  have "slot_holds P' W' d j" if "j < length (vc_slots c)" for j
  proof (cases "j = k")
    case True
    with assms(2,3,5) show ?thesis by (simp add: slot_holds_def w Let_def)
  next
    case False
    then have d: "vc_slots d ! j = vc_slots c ! j" using assms(5) by simp
    show ?thesis
    proof (cases "cs_occupied (vc_slots c ! j)")
      case True
      with False that assms(4) have P: "at_identity P' (cs_key (vc_slots c ! j)) = at_identity P (cs_key (vc_slots c ! j))"
        and W: "W \<subseteq> W'" by blast+
      have "slot_holds P W c j" using assms(1) that by (simp add: cache_ok_def)
      moreover have "at_identity W (cs_key (vc_slots c ! j)) \<subseteq> at_identity W' (cs_key (vc_slots c ! j))"
        using W by (auto simp: at_identity_def)
      ultimately show ?thesis
        using True chain_between_mono [OF _ order_refl] by (auto simp: slot_holds_def d w Let_def P)
    qed (simp add: slot_holds_def d Let_def)
  qed
  moreover have "keys_unique d"
    unfolding keys_unique_def
  proof (intro allI impI)
    fix j l
    assume "j < length (vc_slots d)" "l < length (vc_slots d)"
      and same: "cs_occupied (vc_slots d ! j) \<and> cs_occupied (vc_slots d ! l) \<and> cs_key (vc_slots d ! j) = cs_key (vc_slots d ! l)"
    then have lt: "j < length (vc_slots c)" "l < length (vc_slots c)" using assms(5) by simp_all
    consider "j = k" "l = k" | "j = k" "l \<noteq> k" | "j \<noteq> k" "l = k" | "j \<noteq> k" "l \<noteq> k" by blast
    then show "j = l"
    proof cases
      case 2
      with same assms(2,4,5) lt show ?thesis by (auto simp del: not_less)
    next
      case 3
      with same assms(2,4,5) lt show ?thesis by (auto simp del: not_less)
    next
      case 4
      then have "vc_slots d ! j = vc_slots c ! j" "vc_slots d ! l = vc_slots c ! l" using assms(5) by simp_all
      with same lt assms(1) show ?thesis by (simp add: cache_ok_def keys_unique_def)
    qed simp
  qed
  moreover have "vc_resident d = length (filter cs_occupied (vc_slots d))"
    using assms(1,6) count_update [OF assms(2), of cs_occupied s] by (simp add: cache_ok_def assms(5))
  ultimately show ?thesis using assms(1) by (simp add: cache_ok_def w assms(5))
qed

lemma cache_ok_grow:
  assumes "cache_ok P W c" "\<forall>k < length (vc_slots c). cs_occupied (vc_slots c ! k) \<longrightarrow>
      at_identity P' (cs_key (vc_slots c ! k)) = at_identity P (cs_key (vc_slots c ! k))" "W \<subseteq> W'"
  shows "cache_ok P' W' c"
proof -
  have "slot_holds P' W' c k" if k: "k < length (vc_slots c)" for k
  proof -
    have "slot_holds P W c k" using assms(1) k by (simp add: cache_ok_def)
    moreover have "at_identity W (cs_key (vc_slots c ! k)) \<subseteq> at_identity W' (cs_key (vc_slots c ! k))"
      using assms(3) by (auto simp: at_identity_def)
    ultimately show ?thesis
      using assms(2) k chain_between_mono [OF _ order_refl] unfolding slot_holds_def Let_def by metis
  qed
  with assms(1) show ?thesis unfolding cache_ok_def by blast
qed

lemma find_mem: "find p xs = Some x \<Longrightarrow> x \<in> set xs \<and> p x"
  by (induction xs) (auto split: if_splits)

lemma FindLocked_Some:
  assumes "cache_ok P W c" "FindLocked c i = Some k"
  shows "k < length (vc_slots c) \<and> cs_occupied (vc_slots c ! k) \<and> cs_key (vc_slots c ! k) = i \<and>
    k \<in> set (ways c i) \<and> length (cs_chain (vc_slots c ! k)) \<le> 8 \<and>
    chain_between (at_identity P i) (at_identity W i) (cs_chain (vc_slots c ! k))"
proof -
  have k: "vc_slots c \<noteq> []" "k \<in> set (ways c i)" "cs_occupied (vc_slots c ! k)" "cs_key (vc_slots c ! k) = i"
    using assms(2) by (auto simp: FindLocked_def split: if_splits dest: find_mem)
  then have lt: "k < length (vc_slots c)" using assms(1) unfolding cache_ok_def by blast
  then have "slot_holds P W c k" using assms(1) by (simp add: cache_ok_def)
  with k lt show ?thesis by (simp add: slot_holds_def Let_def)
qed

lemma FindLocked_None:
  assumes "cache_ok P W c" "FindLocked c i = None" "j < length (vc_slots c)" "cs_occupied (vc_slots c ! j)"
  shows "cs_key (vc_slots c ! j) \<noteq> i"
proof
  assume i: "cs_key (vc_slots c ! j) = i"
  have "slot_holds P W c j" using assms(1,3) by (simp add: cache_ok_def)
  with assms(4) i have "j \<in> set (ways c i)" by (simp add: slot_holds_def Let_def)
  moreover have "vc_slots c \<noteq> []" using assms(3) by auto
  ultimately show False using assms(2,4) i by (auto simp: FindLocked_def find_None_iff)
qed

lemma unique_key:
  "cache_ok P W c \<Longrightarrow> k < length (vc_slots c) \<Longrightarrow> cs_occupied (vc_slots c ! k) \<Longrightarrow>
   j < length (vc_slots c) \<Longrightarrow> j \<noteq> k \<Longrightarrow> cs_occupied (vc_slots c ! j) \<Longrightarrow>
   cs_key (vc_slots c ! j) \<noteq> cs_key (vc_slots c ! k)"
  unfolding cache_ok_def keys_unique_def by blast

lemma cache_ok_cong:
  assumes "vc_slots d = vc_slots c" "vc_resident d = vc_resident c"
  shows "cache_ok P W d = cache_ok P W c"
proof -
  have "ways d = ways c" using assms(1) by (intro ways_cong) simp
  with assms show ?thesis by (simp add: cache_ok_def slot_holds_def keys_unique_def)
qed

lemma cache_ok_counters [simp]:
  "cache_ok P W (c\<lparr>vc_hits := n\<rparr>) = cache_ok P W c"
  "cache_ok P W (c\<lparr>vc_misses := n\<rparr>) = cache_ok P W c"
  "cache_ok P W (c\<lparr>vc_skipped := n\<rparr>) = cache_ok P W c"
  "cache_ok P W (c\<lparr>vc_generation := n\<rparr>) = cache_ok P W c"
  by (rule cache_ok_cong, simp, simp)+

lemma TouchLocked_ok:
  assumes "cache_ok P W c" "k < length (vc_slots c)"
  shows "cache_ok P W (TouchLocked k c)"
proof (rule cache_ok_update [OF assms, where s = "(vc_slots c ! k)\<lparr>cs_touch := vc_clock c + 1\<rparr>"])
  have "slot_holds P W c k" using assms by (simp add: cache_ok_def)
  then show "k \<in> set (ways c (cs_key ((vc_slots c ! k)\<lparr>cs_touch := vc_clock c + 1\<rparr>))) \<and>
      length (cs_chain ((vc_slots c ! k)\<lparr>cs_touch := vc_clock c + 1\<rparr>)) \<le> 8 \<and>
      chain_between (at_identity P (cs_key ((vc_slots c ! k)\<lparr>cs_touch := vc_clock c + 1\<rparr>)))
        (at_identity W (cs_key ((vc_slots c ! k)\<lparr>cs_touch := vc_clock c + 1\<rparr>)))
        (cs_chain ((vc_slots c ! k)\<lparr>cs_touch := vc_clock c + 1\<rparr>))"
    if "cs_occupied ((vc_slots c ! k)\<lparr>cs_touch := vc_clock c + 1\<rparr>)"
    using that by (simp add: slot_holds_def Let_def)
qed (use assms unique_key [OF assms] in \<open>auto simp: TouchLocked_def update_slot_def\<close>)

lemma Evict_ok:
  assumes "cache_ok P W c" "k < length (vc_slots c)" "cs_occupied (vc_slots c ! k)"
    "\<forall>j < length (vc_slots c). j \<noteq> k \<longrightarrow> cs_occupied (vc_slots c ! j) \<longrightarrow>
       at_identity P' (cs_key (vc_slots c ! j)) = at_identity P (cs_key (vc_slots c ! j))" "W \<subseteq> W'"
  shows "cache_ok P' W' (Evict k c)"
proof (rule cache_ok_update [OF assms(1,2), where s = "(vc_slots c ! k)\<lparr>cs_occupied := False\<rparr>"])
  have "vc_slots c ! k \<in> set (filter cs_occupied (vc_slots c))" using assms(2,3) by simp
  then have "0 < vc_resident c" using assms(1) by (metis cache_ok_def length_pos_if_in_set)
  then show "vc_resident (Evict k c) + (if cs_occupied (vc_slots c ! k) then 1 else 0) =
      vc_resident c + (if cs_occupied ((vc_slots c ! k)\<lparr>cs_occupied := False\<rparr>) then 1 else 0)"
    using assms(3) by (simp add: Evict_def)
qed (use assms in \<open>simp_all add: Evict_def update_slot_def\<close>)

lemma store_slot_ok:
  assumes "cache_ok P W c" "k < length (vc_slots c)" "k \<in> set (ways c i)" "length chain \<le> 8"
    "chain_between (at_identity P' i) (at_identity W' i) chain"
    "\<forall>j < length (vc_slots c). j \<noteq> k \<longrightarrow> cs_occupied (vc_slots c ! j) \<longrightarrow>
       cs_key (vc_slots c ! j) \<noteq> i \<and>
       at_identity P' (cs_key (vc_slots c ! j)) = at_identity P (cs_key (vc_slots c ! j))" "W \<subseteq> W'"
    "vc_slots d = (vc_slots c)[k := s]" "cs_key s = i" "cs_chain s = chain" "cs_occupied s"
    "vc_resident d = (if cs_occupied (vc_slots c ! k) then vc_resident c else vc_resident c + 1)"
  shows "cache_ok P' W' d"
  by (rule cache_ok_update [OF assms(1,2) _ _ assms(8)]) (use assms in auto)

section \<open>Operations keep the chains between what is published and what is written\<close>

lemma Lookup_ok:
  assumes "cache_ok P W c"
  shows "cache_ok P W (snd (Lookup c r)) \<and> vc_generation (snd (Lookup c r)) = vc_generation c"
proof (cases "FindLocked c (IdentityOf r)")
  case None
  then show ?thesis using assms by (simp add: Lookup_def)
next
  case (Some k)
  then have "k < length (vc_slots c)" using FindLocked_Some [OF assms] by blast
  then have "cache_ok P W (TouchLocked k (c\<lparr>vc_hits := vc_hits c + 1\<rparr>))"
    using assms by (intro TouchLocked_ok) simp_all
  with Some assms show ?thesis by (simp add: Lookup_def TouchLocked_def)
qed

lemma Lookup_between:
  "cache_ok P W c \<Longrightarrow> fst (Lookup c r) = Some chain \<Longrightarrow>
   chain_between (at_identity P (IdentityOf r)) (at_identity W (IdentityOf r)) chain \<and> length chain \<le> 8"
  using FindLocked_Some [of P W c "IdentityOf r"] by (auto simp: Lookup_def split: if_splits option.splits)

lemma Publish_version_ok:
  assumes "cache_ok P W c" "(IdentityOf r, v, q) \<in> W" "q \<noteq> 0" "FactRef_Validate r = OK"
  shows "cache_ok (insert (IdentityOf r, v, q) P) W (Publish_version r v q c) \<and>
    vc_generation (Publish_version r v q c) = vc_generation c + 1"
proof -
  let ?i = "IdentityOf r" let ?P = "insert (?i, v, q) P"
  let ?c = "c\<lparr>vc_generation := vc_generation c + 1\<rparr>"
  have ok: "cache_ok P W ?c" using assms(1) by simp
  have same: "at_identity ?P j = at_identity P j" if "j \<noteq> ?i" for j using that by (auto simp: at_identity_def)
  have new: "at_identity ?P ?i = insert (v, q) (at_identity P ?i)" by (auto simp: at_identity_def)
  have in_W: "insert (v, q) (at_identity W ?i) = at_identity W ?i" using assms(2) by (auto simp: at_identity_def)
  have p: "Publish_version r v q c =
      (case FindLocked ?c ?i of None \<Rightarrow> ?c
       | Some k \<Rightarrow> let (inserted, chain) = InsertBoundary (v, q) (cs_chain (vc_slots ?c ! k))
           in if inserted then TouchLocked k (update_slot k (\<lambda>s. s\<lparr>cs_chain := chain\<rparr>) ?c) else Evict k ?c)"
    using assms(3,4) by (simp add: Publish_version_def Let_def)
  show ?thesis
  proof (cases "FindLocked ?c ?i")
    case None
    have "cache_ok ?P W ?c"
      by (rule cache_ok_grow [OF ok _ order_refl]) (use FindLocked_None [OF ok None] same in metis)
    with None show ?thesis by (simp add: p)
  next
    case (Some k)
    note k = FindLocked_Some [OF ok Some]
    have others: "\<forall>j < length (vc_slots ?c). j \<noteq> k \<longrightarrow> cs_occupied (vc_slots ?c ! j) \<longrightarrow>
        cs_key (vc_slots ?c ! j) \<noteq> ?i \<and>
        at_identity ?P (cs_key (vc_slots ?c ! j)) = at_identity P (cs_key (vc_slots ?c ! j))"
      using unique_key [OF ok, of k] k same by metis
    obtain inserted chain where ins: "InsertBoundary (v, q) (cs_chain (vc_slots ?c ! k)) = (inserted, chain)"
      by fastforce
    show ?thesis
    proof (cases inserted)
      case True
      let ?u = "update_slot k (\<lambda>s. s\<lparr>cs_chain := chain\<rparr>) ?c"
      have "chain_between (at_identity ?P ?i) (at_identity W ?i) chain"
        unfolding new using InsertBoundary_between [of _ _ _ "(v, q)" chain] k ins True in_W by metis
      moreover have "length chain \<le> 8" using InsertBoundary_length [OF _ ins] k by blast
      ultimately have "cache_ok ?P W ?u"
        using k by (intro store_slot_ok [OF ok _ _ _ _ others order_refl, where
              s = "(vc_slots c ! k)\<lparr>cs_chain := chain\<rparr>"]) (simp_all add: update_slot_def)
      then have "cache_ok ?P W (TouchLocked k ?u)" using k by (intro TouchLocked_ok) simp_all
      with True Some ins show ?thesis by (simp add: p TouchLocked_def)
    next
      case False
      have "cache_ok ?P W (Evict k ?c)" using k others by (intro Evict_ok [OF ok]) blast+
      with False Some ins show ?thesis by (simp add: p Evict_def)
    qed
  qed
qed

lemma SelectForPrime_mem:
  "SelectForPrimeLocked c i \<in> set (ways c i)"
proof -
  have "foldl (\<lambda>oldest k. if cs_touch (vc_slots c ! k) < cs_touch (vc_slots c ! oldest) then k else oldest) a ks
      \<in> insert a (set ks)" for a ks
    by (induction ks arbitrary: a) (auto split: if_splits)
  moreover have "SetOffset c i \<in> set (ways c i)" by (simp add: ways_def kSetWays_def)
  ultimately show ?thesis
    using insert_absorb [of "SetOffset c i" "set (ways c i)"]
    by (auto simp: SelectForPrimeLocked_def dest: find_mem split: option.split)
qed

lemma build_chain_length: "length chain \<le> 8 \<Longrightarrow> build_chain chain bs = Some chain' \<Longrightarrow> length chain' \<le> 8"
  by (induction chain bs rule: build_chain.induct)
    (auto simp: Let_def split: if_splits prod.splits dest: InsertBoundary_length)

text \<open>
  A scan reports chains between the writes published when it started and those written when it
  ends; it may only enter the cache when nothing was published in between.
\<close>

lemma Prime_ok:
  assumes "cache_ok P W c" "chain_between (at_identity P' (IdentityOf r)) (at_identity W (IdentityOf r)) bs"
    "\<forall>b \<in> set bs. snd b \<noteq> 0" "generation = vc_generation c \<Longrightarrow> P' = P"
  shows "cache_ok P W (Prime r bs generation c) \<and> vc_generation (Prime r bs generation c) = vc_generation c"
proof (cases "vc_slots c = [] \<or> FactRef_Validate r \<noteq> OK")
  case True
  with assms(1) show ?thesis by (simp add: Prime_def)
next
  case False
  let ?i = "IdentityOf r"
  have keep: "\<forall>j < length (vc_slots c). j \<noteq> k \<longrightarrow> cs_occupied (vc_slots c ! j) \<longrightarrow>
      at_identity P (cs_key (vc_slots c ! j)) = at_identity P (cs_key (vc_slots c ! j))" for k by simp
  show ?thesis
  proof (cases "build_chain [] bs")
    case None
    show ?thesis
    proof (cases "FindLocked c ?i")
      case (Some k)
      then have "cache_ok P W (Evict k c)" using FindLocked_Some [OF assms(1) Some] Evict_ok [OF assms(1) _ _ keep] by blast
      with False None Some show ?thesis by (simp add: Prime_def Evict_def)
    qed (use False None assms(1) in \<open>simp add: Prime_def\<close>)
  next
    case (Some chain)
    show ?thesis
    proof (cases "vc_generation c = generation")
      case True
      then have P: "P' = P" using assms(4) by simp
      have "chain_between ({} \<union> set bs) ({} \<union> set bs) chain"
        by (rule build_chain_between [OF _ Some assms(3)]) (simp add: chain_between_def descending_def)
      moreover have "set bs \<subseteq> at_identity W ?i" using assms(2) by (simp add: chain_between_def)
      moreover have "\<exists>q'. (v, q') \<in> set chain \<and> q \<le> q'" if "(v, q) \<in> at_identity P ?i" for v q
      proof -
        from that assms(2) P obtain q1 where q1: "(v, q1) \<in> set bs" "q \<le> q1" unfolding chain_between_def by blast
        with calculation(1) obtain q2 where "(v, q2) \<in> set chain" "q1 \<le> q2" unfolding chain_between_def by blast
        with q1 show ?thesis using order_trans by blast
      qed
      ultimately have chain: "chain_between (at_identity P ?i) (at_identity W ?i) chain"
        unfolding chain_between_def by blast
      have len: "length chain \<le> 8" using build_chain_length [OF _ Some] by simp
      let ?store = "\<lambda>k n. update_slot k (\<lambda>s. s\<lparr>cs_key := ?i, cs_chain := chain, cs_occupied := True\<rparr>) (c\<lparr>vc_resident := n\<rparr>)"
      have stored: "cache_ok P W (TouchLocked k (?store k n))"
        if k: "k < length (vc_slots c)" "k \<in> set (ways c ?i)"
          "\<forall>j < length (vc_slots c). j \<noteq> k \<longrightarrow> cs_occupied (vc_slots c ! j) \<longrightarrow> cs_key (vc_slots c ! j) \<noteq> ?i"
          "n = (if cs_occupied (vc_slots c ! k) then vc_resident c else vc_resident c + 1)" for k n
      proof -
        have "cache_ok P W (?store k n)"
          by (rule store_slot_ok [OF assms(1) k(1,2) len chain _ order_refl, where
                s = "(vc_slots c ! k)\<lparr>cs_key := ?i, cs_chain := chain, cs_occupied := True\<rparr>"])
            (use k in \<open>simp_all add: update_slot_def\<close>)
        with k(1) show ?thesis by (intro TouchLocked_ok) simp_all
      qed
      show ?thesis
      proof (cases "FindLocked c ?i")
        case None
        let ?k = "SelectForPrimeLocked c ?i"
        have "?k \<in> set (ways c ?i)" by (rule SelectForPrime_mem)
        moreover have "?k < length (vc_slots c)"
          using assms(1) False calculation unfolding cache_ok_def by blast
        ultimately have "cache_ok P W (TouchLocked ?k (?store ?k
            (if cs_occupied (vc_slots c ! ?k) then vc_resident c else vc_resident c + 1)))"
          using FindLocked_None [OF assms(1) None] by (intro stored) simp_all
        with False Some True None show ?thesis by (simp add: Prime_def Let_def TouchLocked_def)
      next
        case found: (Some k)
        note k = FindLocked_Some [OF assms(1) found]
        then have "cache_ok P W (TouchLocked k (?store k (vc_resident c)))"
          using unique_key [OF assms(1), of k] by (intro stored) simp_all
        with False Some True found show ?thesis by (simp add: Prime_def Let_def TouchLocked_def)
      qed
    next
      case stale: False
      with False Some assms(1) show ?thesis by (simp add: Prime_def)
    qed
  qed
qed

section \<open>Interleavings of writers, publishers and scans\<close>

text \<open>
  \<^verbatim>\<open>cw_written\<close> is what the store holds, \<^verbatim>\<open>cw_published\<close> what the publisher has announced to
  the cache so far, and a scan in flight remembers the generation it captured and what was
  published at that moment.
\<close>

record cache_world =
  cw_cache :: version_cache
  cw_written :: write_history
  cw_published :: write_history
  cw_publications :: nat
  cw_scans :: "(fact_ref \<times> u64 \<times> write_history) set"

inductive cache_step :: "cache_world \<Rightarrow> cache_world \<Rightarrow> bool" where
  durable: "q \<noteq> 0 \<Longrightarrow> cache_step w (w\<lparr>cw_written := insert (IdentityOf r, v, q) (cw_written w)\<rparr>)"
| publish:
    "(IdentityOf r, v, q) \<in> cw_written w \<Longrightarrow> q \<noteq> 0 \<Longrightarrow> FactRef_Validate r = OK \<Longrightarrow>
     Suc (cw_publications w) < 2 ^ 64 \<Longrightarrow>
     cache_step w (w\<lparr>cw_cache := Publish_version r v q (cw_cache w),
       cw_published := insert (IdentityOf r, v, q) (cw_published w), cw_publications := Suc (cw_publications w)\<rparr>)"
| find: "cache_step w (w\<lparr>cw_cache := snd (Lookup (cw_cache w) r)\<rparr>)"
| scan_begin:
    "cache_step w (w\<lparr>cw_scans := insert (r, vc_generation (cw_cache w), cw_published w) (cw_scans w)\<rparr>)"
| scan_end:
    "(r, generation, published) \<in> cw_scans w \<Longrightarrow>
     chain_between (at_identity published (IdentityOf r)) (at_identity (cw_written w) (IdentityOf r)) bs \<Longrightarrow>
     \<forall>b \<in> set bs. snd b \<noteq> 0 \<Longrightarrow>
     cache_step w (w\<lparr>cw_cache := Prime r bs generation (cw_cache w)\<rparr>)"

inductive cache_reachable :: "nat \<Rightarrow> nat \<Rightarrow> write_history \<Rightarrow> cache_world \<Rightarrow> bool" for sizeof_slot max_bytes stored where
  opened:
    "cache_reachable sizeof_slot max_bytes stored
       \<lparr>cw_cache = VersionValidationCache sizeof_slot max_bytes, cw_written = stored, cw_published = stored,
        cw_publications = 0, cw_scans = {}\<rparr>"
| step:
    "cache_reachable sizeof_slot max_bytes stored w \<Longrightarrow> cache_step w w' \<Longrightarrow>
     cache_reachable sizeof_slot max_bytes stored w'"

inductive_cases cache_stepE: "cache_step w w'"

definition world_ok :: "cache_world \<Rightarrow> bool" where
  "world_ok w \<longleftrightarrow>
     cache_ok (cw_published w) (cw_written w) (cw_cache w) \<and>
     cw_publications w < 2 ^ 64 \<and> vc_generation (cw_cache w) = of_nat (cw_publications w) \<and>
     (\<forall>(r, generation, published) \<in> cw_scans w.
        \<exists>n \<le> cw_publications w. generation = of_nat n \<and> (n = cw_publications w \<longrightarrow> published = cw_published w))"

lemma world_ok_scans:
  assumes "world_ok w" "(r, generation, published) \<in> cw_scans w" "generation = vc_generation (cw_cache w)"
  shows "published = cw_published w"
proof -
  obtain n where n: "n \<le> cw_publications w" "generation = of_nat n" "n = cw_publications w \<longrightarrow> published = cw_published w"
    using assms(1,2) unfolding world_ok_def by blast
  have lt: "cw_publications w < 18446744073709551616" using assms(1) by (simp add: world_ok_def)
  have "(of_nat n :: u64) = of_nat (cw_publications w)" using assms(1,3) n(2) by (simp add: world_ok_def)
  then have "unat (of_nat n :: u64) = unat (of_nat (cw_publications w) :: u64)" by simp
  then have "n = cw_publications w"
    unfolding unat_of_nat_small(2) [OF lt] unat_of_nat_small(2) [OF le_less_trans [OF n(1) lt]] .
  with n(3) show ?thesis by simp
qed

lemma world_ok_parts:
  assumes "world_ok w"
  shows "cache_ok (cw_published w) (cw_written w) (cw_cache w)" "cw_publications w < 2 ^ 64"
    "vc_generation (cw_cache w) = of_nat (cw_publications w)"
    "(r, generation, published) \<in> cw_scans w \<Longrightarrow>
       \<exists>n \<le> cw_publications w. generation = of_nat n \<and> (n = cw_publications w \<longrightarrow> published = cw_published w)"
  using assms unfolding world_ok_def by blast+

lemma world_okI:
  assumes "cache_ok (cw_published w) (cw_written w) (cw_cache w)" "cw_publications w < 2 ^ 64"
    "vc_generation (cw_cache w) = of_nat (cw_publications w)"
    "\<And>r generation published. (r, generation, published) \<in> cw_scans w \<Longrightarrow>
       \<exists>n \<le> cw_publications w. generation = of_nat n \<and> (n = cw_publications w \<longrightarrow> published = cw_published w)"
  shows "world_ok w"
  using assms unfolding world_ok_def by blast

lemma cache_step_ok:
  assumes "cache_step w w'" "world_ok w"
  shows "world_ok w'"
  using assms(1)
proof (cases rule: cache_step.cases)
  note ok = world_ok_parts [OF assms(2)]
  case (durable q r v)
  have "cache_ok (cw_published w) (insert (IdentityOf r, v, q) (cw_written w)) (cw_cache w)"
    by (rule cache_ok_grow [OF ok(1)]) blast+
  with durable ok(2-) show ?thesis by (intro world_okI) simp_all
next
  note ok = world_ok_parts [OF assms(2)]
  case (publish r v q)
  note p = Publish_version_ok [OF ok(1) publish(2,3,4)]
  have "\<exists>n \<le> Suc (cw_publications w). generation = of_nat n \<and>
      (n = Suc (cw_publications w) \<longrightarrow> published = insert (IdentityOf r, v, q) (cw_published w))"
    if scan: "(r', generation, published) \<in> cw_scans w" for r' generation published
  proof -
    obtain n where "n \<le> cw_publications w" "generation = of_nat n" using ok(4) [OF scan] by blast
    then show ?thesis by (intro exI [of _ n]) simp
  qed
  with publish p ok(3) show ?thesis by (intro world_okI) (simp_all add: add.commute)
next
  note ok = world_ok_parts [OF assms(2)]
  case (find r)
  with Lookup_ok [OF ok(1), of r] ok(2-) show ?thesis by (intro world_okI) simp_all
next
  note ok = world_ok_parts [OF assms(2)]
  case (scan_begin r)
  show ?thesis
  proof (rule world_okI)
    fix r' generation published
    assume "(r', generation, published) \<in> cw_scans w'"
    then consider "(r', generation, published) \<in> cw_scans w"
      | "generation = vc_generation (cw_cache w)" "published = cw_published w"
      using scan_begin by auto
    then show "\<exists>n \<le> cw_publications w'. generation = of_nat n \<and>
        (n = cw_publications w' \<longrightarrow> published = cw_published w')"
    proof cases
      case 1
      with ok(4) scan_begin show ?thesis by simp
    next
      case 2
      with ok(3) scan_begin show ?thesis by auto
    qed
  qed (use scan_begin ok(1-3) in simp_all)
next
  note ok = world_ok_parts [OF assms(2)]
  case (scan_end r generation published bs)
  have "cache_ok (cw_published w) (cw_written w) (Prime r bs generation (cw_cache w)) \<and>
      vc_generation (Prime r bs generation (cw_cache w)) = vc_generation (cw_cache w)"
    by (rule Prime_ok [OF ok(1) scan_end(3,4)]) (rule world_ok_scans [OF assms(2) scan_end(2)])
  with scan_end(1) ok(2-) show ?thesis by (intro world_okI) simp_all
qed

lemma masked_index:
  assumes "0 < n" "n < 2 ^ 64"
  shows "unat ((h :: u64) AND (of_nat n - 1)) < n"
proof -
  have "of_nat n - 1 = (of_nat (n - 1) :: u64)" using assms(1) by (simp add: of_nat_diff)
  moreover have "n - 1 < 18446744073709551616" using assms(2) by simp
  ultimately have "unat (of_nat n - 1 :: u64) = n - 1" using unat_of_nat_small(2) by metis
  moreover have "unat (h AND (of_nat n - 1)) \<le> unat (of_nat n - 1 :: u64)"
    by (simp add: word_and_le1 flip: word_le_nat_alt)
  ultimately show ?thesis using assms(1) by linarith
qed

lemma SlotCapacity_bounds:
  "SlotCapacityForBytes sizeof_slot max_bytes * sizeof_slot \<le> max_bytes \<and>
   (SlotCapacityForBytes sizeof_slot max_bytes \<noteq> 0 \<longrightarrow> (\<exists>n > 0. SlotCapacityForBytes sizeof_slot max_bytes = 4 * n))"
proof (cases "max_bytes div sizeof_slot < 4")
  case True
  then show ?thesis by (simp add: SlotCapacityForBytes_def kSetWays_def)
next
  case False
  then obtain k where "double_up_to (max_bytes div sizeof_slot) 4 = 4 * 2 ^ k"
    "double_up_to (max_bytes div sizeof_slot) 4 \<le> max_bytes div sizeof_slot"
    using double_up_to_bounds [of 4 "max_bytes div sizeof_slot"] by auto
  with False show ?thesis
    by (auto simp: SlotCapacityForBytes_def kSetWays_def intro!: exI [of _ "2 ^ k"]
        intro: order_trans [OF mult_right_mono [of _ "max_bytes div sizeof_slot" sizeof_slot]])
qed

lemma opened_ok:
  assumes "max_bytes < 2 ^ 64"
  shows "cache_ok stored stored (VersionValidationCache sizeof_slot max_bytes)"
proof -
  let ?c = "VersionValidationCache sizeof_slot max_bytes"
  have len: "length (vc_slots ?c) = SlotCapacityForBytes sizeof_slot max_bytes"
    by (simp add: VersionValidationCache_def)
  have "k < length (vc_slots ?c)" if "k \<in> set (ways ?c i)" "vc_slots ?c \<noteq> []" for i k
  proof -
    have "SlotCapacityForBytes sizeof_slot max_bytes \<noteq> 0" using that(2) len by (metis length_0_conv)
    then obtain n where n: "0 < n" "SlotCapacityForBytes sizeof_slot max_bytes = 4 * n"
      using SlotCapacity_bounds by blast
    have "sizeof_slot \<noteq> 0"
    proof
      assume "sizeof_slot = 0"
      with n show False by (simp add: SlotCapacityForBytes_def kSetWays_def)
    qed
    then have "4 * n \<le> 4 * n * sizeof_slot" by simp
    also have "\<dots> \<le> max_bytes" using SlotCapacity_bounds [of sizeof_slot max_bytes] n(2) by simp
    finally have "4 * n \<le> max_bytes" .
    with assms have "n < 2 ^ 64" by linarith
    from masked_index [OF n(1) this, of "FactIdentityHash i"] that(1) show ?thesis
      by (auto simp: ways_def SetOffset_def len n(2) kSetWays_def)
  qed
  then show ?thesis
    by (auto simp: cache_ok_def slot_holds_def keys_unique_def len) (simp_all add: VersionValidationCache_def)
qed

lemma reachable_ok:
  "cache_reachable sizeof_slot max_bytes stored w \<Longrightarrow> max_bytes < 2 ^ 64 \<Longrightarrow> world_ok w"
proof (induction rule: cache_reachable.induct)
  case opened
  with opened_ok [of max_bytes stored sizeof_slot] show ?case
    by (simp add: world_ok_def) (simp add: VersionValidationCache_def)
next
  case (step w w')
  with cache_step_ok show ?case by blast
qed

text \<open>
  C22: the validation cache never serves a stale or invented chain. In every interleaving of
  durable writes, publications, lookups and scans of a cache of fewer than \<open>2 ^ 64\<close> bytes, a hit
  returns boundaries in descending
  order that were all written, covering every published write of the fact; once all writes of
  the fact are published the hit is exactly the fact's list of latest boundaries.
\<close>

theorem version_cache_exact:
  assumes "cache_reachable sizeof_slot max_bytes stored w" "max_bytes < 2 ^ 64"
    "fst (Lookup (cw_cache w) r) = Some bs"
  shows "chain_between (at_identity (cw_published w) (IdentityOf r)) (at_identity (cw_written w) (IdentityOf r)) bs \<and>
    (at_identity (cw_published w) (IdentityOf r) = at_identity (cw_written w) (IdentityOf r) \<longrightarrow>
      (\<forall>ys. chain_between (at_identity (cw_written w) (IdentityOf r)) (at_identity (cw_written w) (IdentityOf r)) ys \<longrightarrow> bs = ys))"
proof -
  have "cache_ok (cw_published w) (cw_written w) (cw_cache w)"
    using reachable_ok [OF assms(1,2)] by (simp add: world_ok_def)
  with Lookup_between assms(3) have
    "chain_between (at_identity (cw_published w) (IdentityOf r)) (at_identity (cw_written w) (IdentityOf r)) bs"
    by blast
  then show ?thesis using chain_between_unique by metis
qed

definition cached_vertex :: fact_ref where
  "cached_vertex = EntityFact_Vertex \<lparr>vr_part = 1, vr_vertex = 7\<rparr>"

lemma cached_vertex_valid: "FactRef_Validate cached_vertex = OK"
  by (simp add: cached_vertex_def EntityFact_valid)

lemma small_cache:
  "VersionValidationCache 1 4 =
     \<lparr>vc_slots = replicate 4 \<lparr>cs_key = (0, 0, 0, 0), cs_chain = [], cs_touch = 0, cs_occupied = False\<rparr>,
      vc_clock = 0, vc_resident = 0, vc_hits = 0, vc_misses = 0, vc_skipped = 0, vc_generation = 0\<rparr>"
  by (simp add: VersionValidationCache_def SlotCapacityForBytes_def kSetWays_def double_up_to.simps)

lemma small_cache_hit:
  "fst (Lookup (Prime cached_vertex [(10, 3)] 0 (VersionValidationCache 1 4)) cached_vertex) = Some [(10, 3)]"
  unfolding small_cache
  by (simp add: Lookup_def Prime_def cached_vertex_valid InsertBoundary_def kMaxBoundariesPerChain_def FindLocked_def
      ways_def SetOffset_def kSetWays_def SelectForPrimeLocked_def update_slot_def TouchLocked_def upt_rec)

theorem version_cache_exact_witness:
  "chain_between {(10, 3)} {(10, 3)} [(10, 3)] \<and>
   fst (Lookup (Prime cached_vertex [(10, 3)] 0 (VersionValidationCache 1 4)) cached_vertex) = Some [(10, 3)]"
proof -
  let ?H = "{(IdentityOf cached_vertex, 10, 3)} :: write_history"
  let ?w = "\<lparr>cw_cache = VersionValidationCache 1 4, cw_written = ?H, cw_published = ?H, cw_publications = 0,
    cw_scans = {(cached_vertex, 0, ?H)}\<rparr>"
  have at: "at_identity ?H (IdentityOf cached_vertex) = {(10, 3)}" by (auto simp: at_identity_def)
  have "vc_generation (VersionValidationCache 1 4) = 0" by (simp add: VersionValidationCache_def)
  then have begun: "cache_reachable 1 4 ?H ?w"
    using cache_reachable.step [OF cache_reachable.opened [of 1 4 ?H] cache_step.scan_begin [of _ cached_vertex]] by simp
  have "cache_step ?w (?w\<lparr>cw_cache := Prime cached_vertex [(10, 3)] 0 (cw_cache ?w)\<rparr>)"
    by (rule cache_step.scan_end [where published = ?H]) (simp_all add: at chain_between_def descending_def)
  note ended = cache_reachable.step [OF begun this]
  from version_cache_exact [OF ended, of cached_vertex "[(10, 3)]"] small_cache_hit show ?thesis by (simp add: at)
qed

end
