(* ===== verification/Write_Batch.thy ===== *)
theory Write_Batch
  imports Kv_Store
begin

text \<open>
  The representation of a write batch as the engine builds it
  (\<^verbatim>\<open>engine/rocksdb/db/write_batch.cc\<close> and \<^verbatim>\<open>util/coding.{h,cc}\<close>): a twelve-byte header, then
  one tagged record per operation with varint-prefixed key and value. Only the two operations
  the fact store uses are built; the column family numbers are an argument.
\<close>

section \<open>Varints and length-prefixed slices\<close>

definition EncodeVarint32 :: "u32 \<Rightarrow> bytes" where
  "EncodeVarint32 v =
     (if v < 2 ^ 7 then [ucast v]
      else if v < 2 ^ 14 then [ucast (v OR 128), ucast (drop_bit 7 v)]
      else if v < 2 ^ 21 then [ucast (v OR 128), ucast (drop_bit 7 v OR 128), ucast (drop_bit 14 v)]
      else if v < 2 ^ 28
      then [ucast (v OR 128), ucast (drop_bit 7 v OR 128), ucast (drop_bit 14 v OR 128), ucast (drop_bit 21 v)]
      else [ucast (v OR 128), ucast (drop_bit 7 v OR 128), ucast (drop_bit 14 v OR 128),
            ucast (drop_bit 21 v OR 128), ucast (drop_bit 28 v)])"

definition PutLengthPrefixedSlice :: "bytes \<Rightarrow> bytes" where
  "PutLengthPrefixedSlice s = EncodeVarint32 (of_nat (length s)) @ s"

section \<open>Batches\<close>

definition kHeader :: nat where
  "kHeader = 12"

definition put_column_family :: "u8 \<Rightarrow> u8 \<Rightarrow> u32 \<Rightarrow> bytes" where
  "put_column_family tag tag_cf cf = (if cf = 0 then [tag] else tag_cf # EncodeVarint32 cf)"

fun op_record :: "(column_family \<Rightarrow> u32) \<Rightarrow> write_op \<Rightarrow> bytes" where
  "op_record ids (Put cf k v) =
     put_column_family 1 5 (ids cf) @ PutLengthPrefixedSlice k @ PutLengthPrefixedSlice v"
| "op_record ids (Delete cf k) = put_column_family 0 4 (ids cf) @ PutLengthPrefixedSlice k"

definition GetDataSize :: "(column_family \<Rightarrow> u32) \<Rightarrow> write_batch \<Rightarrow> nat" where
  "GetDataSize ids ops = kHeader + length (concat (map (op_record ids) ops))"

section \<open>Sizes\<close>

lemma length_PutLengthPrefixedSlice [layout_simps]:
  "length (PutLengthPrefixedSlice s) = length (EncodeVarint32 (of_nat (length s))) + length s"
  by (simp add: PutLengthPrefixedSlice_def)

lemma length_put_column_family: "cf < 128 \<Longrightarrow> length (put_column_family tag tag_cf cf) \<le> 2"
  by (simp add: put_column_family_def EncodeVarint32_def)

lemma GetDataSize_append:
  "GetDataSize ids (a @ b) = GetDataSize ids a + length (concat (map (op_record ids) b))"
  by (simp add: GetDataSize_def)

end
