(* ===== verification/Commit_Publisher.thy ===== *)
theory Commit_Publisher
  imports Commit_Validation Sequence_Codec Write_Batch
begin

text \<open>
  What a committed transaction writes (\<^verbatim>\<open>commit_publisher.{h,cc}\<close>): the canonical fact set of
  a batch, its append to a write batch with all checks, and the hard size check. The lemmas
  give the exact operations of an accepted candidate and their effect on the store.
\<close>

section \<open>The canonical facts of a batch\<close>

definition identity_mutation :: "edge_identity \<Rightarrow> pending_mutation" where
  "identity_mutation i =
     \<lparr>mu_ref = identity_ref (ei_home i) (ei_edge i), mu_valid_from = 0, mu_operation = kPut,
      mu_schema_epoch = 0, mu_value = None\<rparr>"

fun visit_facts ::
  "(pending_mutation \<Rightarrow> edge_identity option \<Rightarrow> 's \<Rightarrow> status \<times> 's) \<Rightarrow>
   (pending_mutation \<times> edge_identity option) list \<Rightarrow> 's \<Rightarrow> status \<times> 's" where
  "visit_facts visitor [] s = (OK, s)"
| "visit_facts visitor ((m, i) # fs) s = and_then (visitor m i s) (visit_facts visitor fs)"

definition VisitCommitFacts ::
  "store_commit_batch \<Rightarrow> (pending_mutation \<Rightarrow> edge_identity option \<Rightarrow> 's \<Rightarrow> status \<times> 's) \<Rightarrow> 's \<Rightarrow> status \<times> 's" where
  "VisitCommitFacts b visitor s =
     and_then (visit_facts visitor (map (\<lambda>m. (m, None)) (cb_mutations b)) s)
       (visit_facts visitor (map (\<lambda>i. (identity_mutation i, Some i)) (cb_edge_identities b)))"

section \<open>Appending a candidate\<close>

record candidate_commit =
  cd_batch :: store_commit_batch
  cd_commit_seq :: commit_seq
  cd_fact_keys :: "bytes list"

fun check_candidate_keys :: "commit_seq \<Rightarrow> bytes set \<Rightarrow> bytes list \<Rightarrow> bytes set status_or" where
  "check_candidate_keys c seen [] = Inr seen"
| "check_candidate_keys c seen (k # ks) =
     (if length k \<noteq> kEncodedFactKeyBytes then InvalidArgument ''commit publisher'' ''invalid fact key''
      else case DecodeFactKey k of
             Inl _ \<Rightarrow> InvalidArgument ''commit publisher'' ''fact key commit sequence disagrees''
           | Inr d \<Rightarrow>
               if dk_commit_seq d \<noteq> c
               then InvalidArgument ''commit publisher'' ''fact key commit sequence disagrees''
               else if k \<in> seen then InvalidArgument ''commit publisher'' ''duplicate fact key''
               else check_candidate_keys c (insert k seen) ks)"

fun check_identity_keys :: "commit_seq \<Rightarrow> bytes set \<Rightarrow> bytes set \<Rightarrow> edge_identity list \<Rightarrow> status" where
  "check_identity_keys c mutation_keys identity_keys [] = OK"
| "check_identity_keys c mutation_keys identity_keys (i # is) =
     (let key = EncodeFactKey (identity_ref (ei_home i) (ei_edge i)) 0 c
      in if key = [] then InvalidArgument ''commit publisher'' ''invalid edge identity fact key''
         else if key \<in> mutation_keys \<or> key \<in> identity_keys
         then InvalidArgument ''commit publisher'' ''duplicate fact key''
         else check_identity_keys c mutation_keys (insert key identity_keys) is)"

record publish_state =
  ps_index :: nat
  ps_sequence_keys :: "bytes list"
  ps_batch :: write_batch

definition write_fact ::
  "candidate_commit \<Rightarrow> pending_mutation \<Rightarrow> edge_identity option \<Rightarrow> publish_state \<Rightarrow> status \<times> publish_state" where
  "write_fact cand m i s =
     (case EncodeFactValue ((event_of_mutation (cd_commit_seq cand) m)\<lparr>ev_identity := i\<rparr>) of
        Inl e \<Rightarrow> (Inl e, s)
      | Inr value \<Rightarrow>
          (case i of
             None \<Rightarrow>
               (OK, s\<lparr>ps_index := ps_index s + 1,
                     ps_batch := ps_batch s @ [Put FactsCf (cd_fact_keys cand ! ps_index s) value]\<rparr>)
           | Some _ \<Rightarrow>
               (let key = EncodeFactKey (mu_ref m) (mu_valid_from m) (cd_commit_seq cand)
                in (OK, s\<lparr>ps_sequence_keys := ps_sequence_keys s @ [key],
                          ps_batch := ps_batch s @ [Put FactsCf key value]\<rparr>))))"

fun put_routes :: "edge_identity list \<Rightarrow> write_batch \<Rightarrow> status \<times> write_batch" where
  "put_routes [] wb = (OK, wb)"
| "put_routes (i # is) wb =
     (case EncodeEdgeIdentityMetaKey (EdgeIdentity_edge_ref i) of
        Inl e \<Rightarrow> (Inl e, wb)
      | Inr key \<Rightarrow>
          (case EncodeEdgeIdentity i of
             Inl e \<Rightarrow> (Inl e, wb)
           | Inr value \<Rightarrow> put_routes is (wb @ [Put MetaCf key value])))"

definition put_outcome :: "candidate_commit \<Rightarrow> bytes list \<Rightarrow> write_batch \<Rightarrow> status \<times> write_batch" where
  "put_outcome cand sequence_keys wb =
     (let b = cd_batch cand; c = cd_commit_seq cand in
      case sbind (EncodeTransactionMetaKey (cb_txn_id b)) (\<lambda>tk.
           sbind (EncodeSequenceMetaKey c) (\<lambda>sk.
           sbind (EncodeTransactionOutcome
                    \<lparr>to_txn_id = cb_txn_id b, to_commit_seq = c, to_outcome = OutcomeCommitted\<rparr>) (\<lambda>ov.
           sbind (EncodeSequenceRecordV2
                    \<lparr>sr_commit_seq = c, sr_txn_id = cb_txn_id b, sr_system_hlc = cb_system_hlc b,
                     sr_fact_keys = sequence_keys\<rparr>) (\<lambda>sv.
             Inr [Put MetaCf tk ov, Put MetaCf sk sv])))) of
        Inl e \<Rightarrow> (Inl e, wb)
      | Inr ops \<Rightarrow> (OK, wb @ ops))"

definition AppendCandidateToWriteBatch :: "candidate_commit \<Rightarrow> write_batch \<Rightarrow> status \<times> write_batch" where
  "AppendCandidateToWriteBatch cand wb =
     (let b = cd_batch cand; c = cd_commit_seq cand in
      if length (cd_fact_keys cand) \<noteq> length (cb_mutations b)
      then (InvalidArgument ''commit publisher'' ''fact key count differs from mutations'', wb)
      else case check_candidate_keys c {} (cd_fact_keys cand) of
        Inl e \<Rightarrow> (Inl e, wb)
      | Inr mutation_keys \<Rightarrow>
          (case check_identity_keys c mutation_keys {} (cb_edge_identities b) of
             Inl e \<Rightarrow> (Inl e, wb)
           | Inr _ \<Rightarrow>
               (case VisitCommitFacts b (write_fact cand)
                       \<lparr>ps_index = 0, ps_sequence_keys = cd_fact_keys cand, ps_batch = wb\<rparr> of
                  (Inl e, s) \<Rightarrow> (Inl e, ps_batch s)
                | (Inr _, s) \<Rightarrow>
                    and_then (put_routes (cb_edge_identities b) (ps_batch s))
                      (put_outcome cand (ps_sequence_keys s)))))"

definition CheckCommittedBatchSize :: "(column_family \<Rightarrow> u32) \<Rightarrow> write_batch \<Rightarrow> u64 \<Rightarrow> status" where
  "CheckCommittedBatchSize ids wb max_bytes =
     (if GetDataSize ids wb > unat max_bytes
      then ResourceExhausted ''commit'' ''encoded batch exceeds hard byte limit''
      else OK)"

section \<open>The operations of an accepted candidate\<close>

definition identity_event_of :: "commit_seq \<Rightarrow> edge_identity \<Rightarrow> fact_event" where
  "identity_event_of c i = (event_of_mutation c (identity_mutation i))\<lparr>ev_identity := Some i\<rparr>"

definition commit_events :: "commit_seq \<Rightarrow> store_commit_batch \<Rightarrow> fact_event list" where
  "commit_events c b =
     map (event_of_mutation c) (cb_mutations b) @ map (identity_event_of c) (cb_edge_identities b)"

definition event_key :: "fact_event \<Rightarrow> bytes" where
  "event_key e = EncodeFactKey (ev_ref e) (ev_valid_from e) (ev_commit_seq e)"

definition put_event :: "fact_event \<Rightarrow> write_op" where
  "put_event e = Put FactsCf (event_key e) (event_record e)"

definition candidate_of :: "commit_seq \<Rightarrow> store_commit_batch \<Rightarrow> candidate_commit" where
  "candidate_of c b =
     \<lparr>cd_batch = b, cd_commit_seq = c,
      cd_fact_keys = map (\<lambda>m. EncodeFactKey (mu_ref m) (mu_valid_from m) c) (cb_mutations b)\<rparr>"

lemma visit_facts_append:
  "visit_facts v (xs @ ys) s = and_then (visit_facts v xs s) (visit_facts v ys)"
  by (induction xs arbitrary: s) (auto simp: and_then_def split: prod.splits sum.splits)

lemma EncodeFactValue_cases:
  obtains "storable e" "EncodeFactValue e = Inr (event_record e)"
  | err where "\<not> storable e" "EncodeFactValue e = Inl err"
proof (cases "EncodeFactValue e")
  case (Inl err)
  then have "\<not> storable e" using EncodeFactValue_iff [of e "event_record e"] by simp
  with Inl that show ?thesis by blast
next
  case (Inr s)
  with that show ?thesis by (simp add: EncodeFactValue_iff)
qed

lemma write_fact_mutation:
  "write_fact cand m None s = (OK, s') \<longleftrightarrow>
     storable (event_of_mutation (cd_commit_seq cand) m) \<and>
     s' = s\<lparr>ps_index := ps_index s + 1,
            ps_batch := ps_batch s @ [Put FactsCf (cd_fact_keys cand ! ps_index s)
              (event_record (event_of_mutation (cd_commit_seq cand) m))]\<rparr>"
proof -
  let ?e = "event_of_mutation (cd_commit_seq cand) m"
  have "?e\<lparr>ev_identity := None\<rparr> = ?e" by (simp add: event_of_mutation_def)
  then show ?thesis by (cases ?e rule: EncodeFactValue_cases) (auto simp: write_fact_def)
qed

lemma write_fact_identity:
  "write_fact cand (identity_mutation i) (Some i) s = (OK, s') \<longleftrightarrow>
     storable (identity_event_of (cd_commit_seq cand) i) \<and>
     s' = s\<lparr>ps_sequence_keys := ps_sequence_keys s @ [event_key (identity_event_of (cd_commit_seq cand) i)],
            ps_batch := ps_batch s @ [put_event (identity_event_of (cd_commit_seq cand) i)]\<rparr>"
proof -
  let ?e = "identity_event_of (cd_commit_seq cand) i"
  have "event_key ?e = EncodeFactKey (mu_ref (identity_mutation i)) (mu_valid_from (identity_mutation i)) (cd_commit_seq cand)"
    by (simp add: event_key_def identity_event_of_def event_of_mutation_def)
  then show ?thesis
    by (cases ?e rule: EncodeFactValue_cases)
      (auto simp: write_fact_def Let_def put_event_def simp flip: identity_event_of_def)
qed

lemma visit_mutations:
  "ps_index s + length ms = length (cd_fact_keys cand) \<Longrightarrow>
   visit_facts (write_fact cand) (map (\<lambda>m. (m, None)) ms) s = (OK, s') \<longleftrightarrow>
   (\<forall>m \<in> set ms. storable (event_of_mutation (cd_commit_seq cand) m)) \<and>
   s' = s\<lparr>ps_index := ps_index s + length ms,
          ps_batch := ps_batch s @ map (\<lambda>(k, m). Put FactsCf k (event_record (event_of_mutation (cd_commit_seq cand) m)))
            (zip (drop (ps_index s) (cd_fact_keys cand)) ms)\<rparr>"
proof (induction ms arbitrary: s)
  case (Cons m ms)
  have "drop (ps_index s) (cd_fact_keys cand) =
      cd_fact_keys cand ! ps_index s # drop (Suc (ps_index s)) (cd_fact_keys cand)"
    using Cons.prems by (simp add: Cons_nth_drop_Suc)
  with Cons show ?case by (auto simp: and_then_OK_iff write_fact_mutation)
qed auto

lemma visit_identities:
  "visit_facts (write_fact cand) (map (\<lambda>i. (identity_mutation i, Some i)) is) s = (OK, s') \<longleftrightarrow>
   (\<forall>i \<in> set is. storable (identity_event_of (cd_commit_seq cand) i)) \<and>
   s' = s\<lparr>ps_sequence_keys := ps_sequence_keys s @ map (\<lambda>i. event_key (identity_event_of (cd_commit_seq cand) i)) is,
          ps_batch := ps_batch s @ map (\<lambda>i. put_event (identity_event_of (cd_commit_seq cand) i)) is\<rparr>"
  by (induction "is" arbitrary: s) (auto simp: and_then_OK_iff write_fact_identity)

definition put_route :: "edge_identity \<Rightarrow> write_op" where
  "put_route i =
     Put MetaCf (ascii ''edge/'' @ AppendU32 (ei_home i) @ AppendU64 (ei_edge i))
       (frame (meta_kind_byte MetaEdgeIdentity) (identity_payload i))"

lemma put_routes_valid:
  "\<forall>i \<in> set is. EdgeIdentity_Validate i = OK \<Longrightarrow> put_routes is wb = (OK, wb @ map put_route is)"
proof (induction "is" arbitrary: wb)
  case (Cons i "is")
  then have "EncodeEdgeIdentity i = Inr (frame (meta_kind_byte MetaEdgeIdentity) (identity_payload i))"
    by (simp add: edge_identity_record.encode_iff kMaxPayloadBytes_def)
  moreover have "ei_edge i \<noteq> 0" using Cons.prems by (auto simp: EdgeIdentity_Validate_def split: if_splits)
  ultimately show ?case
    using Cons by (simp add: EncodeEdgeIdentityMetaKey_def EdgeIdentity_edge_ref_def put_route_def)
qed simp

definition outcome_ops :: "commit_seq \<Rightarrow> store_commit_batch \<Rightarrow> bytes \<Rightarrow> write_batch" where
  "outcome_ops c b sv =
     [Put MetaCf (ascii ''txn/'' @ AppendU64 (cb_txn_id b))
        (frame (meta_kind_byte MetaTransactionOutcome)
          (outcome_payload \<lparr>to_txn_id = cb_txn_id b, to_commit_seq = c, to_outcome = OutcomeCommitted\<rparr>)),
      Put MetaCf (ascii ''sequence/'' @ AppendU64 c) sv]"

definition commit_record :: "commit_seq \<Rightarrow> store_commit_batch \<Rightarrow> sequence_record" where
  "commit_record c b =
     \<lparr>sr_commit_seq = c, sr_txn_id = cb_txn_id b, sr_system_hlc = cb_system_hlc b,
      sr_fact_keys = map event_key (commit_events c b)\<rparr>"

lemma put_outcome_OK:
  assumes "cd_commit_seq cand \<noteq> 0" "cb_txn_id (cd_batch cand) \<noteq> 0"
  shows "put_outcome cand keys wb = (OK, wb') \<longleftrightarrow>
    (\<exists>sv. EncodeSequenceRecordV2
       \<lparr>sr_commit_seq = cd_commit_seq cand, sr_txn_id = cb_txn_id (cd_batch cand),
        sr_system_hlc = cb_system_hlc (cd_batch cand), sr_fact_keys = keys\<rparr> = Inr sv \<and>
       wb' = wb @ outcome_ops (cd_commit_seq cand) (cd_batch cand) sv)"
proof -
  let ?t = "\<lparr>to_txn_id = cb_txn_id (cd_batch cand), to_commit_seq = cd_commit_seq cand, to_outcome = OutcomeCommitted\<rparr>"
  have "length (outcome_payload ?t) \<le> kMaxPayloadBytes" by (simp add: outcome_payload_def kMaxPayloadBytes_def)
  then have "EncodeTransactionOutcome ?t = Inr (frame (meta_kind_byte MetaTransactionOutcome) (outcome_payload ?t))"
    using assms by (simp add: outcome_record.encode_iff TransactionOutcomeRecord_Validate_def)
  with assms show ?thesis
    by (auto simp: put_outcome_def Let_def EncodeTransactionMetaKey_def EncodeSequenceMetaKey_def outcome_ops_def
        sbind_def split: sum.splits)
qed

section \<open>Distinct keys\<close>

lemma mutation_not_identity:
  "PendingFactMutation_Validate m = OK \<Longrightarrow> ref_family (mu_ref m) \<noteq> kEdgeIdentity"
  using event_of_mutation_valid [of 1 m]
  by (auto simp: FactEvent_Validate_def event_of_mutation_def sbind_Inr_iff)

lemma identity_ref_valid:
  "EdgeIdentity_Validate i = OK \<Longrightarrow> FactRef_Validate (identity_ref (ei_home i) (ei_edge i)) = OK"
  by (auto simp: EdgeIdentity_Validate_def FactRef_Validate_OK_iff identity_ref_def IsKnownFamily_def
      IsStateFamily_def split: if_splits)

lemma commit_events_valid:
  assumes "batch_ok b" "c \<noteq> 0" "e \<in> set (commit_events c b)"
  shows "FactRef_Validate (ev_ref e) = OK" "ev_commit_seq e = c"
  using assms mutation_valid_ref identity_ref_valid
  by (auto simp: commit_events_def batch_ok_def event_of_mutation_def identity_event_of_def identity_mutation_def)

lemma event_key_inject:
  "FactRef_Validate (ev_ref e) = OK \<Longrightarrow> FactRef_Validate (ev_ref f) = OK \<Longrightarrow>
   ev_commit_seq e \<noteq> 0 \<Longrightarrow> ev_commit_seq f \<noteq> 0 \<Longrightarrow>
   event_key e = event_key f \<longleftrightarrow>
     ev_ref e = ev_ref f \<and> ev_valid_from e = ev_valid_from f \<and> ev_commit_seq e = ev_commit_seq f"
  by (simp add: event_key_def EncodeFactKey_eq_iff)

lemma commit_slots_distinct:
  assumes "batch_ok b"
  shows "distinct (map (\<lambda>e. (ev_ref e, ev_valid_from e)) (commit_events c b))"
proof -
  let ?id = "\<lambda>i. (identity_ref (ei_home i) (ei_edge i), 0) :: fact_ref \<times> valid_time"
  have "map (\<lambda>e. (ev_ref e, ev_valid_from e)) (commit_events c b) =
      map mutation_slot (cb_mutations b) @ map ?id (cb_edge_identities b)"
    by (simp add: commit_events_def event_of_mutation_def mutation_slot_def identity_event_of_def identity_mutation_def)
  moreover have "distinct (map ?id (cb_edge_identities b))"
  proof -
    have "distinct (map EdgeIdentity_edge_ref (cb_edge_identities b))" using assms by (simp add: batch_ok_def)
    then show ?thesis
      unfolding distinct_map inj_on_def by (simp add: EdgeIdentity_edge_ref_def identity_ref_def)
  qed
  moreover have "mutation_slot m \<noteq> ?id i" if "m \<in> set (cb_mutations b)" for m i
    using that assms mutation_not_identity [of m] by (auto simp: batch_ok_def mutation_slot_def identity_ref_def)
  then have "mutation_slot ` set (cb_mutations b) \<inter> ?id ` set (cb_edge_identities b) = {}" by blast
  ultimately show ?thesis using assms by (simp add: batch_ok_def)
qed

lemma commit_keys_distinct:
  assumes "batch_ok b" "c \<noteq> 0"
  shows "distinct (map event_key (commit_events c b))"
proof -
  have "inj_on event_key (set (commit_events c b))"
  proof (rule inj_onI)
    fix e f
    assume ef: "e \<in> set (commit_events c b)" "f \<in> set (commit_events c b)" "event_key e = event_key f"
    then have "ev_ref e = ev_ref f \<and> ev_valid_from e = ev_valid_from f"
      using commit_events_valid [OF assms] event_key_inject [of e f] assms(2) by metis
    then show "e = f"
      using commit_slots_distinct [OF assms(1), of c] ef(1,2) by (auto simp: distinct_map inj_on_def)
  qed
  moreover have "distinct (commit_events c b)"
    using commit_slots_distinct [OF assms(1), of c] by (simp add: distinct_map)
  ultimately show ?thesis by (simp add: distinct_map)
qed

lemma check_candidate_keys_ok:
  "\<forall>k \<in> set ks. \<exists>r v. FactRef_Validate r = OK \<and> k = EncodeFactKey r v c \<Longrightarrow> c \<noteq> 0 \<Longrightarrow>
   distinct ks \<Longrightarrow> set ks \<inter> seen = {} \<Longrightarrow> check_candidate_keys c seen ks = Inr (seen \<union> set ks)"
proof (induction ks arbitrary: seen)
  case (Cons k ks)
  obtain r v where k: "FactRef_Validate r = OK" "k = EncodeFactKey r v c" using Cons.prems(1) by auto
  then have "length k = kEncodedFactKeyBytes" "DecodeFactKey k = Inr \<lparr>dk_ref = r, dk_valid_from = v, dk_commit_seq = c\<rparr>"
    using Cons.prems(2) by (simp_all add: EncodeFactKey_layout DecodeFactKey_layout kEncodedFactKeyBytes_def)
  with Cons show ?case by auto
qed simp

lemma check_identity_keys_ok:
  "\<forall>i \<in> set is. EdgeIdentity_Validate i = OK \<Longrightarrow> c \<noteq> 0 \<Longrightarrow>
   distinct (map (\<lambda>i. event_key (identity_event_of c i)) is) \<Longrightarrow>
   (\<lambda>i. event_key (identity_event_of c i)) ` set is \<inter> (mk \<union> ik) = {} \<Longrightarrow>
   check_identity_keys c mk ik is = OK"
proof (induction "is" arbitrary: ik)
  case (Cons i "is")
  have key: "EncodeFactKey (identity_ref (ei_home i) (ei_edge i)) 0 c = event_key (identity_event_of c i)"
    by (simp add: event_key_def identity_event_of_def event_of_mutation_def identity_mutation_def)
  have "event_key (identity_event_of c i) \<noteq> []"
    unfolding key [symmetric] using Cons.prems identity_ref_valid [of i] by (simp add: EncodeFactKey_not_Nil)
  with Cons show ?case by (auto simp: key Let_def)
qed simp

lemma AppendCandidate_OK:
  assumes "batch_ok b" "c \<noteq> 0"
  shows "AppendCandidateToWriteBatch (candidate_of c b) wb = (OK, wb') \<longleftrightarrow>
    (\<forall>e \<in> set (commit_events c b). storable e) \<and>
    (\<exists>sv. EncodeSequenceRecordV2 (commit_record c b) = Inr sv \<and>
       wb' = wb @ map put_event (commit_events c b) @ map put_route (cb_edge_identities b) @ outcome_ops c b sv)"
proof -
  let ?cand = "candidate_of c b" let ?keys = "cd_fact_keys ?cand"
  let ?s = "\<lparr>ps_index = 0, ps_sequence_keys = ?keys, ps_batch = wb\<rparr>"
  have keys: "?keys = map (\<lambda>m. event_key (event_of_mutation c m)) (cb_mutations b)"
    by (simp add: candidate_of_def event_key_def event_of_mutation_def)
  have cand: "cd_batch ?cand = b" "cd_commit_seq ?cand = c" by (simp_all add: candidate_of_def)
  note d = commit_keys_distinct [OF assms]
  have "check_candidate_keys c {} ?keys = Inr ({} \<union> set ?keys)"
  proof (rule check_candidate_keys_ok)
    show "\<forall>k \<in> set ?keys. \<exists>r v. FactRef_Validate r = OK \<and> k = EncodeFactKey r v c"
      using assms(1) mutation_valid_ref by (fastforce simp: candidate_of_def batch_ok_def)
  qed (use assms d in \<open>simp_all add: keys commit_events_def comp_def\<close>)
  moreover have "check_identity_keys c (set ?keys) {} (cb_edge_identities b) = OK"
    using assms d by (intro check_identity_keys_ok) (auto simp: batch_ok_def keys commit_events_def comp_def)
  moreover have len: "length ?keys = length (cb_mutations b)" by (simp add: keys)
  ultimately have "AppendCandidateToWriteBatch ?cand wb = (OK, wb') \<longleftrightarrow>
      (\<exists>s. VisitCommitFacts b (write_fact ?cand) ?s = (OK, s) \<and>
         and_then (put_routes (cb_edge_identities b) (ps_batch s)) (put_outcome ?cand (ps_sequence_keys s)) = (OK, wb'))"
    by (auto simp: AppendCandidateToWriteBatch_def cand Let_def split: prod.splits sum.splits)
  moreover have "VisitCommitFacts b (write_fact ?cand) ?s = (OK, s) \<longleftrightarrow>
      (\<forall>e \<in> set (commit_events c b). storable e) \<and>
      s = \<lparr>ps_index = length (cb_mutations b), ps_sequence_keys = map event_key (commit_events c b),
           ps_batch = wb @ map put_event (commit_events c b)\<rparr>" for s
  proof -
    have zip: "map (\<lambda>(k, m). Put FactsCf k (event_record (event_of_mutation c m))) (zip ?keys (cb_mutations b)) =
        map (\<lambda>m. put_event (event_of_mutation c m)) (cb_mutations b)"
      unfolding keys by (simp add: zip_map1 put_event_def zip_same_conv_map)
    have "visit_facts (write_fact ?cand) (map (\<lambda>m. (m, None)) (cb_mutations b)) ?s = (OK, s1) \<longleftrightarrow>
        (\<forall>m \<in> set (cb_mutations b). storable (event_of_mutation c m)) \<and>
        s1 = \<lparr>ps_index = length (cb_mutations b), ps_sequence_keys = ?keys,
              ps_batch = wb @ map (\<lambda>m. put_event (event_of_mutation c m)) (cb_mutations b)\<rparr>" for s1
      using visit_mutations [of ?s "cb_mutations b" ?cand s1] len by (simp add: cand zip)
    then show ?thesis
      unfolding VisitCommitFacts_def and_then_OK_iff visit_identities cand
      by (auto simp: commit_events_def keys)
  qed
  moreover have "put_routes (cb_edge_identities b) w = (OK, w @ map put_route (cb_edge_identities b))" for w
    using assms(1) by (intro put_routes_valid) (simp add: batch_ok_def)
  moreover have "cb_txn_id b \<noteq> 0" using assms(1) by (simp add: batch_ok_def)
  ultimately show ?thesis
    using assms(2) by (auto simp: put_outcome_OK cand commit_record_def)
qed

section \<open>The effect on the store\<close>

lemma events_of_iff: "facts_ok m \<Longrightarrow> e \<in> set (events_of m) \<longleftrightarrow> storable e \<and> entry e \<in> set m"
proof -
  assume m: "facts_ok m"
  then have "set m = entry ` set (events_of m)" using facts_ok_events(1) [OF m] by (metis list.set_map)
  with facts_ok_events(2) [OF m] entry_inject show ?thesis by auto
qed

lemma put_event_storable: "storable e \<Longrightarrow> put_event e = Put FactsCf (fst (entry e)) (snd (entry e))"
  using storable_parts [of e] by (simp add: put_event_def event_key_def entry_def EncodeFactKey_layout)

lemma facts_ok_put:
  assumes "facts_ok m" "storable e"
  shows "facts_ok (kv_put (fst (entry e)) (snd (entry e)) m)"
    "set (events_of (kv_put (fst (entry e)) (snd (entry e)) m)) =
       insert e {f \<in> set (events_of m). fst (entry f) \<noteq> fst (entry e)}"
proof -
  have m: "kv_sorted m" using assms(1) by (simp add: facts_ok_def)
  show ok: "facts_ok (kv_put (fst (entry e)) (snd (entry e)) m)"
    using assms m by (auto simp: facts_ok_def kv_put_sorted set_kv_put)
  have "f = e" if "storable f" "entry f = (fst (entry e), snd (entry e))" for f
    using that assms(2) entry_inject by simp
  then show "set (events_of (kv_put (fst (entry e)) (snd (entry e)) m)) =
      insert e {f \<in> set (events_of m). fst (entry f) \<noteq> fst (entry e)}"
    using assms m by (auto simp: events_of_iff [OF ok] events_of_iff [OF assms(1)] set_kv_put)
qed

lemma apply_put_events:
  "\<forall>e \<in> set es. storable e \<Longrightarrow> facts_ok (db_facts db) \<Longrightarrow> distinct (map event_key es) \<Longrightarrow>
   \<forall>e \<in> set es. \<forall>f \<in> set (events_of (db_facts db)). event_key f \<noteq> event_key e \<Longrightarrow>
   facts_ok (db_facts (apply_batch (map put_event es) db)) \<and>
   set (events_of (db_facts (apply_batch (map put_event es) db))) = set (events_of (db_facts db)) \<union> set es \<and>
   db_meta (apply_batch (map put_event es) db) = db_meta db"
proof (induction es arbitrary: db)
  case (Cons e es)
  let ?m = "kv_put (fst (entry e)) (snd (entry e)) (db_facts db)"
  have key: "storable f \<Longrightarrow> fst (entry f) = event_key f" for f
    using storable_parts [of f] by (simp add: event_key_def entry_def EncodeFactKey_layout)
  note put = facts_ok_put [OF Cons.prems(2), of e]
  have e: "storable e" using Cons.prems(1) by simp
  have "{f \<in> set (events_of (db_facts db)). fst (entry f) \<noteq> fst (entry e)} = set (events_of (db_facts db))"
    using Cons.prems(4) facts_ok_events(2) [OF Cons.prems(2)] e key by auto
  then have ev: "set (events_of ?m) = insert e (set (events_of (db_facts db)))" using put(2) [OF e] by simp
  have step: "apply_batch (map put_event (e # es)) db = apply_batch (map put_event es) (db\<lparr>db_facts := ?m\<rparr>)"
    by (simp add: apply_batch_def put_event_storable [OF e])
  have "\<forall>e' \<in> set es. \<forall>f \<in> set (events_of (db_facts (db\<lparr>db_facts := ?m\<rparr>))). event_key f \<noteq> event_key e'"
    using Cons.prems(3,4) by (auto simp: ev image_iff)
  with Cons.IH [of "db\<lparr>db_facts := ?m\<rparr>"] Cons.prems put(1) [OF e] show ?case
    unfolding step by (simp add: ev)
qed (simp add: apply_batch_def)

lemma apply_batch_append: "apply_batch (a @ b) db = apply_batch b (apply_batch a db)"
  by (simp add: apply_batch_def)

lemma apply_meta_facts:
  "\<forall>op \<in> set ops. \<exists>k v. op = Put MetaCf k v \<Longrightarrow> db_facts (apply_batch ops db) = db_facts db"
  unfolding apply_batch_def by (induction ops arbitrary: db) auto

lemma put_routes_meta: "op \<in> set (map put_route is @ outcome_ops c b sv) \<Longrightarrow> \<exists>k v. op = Put MetaCf k v"
  by (auto simp: put_route_def outcome_ops_def)

lemma commit_effect:
  assumes b: "batch_ok b" "c \<noteq> 0" and facts: "facts_ok (db_facts db)"
    and fresh: "\<forall>e \<in> set (events_of (db_facts db)). ev_commit_seq e \<noteq> c"
    and wb: "AppendCandidateToWriteBatch (candidate_of c b) [] = (OK, wb)"
  shows "facts_ok (db_facts (apply_batch wb db))"
    "set (events_of (db_facts (apply_batch wb db))) = set (events_of (db_facts db)) \<union> set (commit_events c b)"
proof -
  let ?es = "commit_events c b"
  obtain sv where st: "\<forall>e \<in> set ?es. storable e"
    and wb': "wb = map put_event ?es @ map put_route (cb_edge_identities b) @ outcome_ops c b sv"
    using wb AppendCandidate_OK [OF b, of "[]" wb] by auto
  have "event_key f \<noteq> event_key e" if "e \<in> set ?es" "f \<in> set (events_of (db_facts db))" for e f
    using that fresh st facts_ok_events(2) [OF facts] storable_parts commit_events_valid(2) [OF b]
      event_key_inject [of f e] by metis
  then have "facts_ok (db_facts (apply_batch (map put_event ?es) db)) \<and>
      set (events_of (db_facts (apply_batch (map put_event ?es) db))) = set (events_of (db_facts db)) \<union> set ?es"
    using apply_put_events [OF st facts commit_keys_distinct [OF b]] by blast
  moreover have "db_facts (apply_batch wb db) = db_facts (apply_batch (map put_event ?es) db)"
    unfolding wb' apply_batch_append [of "map put_event ?es"]
    using put_routes_meta by (intro apply_meta_facts) blast
  ultimately show "facts_ok (db_facts (apply_batch wb db))"
    "set (events_of (db_facts (apply_batch wb db))) = set (events_of (db_facts db)) \<union> set ?es" by simp_all
qed

text \<open>The sequence record of a valid batch is always accepted, up to the record size limit.\<close>

lemma commit_record_encodes:
  assumes "batch_ok b" "c \<noteq> 0" "22 + 23 * length (commit_events c b) \<le> kMaxPayloadBytes"
  shows "\<exists>sv. EncodeSequenceRecordV2 (commit_record c b) = Inr sv"
proof -
  let ?fs = "map (\<lambda>e. (ev_ref e, ev_valid_from e)) (commit_events c b)"
  have keys: "map event_key (commit_events c b) = map (fact_key c) ?fs"
    using commit_events_valid(2) [OF assms(1,2)] by (simp add: fact_key_def event_key_def)
  have valid: "facts_valid ?fs"
    using commit_events_valid(1) [OF assms(1,2)] by (auto simp: facts_valid_def)
  have ne: "commit_events c b \<noteq> []" using assms(1) by (auto simp: commit_events_def batch_ok_def)
  have "check_keys c {} (map event_key (commit_events c b)) = OK"
    unfolding check_keys_facts [OF assms(2)] using keys valid commit_keys_distinct [OF assms(1,2)] by blast
  moreover have "length (commit_events c b) \<le> 4294967295" using assms(3) by (simp add: kMaxPayloadBytes_def)
  ultimately have v: "SequenceRecord_Validate (commit_record c b) = OK"
    using assms ne by (simp add: SequenceRecord_Validate_def commit_record_def batch_ok_def)
  have "stored_facts (frame (meta_kind_byte MetaSequenceV2) (sequence_payload (cb_txn_id b) (cb_system_hlc b) ?fs))
      (sr_txn_id (commit_record c b)) (sr_system_hlc (commit_record c b)) ?fs"
    using valid ne assms(3) by (simp add: stored_facts_def commit_record_def)
  moreover have "sr_fact_keys (commit_record c b) = map (fact_key (sr_commit_seq (commit_record c b))) ?fs"
    using keys by (simp only: commit_record_def sequence_record.simps)
  ultimately show ?thesis unfolding EncodeSequenceRecordV2_iff using v by blast
qed

lemma sample_edge_storable: "\<forall>e \<in> set (commit_events 6 sample_edge_batch). storable e"
  by (auto simp: commit_events_def sample_edge_batch_def event_of_mutation_def identity_event_of_def identity_mutation_def
      storable_def FactEvent_Validate_def FactRef_Validate_OK_iff EntityFact_Edge_def IsKnownFamily_def IsStateFamily_def
      IsKnownOperation_def IsProperty_def EdgeIdentity_Validate_def identity_ref_def event_payload_def
      EdgeIdentity_edge_ref_def ValidateMutation_OK_iff kMaxFactValuePayloadBytes_def)

lemma sample_edge_append: "\<exists>wb. AppendCandidateToWriteBatch (candidate_of 6 sample_edge_batch) [] = (OK, wb)"
proof -
  have ok: "batch_ok sample_edge_batch" using sample_edge_batch_valid by (simp add: batch_ok_iff)
  have "\<exists>sv. EncodeSequenceRecordV2 (commit_record 6 sample_edge_batch) = Inr sv"
    using ok by (rule commit_record_encodes) (simp_all add: commit_events_def sample_edge_batch_def kMaxPayloadBytes_def)
  with sample_edge_storable show ?thesis by (auto simp: AppendCandidate_OK [OF ok])
qed

end
