(* ===== verification/Group_Commit.thy ===== *)
theory Group_Commit
  imports Commit_Publisher Fact_Identity
begin

text \<open>
  The group-commit planner (\<^verbatim>\<open>group_commit_planner.{h,cc}\<close>) and the overlay of the epoch in
  flight (\<^verbatim>\<open>pending_version_overlay.{h,cc}\<close>): footprints, the conflict index, the fast-path
  test and the byte estimate of a committed batch. \<^verbatim>\<open>size_t\<close> is a 64-bit word with the
  saturating arithmetic of the source.
\<close>

section \<open>Footprints\<close>

type_synonym edge_identity_key = "u32 \<times> u64"

record commit_footprint =
  fp_txn_ids :: "u64 set"
  fp_writes :: "fact_identity set"
  fp_strict_reads :: "fact_identity set"
  fp_edge_ids :: "edge_identity_key set"

definition BuildCommitFootprint :: "store_commit_batch \<Rightarrow> commit_footprint" where
  "BuildCommitFootprint b =
     \<lparr>fp_txn_ids = {cb_txn_id b},
      fp_writes = set (map (\<lambda>m. IdentityOf (mu_ref m)) (cb_mutations b)),
      fp_strict_reads = set (map (\<lambda>d. IdentityOf (st_ref d)) (cb_strict_deps b)),
      fp_edge_ids = set (map (\<lambda>i. (ei_home i, ei_edge i)) (cb_edge_identities b))\<rparr>"

text \<open>The merge walk over two ordered sets, given as their sorted element lists.\<close>

fun disjoint_walk :: "'a::linorder list \<Rightarrow> 'a list \<Rightarrow> bool" where
  "disjoint_walk (x # xs) (y # ys) =
     (if x < y then disjoint_walk xs (y # ys) else if y < x then disjoint_walk (x # xs) ys else False)"
| "disjoint_walk _ _ = True"

definition Disjoint :: "'a::linorder set \<Rightarrow> 'a set \<Rightarrow> bool" where
  "Disjoint a b = disjoint_walk (sorted_list_of_set a) (sorted_list_of_set b)"

definition CanSharePhysicalWrite :: "commit_footprint \<Rightarrow> commit_footprint \<Rightarrow> bool" where
  "CanSharePhysicalWrite l r \<longleftrightarrow>
     Disjoint (fp_txn_ids l) (fp_txn_ids r) \<and> Disjoint (fp_writes l) (fp_writes r) \<and>
     Disjoint (fp_writes l) (fp_strict_reads r) \<and> Disjoint (fp_strict_reads l) (fp_writes r) \<and>
     Disjoint (fp_edge_ids l) (fp_edge_ids r)"

section \<open>The conflict index of an epoch\<close>

definition ContainsAny :: "'a set \<Rightarrow> 'a set \<Rightarrow> bool" where
  "ContainsAny vs index \<longleftrightarrow> (\<exists>v \<in> vs. v \<in> index)"

definition empty_index :: commit_footprint where
  "empty_index = \<lparr>fp_txn_ids = {}, fp_writes = {}, fp_strict_reads = {}, fp_edge_ids = {}\<rparr>"

definition CanInsert :: "commit_footprint \<Rightarrow> commit_footprint \<Rightarrow> bool" where
  "CanInsert index c \<longleftrightarrow>
     \<not> ContainsAny (fp_txn_ids c) (fp_txn_ids index) \<and> \<not> ContainsAny (fp_writes c) (fp_writes index) \<and>
     \<not> ContainsAny (fp_writes c) (fp_strict_reads index) \<and> \<not> ContainsAny (fp_strict_reads c) (fp_writes index) \<and>
     \<not> ContainsAny (fp_edge_ids c) (fp_edge_ids index)"

definition merge_footprint :: "commit_footprint \<Rightarrow> commit_footprint \<Rightarrow> commit_footprint" where
  "merge_footprint index c =
     \<lparr>fp_txn_ids = fp_txn_ids index \<union> fp_txn_ids c, fp_writes = fp_writes index \<union> fp_writes c,
      fp_strict_reads = fp_strict_reads index \<union> fp_strict_reads c,
      fp_edge_ids = fp_edge_ids index \<union> fp_edge_ids c\<rparr>"

definition Insert :: "commit_footprint \<Rightarrow> commit_footprint \<Rightarrow> bool \<times> commit_footprint" where
  "Insert index c = (if \<not> CanInsert index c then (False, index) else (True, merge_footprint index c))"

definition CanUseAppendFastPath :: "store_commit_batch \<Rightarrow> bool" where
  "CanUseAppendFastPath b \<longleftrightarrow>
     \<not> (cb_mutations b = [] \<or> cb_edge_identities b \<noteq> [] \<or> cb_strict_deps b \<noteq> []) \<and>
     list_all (\<lambda>m. \<not> (mu_operation m \<noteq> kPut \<or> ref_family (mu_ref m) = kEdgeState)) (cb_mutations b) \<and>
     list_all (\<lambda>d. \<not> (sw_predecessor d \<noteq> None \<or> sw_successor d \<noteq> None)) (cb_snapshot_deps b)"

section \<open>Group selection\<close>

text \<open>The selection loop of \<^verbatim>\<open>FactStore::CommitGrouped\<close>: requests in arrival order, up to the
  first one that differs in durability, exceeds the group size or conflicts.\<close>

record group_request =
  gr_batch :: store_commit_batch
  gr_prepared_key :: "bytes option"
  gr_sync :: bool

fun select_group :: "nat \<Rightarrow> bool \<Rightarrow> commit_footprint \<Rightarrow> nat \<Rightarrow> group_request list \<Rightarrow> group_request list" where
  "select_group max_size sync index n [] = []"
| "select_group max_size sync index n (r # rs) =
     (if gr_sync r = sync \<and> n < max_size
      then (case Insert index (BuildCommitFootprint (gr_batch r)) of
              (True, index') \<Rightarrow> r # select_group max_size sync index' (n + 1) rs
            | (False, _) \<Rightarrow> [])
      else [])"

section \<open>The overlay of pending versions\<close>

record overlay_entry =
  oe_identity :: fact_identity
  oe_valid_from :: valid_time
  oe_operation :: fact_operation
  oe_schema_epoch :: u32
  oe_value_type :: "physical_type option"

record pending_overlay =
  po_footprint :: commit_footprint
  po_entries :: "overlay_entry list"

definition overlay_entries :: "store_commit_batch \<Rightarrow> overlay_entry list" where
  "overlay_entries b =
     map (\<lambda>m. \<lparr>oe_identity = IdentityOf (mu_ref m), oe_valid_from = mu_valid_from m,
                oe_operation = mu_operation m, oe_schema_epoch = mu_schema_epoch m,
                oe_value_type = map_option val_type (mu_value m)\<rparr>) (cb_mutations b)"

definition FromBatches :: "store_commit_batch option list \<Rightarrow> pending_overlay" where
  "FromBatches bs =
     fold (\<lambda>b overlay. case b of
             None \<Rightarrow> overlay
           | Some b \<Rightarrow> \<lparr>po_footprint = merge_footprint (po_footprint overlay) (BuildCommitFootprint b),
                        po_entries = po_entries overlay @ overlay_entries b\<rparr>)
       bs \<lparr>po_footprint = empty_index, po_entries = []\<rparr>"

definition FromBatch :: "store_commit_batch \<Rightarrow> pending_overlay" where
  "FromBatch b = FromBatches [Some b]"

definition Intersects :: "'a set \<Rightarrow> 'a set \<Rightarrow> bool" where
  "Intersects accumulated candidate \<longleftrightarrow> (\<exists>v \<in> candidate. v \<in> accumulated)"

definition Conflicts :: "pending_overlay \<Rightarrow> commit_footprint \<Rightarrow> bool" where
  "Conflicts overlay c \<longleftrightarrow>
     (let o' = po_footprint overlay in
      Intersects (fp_txn_ids o') (fp_txn_ids c) \<or> Intersects (fp_writes o') (fp_writes c) \<or>
      Intersects (fp_writes o') (fp_strict_reads c) \<or> Intersects (fp_strict_reads o') (fp_writes c) \<or>
      Intersects (fp_edge_ids o') (fp_edge_ids c))"

definition overlay_size :: "pending_overlay \<Rightarrow> nat" where
  "overlay_size overlay = length (po_entries overlay) + card (fp_edge_ids (po_footprint overlay))"

section \<open>Byte estimates\<close>

definition SaturatingAddProduct :: "u64 \<Rightarrow> u64 \<Rightarrow> u64 \<Rightarrow> u64" where
  "SaturatingAddProduct amount count acc =
     (if amount \<noteq> 0 \<and> count > - 1 div amount then - 1 else SaturatingAdd (amount * count) acc)"

definition Varint32Bytes :: "u64 \<Rightarrow> u64" where
  "Varint32Bytes v =
     (if v < 2 ^ 7 then 1 else if v < 2 ^ 14 then 2 else if v < 2 ^ 21 then 3 else if v < 2 ^ 28 then 4 else 5)"

definition WriteBatchPutBytes :: "u64 \<Rightarrow> u64 \<Rightarrow> u64" where
  "WriteBatchPutBytes key_bytes value_bytes =
     SaturatingAdd value_bytes (SaturatingAdd (Varint32Bytes value_bytes)
       (SaturatingAdd key_bytes (SaturatingAdd (Varint32Bytes key_bytes) 2)))"

definition EncodedFactValueBytes :: "u64 \<Rightarrow> u64" where
  "EncodedFactValueBytes payload_bytes = 11 + payload_bytes + 4"

definition EncodedMetaRecordValueBytes :: "u64 \<Rightarrow> u64" where
  "EncodedMetaRecordValueBytes payload_bytes = 6 + payload_bytes + 4"

fun ValuePayloadBytes :: "val \<Rightarrow> u64" where
  "ValuePayloadBytes (VBool _) = 1"
| "ValuePayloadBytes (VInt32 _) = 4"
| "ValuePayloadBytes (VFloat32 _) = 4"
| "ValuePayloadBytes (VInt64 _) = 8"
| "ValuePayloadBytes (VFloat64 _) = 8"
| "ValuePayloadBytes (VTimestamp _) = 8"
| "ValuePayloadBytes (VString s) = of_nat (length s)"
| "ValuePayloadBytes (VBinary s) = of_nat (length s)"

definition AddFactEventBytes :: "fact_event \<Rightarrow> u64 \<Rightarrow> u64" where
  "AddFactEventBytes e acc =
     (case ev_value e of
        None \<Rightarrow> SaturatingAdd 64 acc
      | Some v \<Rightarrow> SaturatingAdd (ValuePayloadBytes v) (SaturatingAdd 64 acc))"

definition EstimateSequenceRecordBytes :: "u64 \<Rightarrow> u64" where
  "EstimateSequenceRecordBytes fact_key_count =
     SaturatingAdd 4 (SaturatingAddProduct 23 fact_key_count (SaturatingAdd 22 6))"

definition add_mutation_bytes :: "pending_mutation \<Rightarrow> u64 \<Rightarrow> u64" where
  "add_mutation_bytes m acc =
     (let payload_bytes = (case mu_value m of Some v \<Rightarrow> ValuePayloadBytes v | None \<Rightarrow> 0)
      in SaturatingAdd (WriteBatchPutBytes 32 (EncodedFactValueBytes payload_bytes)) acc)"

definition add_identity_bytes :: "edge_identity \<Rightarrow> u64 \<Rightarrow> u64" where
  "add_identity_bytes i acc =
     SaturatingAdd (WriteBatchPutBytes 17 (EncodedMetaRecordValueBytes 44))
       (SaturatingAdd (WriteBatchPutBytes 32 (EncodedFactValueBytes 44)) acc)"

definition add_strict_bytes :: "strict_read_dependency \<Rightarrow> u64 \<Rightarrow> u64" where
  "add_strict_bytes d acc =
     (case st_observed d of
        None \<Rightarrow> SaturatingAdd 128 acc
      | Some e \<Rightarrow> AddFactEventBytes e (SaturatingAdd 128 acc))"

definition EstimateCommitBatchBytes :: "store_commit_batch \<Rightarrow> u64" where
  "EstimateCommitBatchBytes b =
     (let fact_key_count = of_nat (length (cb_mutations b)) + of_nat (length (cb_edge_identities b));
          acc = SaturatingAdd (WriteBatchPutBytes 12 (EncodedMetaRecordValueBytes 17)) 12;
          acc = SaturatingAdd (WriteBatchPutBytes 17 (EstimateSequenceRecordBytes fact_key_count)) acc;
          acc = SaturatingAdd (WriteBatchPutBytes 17 (EncodedMetaRecordValueBytes 8)) acc;
          acc = fold add_mutation_bytes (cb_mutations b) acc;
          acc = fold add_identity_bytes (cb_edge_identities b) acc;
          acc = fold add_strict_bytes (cb_strict_deps b) acc;
          margin = SaturatingAdd 256 (acc div 256)
      in SaturatingAdd margin acc)"

section \<open>Independence\<close>

lemma disjoint_walk_iff:
  "sorted_wrt (<) xs \<Longrightarrow> sorted_wrt (<) ys \<Longrightarrow> disjoint_walk xs ys \<longleftrightarrow> set xs \<inter> set ys = {}"
proof (induction xs ys rule: disjoint_walk.induct)
  case (1 x xs y ys)
  consider "x < y" | "y < x" | "x = y" by fastforce
  then show ?case using 1 by cases (auto dest: order_less_trans)
qed auto

lemma Disjoint_iff: "finite a \<Longrightarrow> finite b \<Longrightarrow> Disjoint a b \<longleftrightarrow> a \<inter> b = {}"
  by (simp add: Disjoint_def disjoint_walk_iff)

definition finite_footprint :: "commit_footprint \<Rightarrow> bool" where
  "finite_footprint f \<longleftrightarrow>
     finite (fp_txn_ids f) \<and> finite (fp_writes f) \<and> finite (fp_strict_reads f) \<and> finite (fp_edge_ids f)"

lemma finite_BuildCommitFootprint [simp]: "finite_footprint (BuildCommitFootprint b)"
  by (simp add: finite_footprint_def BuildCommitFootprint_def)

text \<open>The relation both the planner and the overlay decide: no common transaction, write or
  new edge, and no write of one that the other reads strictly.\<close>

definition independent :: "commit_footprint \<Rightarrow> commit_footprint \<Rightarrow> bool" where
  "independent l r \<longleftrightarrow>
     fp_txn_ids l \<inter> fp_txn_ids r = {} \<and> fp_writes l \<inter> fp_writes r = {} \<and>
     fp_writes l \<inter> fp_strict_reads r = {} \<and> fp_strict_reads l \<inter> fp_writes r = {} \<and>
     fp_edge_ids l \<inter> fp_edge_ids r = {}"

lemma CanSharePhysicalWrite_iff:
  "finite_footprint l \<Longrightarrow> finite_footprint r \<Longrightarrow> CanSharePhysicalWrite l r \<longleftrightarrow> independent l r"
  by (simp add: CanSharePhysicalWrite_def finite_footprint_def Disjoint_iff independent_def)

lemma CanInsert_iff: "CanInsert index c \<longleftrightarrow> independent index c"
  by (auto simp: CanInsert_def ContainsAny_def independent_def)

lemma Conflicts_iff: "Conflicts overlay c \<longleftrightarrow> \<not> independent (po_footprint overlay) c"
  by (auto simp: Conflicts_def Intersects_def independent_def Let_def)

lemma independent_empty [simp]: "independent empty_index c"
  by (simp add: independent_def empty_index_def)

lemma independent_merge [simp]: "independent (merge_footprint a b) c \<longleftrightarrow> independent a c \<and> independent b c"
  by (auto simp: independent_def merge_footprint_def)

lemma independent_sym: "independent a b \<longleftrightarrow> independent b a"
  by (auto simp: independent_def)

lemma independent_merge_list:
  "independent (fold (\<lambda>f index. merge_footprint index f) fs index) c \<longleftrightarrow>
     independent index c \<and> (\<forall>f \<in> set fs. independent f c)"
  by (induction fs arbitrary: index) auto

lemma select_group_Cons:
  "select_group max_size sync index n (r # rs) =
     (if gr_sync r = sync \<and> n < max_size \<and> independent index (BuildCommitFootprint (gr_batch r))
      then r # select_group max_size sync (merge_footprint index (BuildCommitFootprint (gr_batch r))) (Suc n) rs
      else [])"
  by (simp add: Insert_def CanInsert_iff)

lemmas select_group_rec = select_group.simps(1) select_group_Cons

lemma select_group_independent:
  "sorted_wrt independent (map (\<lambda>r. BuildCommitFootprint (gr_batch r)) (select_group max_size sync index n rs)) \<and>
   (\<forall>r \<in> set (select_group max_size sync index n rs).
      gr_sync r = sync \<and> independent index (BuildCommitFootprint (gr_batch r)))"
proof (induction rs arbitrary: index n)
  case (Cons r rs)
  show ?case using Cons [of "merge_footprint index (BuildCommitFootprint (gr_batch r))" "Suc n"]
    by (cases "gr_sync r = sync \<and> n < max_size \<and> independent index (BuildCommitFootprint (gr_batch r))")
      (auto simp: select_group_rec simp del: select_group.simps)
qed simp

lemma select_group_size: "length (select_group max_size sync index n rs) \<le> max_size - n"
proof (induction rs arbitrary: index n)
  case (Cons r rs)
  show ?case using Cons [of "merge_footprint index (BuildCommitFootprint (gr_batch r))" "Suc n"]
    by (auto simp: select_group_rec simp del: select_group.simps)
qed simp

lemma select_maximal:
  "\<exists>rest. rs = select_group max_size sync index n rs @ rest \<and>
     (case rest of
        [] \<Rightarrow> True
      | r # _ \<Rightarrow> gr_sync r = sync \<and> n + length (select_group max_size sync index n rs) < max_size \<longrightarrow>
          \<not> (independent index (BuildCommitFootprint (gr_batch r)) \<and>
             (\<forall>r' \<in> set (select_group max_size sync index n rs).
                independent (BuildCommitFootprint (gr_batch r')) (BuildCommitFootprint (gr_batch r)))))"
proof (induction rs arbitrary: index n)
  case (Cons r rs)
  let ?index = "merge_footprint index (BuildCommitFootprint (gr_batch r))"
  show ?case
  proof (cases "gr_sync r = sync \<and> n < max_size \<and> independent index (BuildCommitFootprint (gr_batch r))")
    case True
    then have g: "select_group max_size sync index n (r # rs) = r # select_group max_size sync ?index (Suc n) rs"
      by (simp add: select_group_rec del: select_group.simps)
    from Cons [of ?index "Suc n"] show ?thesis unfolding g by (auto split: list.splits)
  next
    case False
    then show ?thesis by (auto simp: select_group_rec simp del: select_group.simps)
  qed
qed simp

lemma FromBatches_snoc:
  "FromBatches (bs @ [b]) =
     (case b of
        None \<Rightarrow> FromBatches bs
      | Some b \<Rightarrow> \<lparr>po_footprint = merge_footprint (po_footprint (FromBatches bs)) (BuildCommitFootprint b),
                   po_entries = po_entries (FromBatches bs) @ overlay_entries b\<rparr>)"
  unfolding FromBatches_def by (simp split: option.split)

lemma overlay_independent:
  "independent (po_footprint (FromBatches bs)) c \<longleftrightarrow>
     (\<forall>b. Some b \<in> set bs \<longrightarrow> independent (BuildCommitFootprint b) c)"
proof (induction bs rule: rev_induct)
  case Nil
  then show ?case by (simp add: FromBatches_def)
next
  case (snoc b bs)
  then show ?case by (auto simp: FromBatches_snoc split: option.split)
qed

section \<open>The estimate bounds the encoded batch\<close>

abbreviation max_size_t :: nat where
  "max_size_t \<equiv> 2 ^ 64 - 1"

lemma length_EncodeVarint32:
  "n < 2 ^ 32 \<Longrightarrow> length (EncodeVarint32 (of_nat n)) = unat (Varint32Bytes (of_nat n))"
  by (simp add: EncodeVarint32_def Varint32Bytes_def word_less_nat_alt unat_of_nat_small)

lemma Varint32Bytes_le: "unat (Varint32Bytes v) \<le> 5"
  by (simp add: Varint32Bytes_def)

lemma unat_WriteBatchPutBytes:
  "unat k < 2 ^ 32 \<Longrightarrow> unat v < 2 ^ 32 \<Longrightarrow>
   unat (WriteBatchPutBytes k v) = 2 + unat (Varint32Bytes k) + unat k + unat (Varint32Bytes v) + unat v"
  using Varint32Bytes_le [of k] Varint32Bytes_le [of v]
  by (simp add: WriteBatchPutBytes_def unat_SaturatingAdd)

lemma length_put_record:
  assumes "ids cf < 128" "length k < 2 ^ 32" "length v < 2 ^ 32"
  shows "length (op_record ids (Put cf k v)) \<le> unat (WriteBatchPutBytes (of_nat (length k)) (of_nat (length v)))"
proof -
  have u: "unat (of_nat n :: u64) = n" if "n < 2 ^ 32" for n
    using that by (simp add: unat_of_nat_small)
  have "length (put_column_family 1 5 (ids cf)) \<le> 2" using assms(1) by (rule length_put_column_family)
  then show ?thesis
    using assms u [of "length k"] u [of "length v"]
    by (simp add: length_PutLengthPrefixedSlice length_EncodeVarint32 unat_WriteBatchPutBytes)
qed

lemma fold_at_least:
  "(\<And>x acc. min max_size_t (unat acc + h x) \<le> unat (g x acc)) \<Longrightarrow>
   min max_size_t (unat t + sum_list (map h xs)) \<le> unat (fold g xs t :: u64)"
proof (induction xs arbitrary: t)
  case (Cons x xs)
  from Cons.IH [OF Cons.prems, of "g x t"] Cons.prems [of t x] show ?case by simp
qed simp

lemma length_value_payload: "length (value_payload v) < 2 ^ 64 \<Longrightarrow> length (value_payload v) = unat (ValuePayloadBytes v)"
  by (cases v) (simp_all add: unat_of_nat_small)

definition mutation_cost :: "pending_mutation \<Rightarrow> nat" where
  "mutation_cost m =
     unat (WriteBatchPutBytes 32 (EncodedFactValueBytes
       (case mu_value m of Some v \<Rightarrow> ValuePayloadBytes v | None \<Rightarrow> 0)))"

definition identity_cost :: nat where
  "identity_cost =
     unat (WriteBatchPutBytes 32 (EncodedFactValueBytes 44)) + unat (WriteBatchPutBytes 17 (EncodedMetaRecordValueBytes 44))"

definition fixed_cost :: "store_commit_batch \<Rightarrow> nat" where
  "fixed_cost b =
     12 + unat (WriteBatchPutBytes 12 (EncodedMetaRecordValueBytes 17)) +
     unat (WriteBatchPutBytes 17 (EstimateSequenceRecordBytes
       (of_nat (length (cb_mutations b)) + of_nat (length (cb_edge_identities b))))) +
     unat (WriteBatchPutBytes 17 (EncodedMetaRecordValueBytes 8))"

definition batch_cost :: "store_commit_batch \<Rightarrow> nat" where
  "batch_cost b =
     fixed_cost b + sum_list (map mutation_cost (cb_mutations b)) + length (cb_edge_identities b) * identity_cost"

lemma add_bytes_at_least:
  "min max_size_t (unat acc + mutation_cost m) \<le> unat (add_mutation_bytes m acc)"
  "min max_size_t (unat acc + identity_cost) \<le> unat (add_identity_bytes i acc)"
  "min max_size_t (unat acc + 0) \<le> unat (add_strict_bytes d acc)"
proof -
  have "acc \<le> add_strict_bytes d acc"
    by (auto simp: add_strict_bytes_def AddFactEventBytes_def split: option.split
        intro!: order_trans [OF _ SaturatingAdd_ge(1)])
  then show "min max_size_t (unat acc + 0) \<le> unat (add_strict_bytes d acc)"
    by (simp add: word_le_nat_alt)
qed (auto simp: add_mutation_bytes_def mutation_cost_def add_identity_bytes_def identity_cost_def
    unat_SaturatingAdd Let_def)

lemma estimate_at_least: "min max_size_t (batch_cost b + 256) \<le> unat (EstimateCommitBatchBytes b)"
proof -
  let ?n = "of_nat (length (cb_mutations b)) + of_nat (length (cb_edge_identities b)) :: u64"
  define t0 where "t0 = SaturatingAdd (WriteBatchPutBytes 17 (EncodedMetaRecordValueBytes 8))
    (SaturatingAdd (WriteBatchPutBytes 17 (EstimateSequenceRecordBytes ?n))
      (SaturatingAdd (WriteBatchPutBytes 12 (EncodedMetaRecordValueBytes 17)) 12))"
  define t1 where "t1 = fold add_mutation_bytes (cb_mutations b) t0"
  define t2 where "t2 = fold add_identity_bytes (cb_edge_identities b) t1"
  define t3 where "t3 = fold add_strict_bytes (cb_strict_deps b) t2"
  have est: "EstimateCommitBatchBytes b = SaturatingAdd (SaturatingAdd 256 (t3 div 256)) t3"
    by (simp add: EstimateCommitBatchBytes_def Let_def t0_def t1_def t2_def t3_def)
  have "min max_size_t (fixed_cost b) \<le> unat t0"
    by (simp add: t0_def fixed_cost_def unat_SaturatingAdd)
  moreover have "min max_size_t (unat t0 + sum_list (map mutation_cost (cb_mutations b))) \<le> unat t1"
    unfolding t1_def by (rule fold_at_least) (rule add_bytes_at_least)
  moreover have "min max_size_t (unat t1 + sum_list (map (\<lambda>_. identity_cost) (cb_edge_identities b))) \<le> unat t2"
    unfolding t2_def by (rule fold_at_least) (rule add_bytes_at_least)
  moreover have "min max_size_t (unat t2 + sum_list (map (\<lambda>_. 0) (cb_strict_deps b))) \<le> unat t3"
    unfolding t3_def by (rule fold_at_least) (rule add_bytes_at_least)
  moreover have "min max_size_t (unat t3 + 256) \<le> unat (EstimateCommitBatchBytes b)"
    unfolding est by (simp add: unat_SaturatingAdd)
  ultimately show ?thesis by (simp add: batch_cost_def sum_list_triv)
qed

lemma length_event_record_exact: "length (event_record e) = 15 + length (event_payload e)"
  by (simp add: event_record_def value_body_def)

lemma length_event_key: "FactRef_Validate (ev_ref e) = OK \<Longrightarrow> ev_commit_seq e \<noteq> 0 \<Longrightarrow> length (event_key e) = 32"
  by (simp add: event_key_def EncodeFactKey_layout kEncodedFactKeyBytes_def)

lemma EncodedFactValueBytes_exact:
  "unat p < 2 ^ 32 \<Longrightarrow> EncodedFactValueBytes p = of_nat (15 + unat p)"
  by (simp add: EncodedFactValueBytes_def)

lemma mutation_record_size:
  assumes "ids FactsCf < 128" "storable (event_of_mutation c m)"
  shows "length (op_record ids (put_event (event_of_mutation c m))) \<le> mutation_cost m"
proof -
  let ?e = "event_of_mutation c m"
  let ?p = "case mu_value m of Some v \<Rightarrow> ValuePayloadBytes v | None \<Rightarrow> 0"
  have small: "length (event_payload ?e) \<le> 2 ^ 24"
    using assms(2) by (simp add: storable_def kMaxFactValuePayloadBytes_def)
  have p: "length (event_payload ?e) = unat ?p"
    using small length_value_payload
    by (simp add: event_payload_def event_of_mutation_def split: option.splits)
  have "length (event_key ?e) = 32" using storable_parts [OF assms(2)] by (simp add: length_event_key)
  moreover have "length (event_record ?e) = 15 + unat ?p" by (simp add: length_event_record_exact p)
  moreover have "unat ?p \<le> 2 ^ 24" using small p by simp
  ultimately show ?thesis
    using length_put_record [of ids FactsCf "event_key ?e" "event_record ?e", OF assms(1)]
    by (simp add: mutation_cost_def put_event_def EncodedFactValueBytes_exact del: op_record.simps)
qed

lemma identity_record_size:
  assumes "ids FactsCf < 128" "ids MetaCf < 128" "storable (identity_event_of c i)"
  shows "length (op_record ids (put_event (identity_event_of c i))) + length (op_record ids (put_route i)) \<le> identity_cost"
proof -
  let ?e = "identity_event_of c i"
  have "length (event_key ?e) = 32" using storable_parts [OF assms(3)] by (simp add: length_event_key)
  moreover have "length (event_record ?e) = 59"
    by (simp add: length_event_record_exact event_payload_def identity_event_of_def)
  ultimately have "length (op_record ids (put_event ?e)) \<le> unat (WriteBatchPutBytes 32 (EncodedFactValueBytes 44))"
    using length_put_record [of ids FactsCf "event_key ?e" "event_record ?e", OF assms(1)]
    by (simp add: put_event_def EncodedFactValueBytes_def del: op_record.simps)
  moreover have "length (op_record ids (put_route i)) \<le> unat (WriteBatchPutBytes 17 (EncodedMetaRecordValueBytes 44))"
    using length_put_record [of ids MetaCf "ascii ''edge/'' @ AppendU32 (ei_home i) @ AppendU64 (ei_edge i)"
        "frame (meta_kind_byte MetaEdgeIdentity) (identity_payload i)", OF assms(2)]
    by (simp add: put_route_def EncodedMetaRecordValueBytes_def del: op_record.simps)
  ultimately show ?thesis by (simp add: identity_cost_def)
qed

lemma sequence_value_size:
  assumes "EncodeSequenceRecordV2 (commit_record c b) = Inr sv"
  shows "length sv = 32 + 23 * (length (cb_mutations b) + length (cb_edge_identities b))" "length sv \<le> 2 ^ 24 + 10"
proof -
  obtain fs where fs: "stored_facts sv (cb_txn_id b) (cb_system_hlc b) fs"
    "sr_fact_keys (commit_record c b) = map (fact_key c) fs"
    using assms by (auto simp: EncodeSequenceRecordV2_iff commit_record_def)
  have "length fs = length (sr_fact_keys (commit_record c b))" by (simp add: fs(2))
  then have "length fs = length (cb_mutations b) + length (cb_edge_identities b)"
    by (simp add: commit_record_def commit_events_def)
  with fs(1) show "length sv = 32 + 23 * (length (cb_mutations b) + length (cb_edge_identities b))" "length sv \<le> 2 ^ 24 + 10"
    by (auto simp: stored_facts_def kMaxPayloadBytes_def)
qed

definition prepared_delete :: "bytes option \<Rightarrow> write_batch" where
  "prepared_delete prepared_key = (case prepared_key of None \<Rightarrow> [] | Some k \<Rightarrow> [Delete MetaCf k])"

lemma delete_record_size:
  assumes "ids MetaCf < 128" "\<forall>k. prepared_key = Some k \<longrightarrow> length k \<le> 252"
  shows "length (concat (map (op_record ids) (prepared_delete prepared_key))) \<le> 256"
proof (cases prepared_key)
  case (Some k)
  then have k: "length k \<le> 252" using assms(2) by simp
  have "length (EncodeVarint32 (of_nat (length k))) \<le> 2"
    using k by (subst length_EncodeVarint32) (simp_all add: Varint32Bytes_def word_less_nat_alt unat_of_nat_small)
  with Some k length_put_column_family [OF assms(1), of 0 4] show ?thesis
    by (simp add: prepared_delete_def length_PutLengthPrefixedSlice)
qed (simp add: prepared_delete_def)

lemma sum_list_le_mult: "\<forall>x \<in> set xs. f x \<le> (n :: nat) \<Longrightarrow> sum_list (map f xs) \<le> length xs * n"
  by (induction xs) auto

lemma mutation_cost_bound:
  assumes "storable (event_of_mutation c m)"
  shows "mutation_cost m \<le> 2 ^ 25"
proof -
  let ?e = "event_of_mutation c m" and ?p = "case mu_value m of Some v \<Rightarrow> ValuePayloadBytes v | None \<Rightarrow> 0"
  have small: "length (event_payload ?e) \<le> 2 ^ 24"
    using assms by (simp add: storable_def kMaxFactValuePayloadBytes_def)
  have p: "length (event_payload ?e) = unat ?p"
    using small length_value_payload by (simp add: event_payload_def event_of_mutation_def split: option.splits)
  then have u: "unat (EncodedFactValueBytes ?p) = 15 + unat ?p"
    using small by (simp add: EncodedFactValueBytes_def unat_word_ariths)
  show ?thesis
    unfolding mutation_cost_def using small p u Varint32Bytes_le [of 32] Varint32Bytes_le [of "EncodedFactValueBytes ?p"]
    by (subst unat_WriteBatchPutBytes) simp_all
qed

lemma fixed_records_size:
  assumes "ids MetaCf < 128" "EncodeSequenceRecordV2 (commit_record c b) = Inr sv" "length wv = 18"
  shows "12 + length (concat (map (op_record ids) (outcome_ops c b sv))) +
      length (op_record ids (Put MetaCf EncodeVisibleWatermarkKey wv)) \<le> fixed_cost b"
    "fixed_cost b \<le> 2 ^ 25"
proof -
  let ?n = "length (cb_mutations b) + length (cb_edge_identities b)"
  note sv = sequence_value_size [OF assms(2)]
  have n: "?n \<le> 2 ^ 20" using sv by simp
  have est: "EstimateSequenceRecordBytes (of_nat (length (cb_mutations b)) + of_nat (length (cb_edge_identities b))) =
      of_nat (length sv)"
  proof -
    have un: "unat (of_nat ?n :: u64) = ?n" using n by (intro unat_of_nat_small(2)) simp
    have "of_nat (length (cb_mutations b)) + of_nat (length (cb_edge_identities b)) = (of_nat ?n :: u64)" by simp
    moreover have "unat (EstimateSequenceRecordBytes (of_nat ?n)) = length sv"
    proof -
      have "\<not> (of_nat ?n :: u64) > - 1 div 23"
        unfolding word_less_nat_alt using n by (simp add: unat_div un del: of_nat_add)
      moreover have "unat (23 * of_nat ?n :: u64) = 23 * ?n"
        using n by (simp add: unat_word_ariths un del: of_nat_add)
      ultimately show ?thesis
        using n by (simp add: EstimateSequenceRecordBytes_def SaturatingAddProduct_def unat_SaturatingAdd sv(1) del: of_nat_add)
    qed
    moreover have "x = of_nat (unat x)" for x :: u64 by simp
    ultimately show ?thesis by metis
  qed
  have "length (op_record ids (Put MetaCf EncodeVisibleWatermarkKey wv)) \<le>
      unat (WriteBatchPutBytes 17 (EncodedMetaRecordValueBytes 8))"
    using length_put_record [of ids MetaCf EncodeVisibleWatermarkKey wv, OF assms(1)] assms(3)
    by (simp add: EncodeVisibleWatermarkKey_def EncodedMetaRecordValueBytes_def del: op_record.simps)
  moreover have "length (op_record ids (Put MetaCf (ascii ''sequence/'' @ AppendU64 c) sv)) \<le>
      unat (WriteBatchPutBytes 17 (of_nat (length sv)))"
    using length_put_record [of ids MetaCf "ascii ''sequence/'' @ AppendU64 c" sv, OF assms(1)] sv(2)
    by (simp del: op_record.simps)
  moreover have "length (op_record ids (outcome_ops c b sv ! 0)) \<le> unat (WriteBatchPutBytes 12 (EncodedMetaRecordValueBytes 17))"
    using length_put_record [of ids MetaCf "ascii ''txn/'' @ AppendU64 (cb_txn_id b)"
        "frame (meta_kind_byte MetaTransactionOutcome)
          (outcome_payload \<lparr>to_txn_id = cb_txn_id b, to_commit_seq = c, to_outcome = OutcomeCommitted\<rparr>)", OF assms(1)]
    by (simp add: outcome_ops_def outcome_payload_def EncodedMetaRecordValueBytes_def del: op_record.simps)
  ultimately show "12 + length (concat (map (op_record ids) (outcome_ops c b sv))) +
      length (op_record ids (Put MetaCf EncodeVisibleWatermarkKey wv)) \<le> fixed_cost b"
    by (simp add: fixed_cost_def est outcome_ops_def del: op_record.simps)
  have "unat (WriteBatchPutBytes 17 (of_nat (length sv))) \<le> 40 + length sv"
    using sv(2) Varint32Bytes_le [of 17] Varint32Bytes_le [of "of_nat (length sv)"]
    by (subst unat_WriteBatchPutBytes) (simp_all add: unat_of_nat_small)
  moreover have "unat (WriteBatchPutBytes 12 (EncodedMetaRecordValueBytes 17)) \<le> 100"
    "unat (WriteBatchPutBytes 17 (EncodedMetaRecordValueBytes 8)) \<le> 100"
    by (simp_all add: unat_WriteBatchPutBytes EncodedMetaRecordValueBytes_def Varint32Bytes_def)
  ultimately show "fixed_cost b \<le> 2 ^ 25" using sv(2) by (simp add: fixed_cost_def est)
qed

lemma length_EncodeWatermark: "EncodeWatermark c = Inr wv \<Longrightarrow> length wv = 18"
  by (auto simp: EncodeWatermark_def EncodeRecord_iff)

lemma facts_size:
  assumes "ids FactsCf < 128" "ids MetaCf < 128" "\<forall>e \<in> set (commit_events c b). storable e"
  shows "length (concat (map (op_record ids) (map put_event (commit_events c b) @ map put_route (cb_edge_identities b)))) \<le>
    sum_list (map mutation_cost (cb_mutations b)) + length (cb_edge_identities b) * identity_cost"
proof -
  have "sum_list (map (\<lambda>m. length (op_record ids (put_event (event_of_mutation c m)))) (cb_mutations b)) \<le>
      sum_list (map mutation_cost (cb_mutations b))"
    using assms(1,3) by (intro sum_list_mono mutation_record_size) (auto simp: commit_events_def)
  moreover have "sum_list (map (\<lambda>i. length (op_record ids (put_event (identity_event_of c i))) +
        length (op_record ids (put_route i))) (cb_edge_identities b)) \<le> length (cb_edge_identities b) * identity_cost"
    using assms by (intro sum_list_le_mult ballI identity_record_size) (auto simp: commit_events_def)
  ultimately show ?thesis
    by (simp add: commit_events_def length_concat comp_def sum_list_addf)
qed

lemma batch_cost_bound:
  assumes "\<forall>e \<in> set (commit_events c b). storable e" "EncodeSequenceRecordV2 (commit_record c b) = Inr sv"
  shows "batch_cost b \<le> 1125899906842624"
proof -
  have n: "length (cb_mutations b) + length (cb_edge_identities b) \<le> 1048576"
    using sequence_value_size [OF assms(2)] by simp
  have "sum_list (map mutation_cost (cb_mutations b)) \<le> length (cb_mutations b) * 33554432"
    using assms(1) mutation_cost_bound [of c] by (intro sum_list_le_mult) (auto simp: commit_events_def)
  moreover have "identity_cost \<le> 33554432"
    by (simp add: identity_cost_def unat_WriteBatchPutBytes EncodedFactValueBytes_def EncodedMetaRecordValueBytes_def
        Varint32Bytes_def)
  then have "length (cb_edge_identities b) * identity_cost \<le> length (cb_edge_identities b) * 33554432" by simp
  moreover have "fixed_cost b \<le> 33554432"
    using fixed_records_size(2) [of "\<lambda>_. 0" c b sv "replicate 18 0"] assms(2) by simp
  ultimately show ?thesis using n unfolding batch_cost_def by linarith
qed

lemma estimate_covers_batch:
  assumes "batch_ok b" "c \<noteq> 0" "ids FactsCf < 128" "ids MetaCf < 128"
    "AppendCandidateToWriteBatch (candidate_of c b) [] = (OK, wb)" "EncodeWatermark c = Inr wv"
    "\<forall>k. prepared_key = Some k \<longrightarrow> length k \<le> 252"
  shows "GetDataSize ids (wb @ Put MetaCf EncodeVisibleWatermarkKey wv # prepared_delete prepared_key) \<le>
    unat (EstimateCommitBatchBytes b)"
proof -
  obtain sv where st: "\<forall>e \<in> set (commit_events c b). storable e"
    and sv: "EncodeSequenceRecordV2 (commit_record c b) = Inr sv"
    and wb: "wb = map put_event (commit_events c b) @ map put_route (cb_edge_identities b) @ outcome_ops c b sv"
    using assms(5) AppendCandidate_OK [OF assms(1,2), of "[]" wb] by auto
  note fixed = fixed_records_size(1) [of ids c b sv wv, OF assms(4) sv length_EncodeWatermark [OF assms(6)]]
  have "GetDataSize ids (wb @ Put MetaCf EncodeVisibleWatermarkKey wv # prepared_delete prepared_key) \<le> batch_cost b + 256"
    using facts_size [OF assms(3,4) st] fixed delete_record_size [of ids prepared_key, OF assms(4,7)]
    by (simp add: GetDataSize_def kHeader_def wb batch_cost_def del: op_record.simps)
  moreover have "batch_cost b \<le> 1125899906842624" using batch_cost_bound [OF st sv] .
  ultimately show ?thesis using estimate_at_least [of b] by simp
qed

section \<open>Properties\<close>

text \<open>
  C12: a physical group is a maximal conflict-free prefix of the queue. The selection loop takes
  requests in arrival order, never more than the group size, all with the leader's durability
  and pairwise free to share a physical write, and it stops only at the end of the queue or at
  a request that fails one of these tests. The conflict index of the loop thereby decides the
  same relation as the pairwise test over ordered sets.
\<close>

theorem group_selection_exact:
  "\<exists>rest. rs = select_group max_size sync empty_index 0 rs @ rest \<and>
     length (select_group max_size sync empty_index 0 rs) \<le> max_size \<and>
     list_all (\<lambda>r. gr_sync r = sync) (select_group max_size sync empty_index 0 rs) \<and>
     sorted_wrt (\<lambda>r r'. CanSharePhysicalWrite (BuildCommitFootprint (gr_batch r)) (BuildCommitFootprint (gr_batch r')))
       (select_group max_size sync empty_index 0 rs) \<and>
     (case rest of
        [] \<Rightarrow> True
      | r # _ \<Rightarrow> gr_sync r = sync \<and> length (select_group max_size sync empty_index 0 rs) < max_size \<longrightarrow>
          (\<exists>r' \<in> set (select_group max_size sync empty_index 0 rs).
             \<not> CanSharePhysicalWrite (BuildCommitFootprint (gr_batch r')) (BuildCommitFootprint (gr_batch r))))"
proof -
  let ?g = "select_group max_size sync empty_index 0 rs"
  note ind = select_group_independent [of max_size sync empty_index 0 rs]
  obtain rest where rest: "rs = ?g @ rest" and stop: "case rest of [] \<Rightarrow> True
      | r # _ \<Rightarrow> gr_sync r = sync \<and> 0 + length ?g < max_size \<longrightarrow>
          \<not> (independent empty_index (BuildCommitFootprint (gr_batch r)) \<and>
             (\<forall>r' \<in> set ?g. independent (BuildCommitFootprint (gr_batch r')) (BuildCommitFootprint (gr_batch r))))"
    using select_maximal by blast
  have "sorted_wrt (\<lambda>r r'. CanSharePhysicalWrite (BuildCommitFootprint (gr_batch r)) (BuildCommitFootprint (gr_batch r'))) ?g"
    using ind by (simp add: sorted_wrt_map CanSharePhysicalWrite_iff)
  moreover have "list_all (\<lambda>r. gr_sync r = sync) ?g" using ind by (simp add: list_all_iff)
  moreover have "length ?g \<le> max_size" using select_group_size [of max_size sync empty_index 0 rs] by simp
  ultimately show ?thesis
    using rest stop by (intro exI [of _ rest]) (auto simp: CanSharePhysicalWrite_iff split: list.splits)
qed

definition sample_request :: group_request where
  "sample_request = \<lparr>gr_batch = sample_edge_batch, gr_prepared_key = None, gr_sync = True\<rparr>"

theorem group_selection_exact_witness:
  "select_group 4 True empty_index 0 [sample_request, sample_request] \<noteq> [sample_request, sample_request]"
proof -
  have "\<not> CanSharePhysicalWrite (BuildCommitFootprint sample_edge_batch) (BuildCommitFootprint sample_edge_batch)"
    by (simp add: CanSharePhysicalWrite_iff) (simp add: independent_def BuildCommitFootprint_def)
  then show ?thesis
    using group_selection_exact [of "[sample_request, sample_request]" 4 True]
    by (auto simp: sample_request_def simp del: select_group.simps)
qed

text \<open>
  C14: the overlay of an epoch in flight stands for its batches: a later commit conflicts with
  the overlay exactly when it cannot share a physical write with one of the batches.
\<close>

theorem overlay_conflicts_exact:
  "Conflicts (FromBatches bs) (BuildCommitFootprint c) \<longleftrightarrow>
     (\<exists>b. Some b \<in> set bs \<and> \<not> CanSharePhysicalWrite (BuildCommitFootprint b) (BuildCommitFootprint c))"
  by (simp add: Conflicts_iff overlay_independent CanSharePhysicalWrite_iff)

text \<open>
  C13: the admission estimate is an upper bound. For every valid batch the encoded write batch
  of its commit, with the watermark and the removal of a prepare record, is no larger than
  \<^verbatim>\<open>EstimateCommitBatchBytes\<close>, so a batch admitted under the byte limit and committed on its
  own never fails the hard check after assembly. Column family numbers are below 128, as the estimator assumes.
\<close>

theorem estimate_bounds_batch:
  assumes "StoreCommitBatch_Validate b = OK" "c \<noteq> 0" "ids FactsCf < 128" "ids MetaCf < 128"
    "AppendCandidateToWriteBatch (candidate_of c b) [] = (OK, wb)" "EncodeWatermark c = Inr wv"
    "\<forall>k. prepared_key = Some k \<longrightarrow> length k \<le> 252" "EstimateCommitBatchBytes b \<le> max_bytes"
  shows "GetDataSize ids (wb @ Put MetaCf EncodeVisibleWatermarkKey wv # prepared_delete prepared_key) \<le>
      unat (EstimateCommitBatchBytes b) \<and>
    CheckCommittedBatchSize ids (wb @ Put MetaCf EncodeVisibleWatermarkKey wv # prepared_delete prepared_key) max_bytes = OK"
proof -
  have "batch_ok b" using assms(1) by (simp add: batch_ok_iff)
  then have size: "GetDataSize ids (wb @ Put MetaCf EncodeVisibleWatermarkKey wv # prepared_delete prepared_key) \<le>
      unat (EstimateCommitBatchBytes b)"
    using assms(2-7) by (rule estimate_covers_batch)
  moreover have "unat (EstimateCommitBatchBytes b) \<le> unat max_bytes" using assms(8) by (simp add: word_le_nat_alt)
  ultimately show ?thesis by (simp add: CheckCommittedBatchSize_def)
qed

theorem estimate_bounds_batch_witness:
  "\<exists>wb wv. AppendCandidateToWriteBatch (candidate_of 6 sample_edge_batch) [] = (OK, wb) \<and> EncodeWatermark 6 = Inr wv \<and>
     CheckCommittedBatchSize (\<lambda>_. 1) (wb @ Put MetaCf EncodeVisibleWatermarkKey wv # prepared_delete (Some (replicate 22 0)))
       (- 1) = OK"
proof -
  obtain wb where wb: "AppendCandidateToWriteBatch (candidate_of 6 sample_edge_batch) [] = (OK, wb)"
    using sample_edge_append by blast
  have "\<exists>wv. EncodeWatermark 6 = Inr wv" by (simp add: EncodeWatermark_def EncodeRecord_iff kMaxPayloadBytes_def)
  then obtain wv where wv: "EncodeWatermark 6 = Inr wv" by blast
  from estimate_bounds_batch [OF sample_edge_batch_valid _ _ _ wb wv, of "\<lambda>_. 1" "Some (replicate 22 0)" "- 1"]
  have "CheckCommittedBatchSize (\<lambda>_. 1) (wb @ Put MetaCf EncodeVisibleWatermarkKey wv # prepared_delete (Some (replicate 22 0)))
       (- 1) = OK" by simp
  with wb wv show ?thesis by blast
qed

end
