(* ===== verification/Commit_Store.thy ===== *)
theory Commit_Store
  imports Group_Commit Prepared_Codec Recent_Writes Version_Cache
begin

text \<open>
  The commit path of the fact store (\<^verbatim>\<open>rocks_adapter.cc\<close>): the state the publisher mutex
  protects, validation with the three in-memory accelerators, publication to them, and
  \<^verbatim>\<open>FactStore::CommitDirect\<close>. The engine's write is an argument with its contract as a locale;
  test-only observers and fault injectors are absent.
\<close>

section \<open>The state of an open store\<close>

record fact_store =
  fs_db :: database
  fs_visible :: commit_seq
  fs_recovery :: bool
  fs_retention :: commit_seq
  fs_recent :: "recent_index option"
  fs_history :: "identity_history option"
  fs_cache :: "version_cache option"

record store_options =
  so_max_batch_bytes :: u64
  so_cf_id :: "column_family \<Rightarrow> u32"

text \<open>What the accelerators answer; absent ones (null pointers) give no shortcut.\<close>

definition store_aids :: "fact_store \<Rightarrow> aids" where
  "store_aids s =
     \<lparr>aid_unchanged = (\<lambda>r q. case fs_recent s of None \<Rightarrow> False | Some x \<Rightarrow> CanProveUnchanged x r q),
      aid_might = (\<lambda>r. case fs_history s of None \<Rightarrow> True | Some h \<Rightarrow> MightContain h r),
      aid_cached = (\<lambda>r. case fs_cache s of None \<Rightarrow> None | Some c \<Rightarrow> fst (Lookup c r))\<rparr>"

definition touch_cache :: "fact_ref \<Rightarrow> fact_store \<Rightarrow> fact_store" where
  "touch_cache r s = s\<lparr>fs_cache := map_option (\<lambda>c. snd (Lookup c r)) (fs_cache s)\<rparr>"

definition prime_cache :: "fact_ref \<Rightarrow> current_fact_interval list \<Rightarrow> u64 \<Rightarrow> fact_store \<Rightarrow> fact_store" where
  "prime_cache r is generation s =
     s\<lparr>fs_cache := map_option (Prime r (map (\<lambda>i. (ci_valid_from i, ci_commit_seq i)) is) generation) (fs_cache s)\<rparr>"

definition publish_generation :: "fact_store \<Rightarrow> u64" where
  "publish_generation s = (case fs_cache s of None \<Rightarrow> 0 | Some c \<Rightarrow> vc_generation c)"

text \<open>Cached intervals, or a scan that primes the cache.\<close>

definition current_intervals :: "u64 \<Rightarrow> fact_ref \<Rightarrow> fact_store \<Rightarrow> current_fact_interval list status_or \<times> fact_store" where
  "current_intervals generation r s =
     (let s1 = touch_cache r s in
      case CachedFactIntervals (store_aids s) r of
        Some is \<Rightarrow> (Inr is, s1)
      | None \<Rightarrow>
          (case ScanCurrentFactIntervals (db_facts (fs_db s1)) r of
             Inl e \<Rightarrow> (Inl e, s1)
           | Inr is \<Rightarrow> (Inr is, prime_cache r is generation s1)))"

function check_groups :: "u64 \<Rightarrow> snapshot_write_dependency list \<Rightarrow> fact_store \<Rightarrow> status \<times> fact_store" where
  "check_groups generation [] s = (OK, s)"
| "check_groups generation (d # ds) s =
     (case current_intervals generation (sw_ref d) s of
        (Inl e, s') \<Rightarrow> (Inl e, s')
      | (Inr is, s') \<Rightarrow>
          if list_ex (\<lambda>x. list_ex (interval_conflicts x) is) (d # takeWhile (\<lambda>x. sw_ref x = sw_ref d) ds)
          then (Conflict ''commit'' ''snapshot write conflicts with a later overlapping event'', s')
          else check_groups generation (dropWhile (\<lambda>x. sw_ref x = sw_ref d) ds) s')"
  by pat_completeness auto
termination
  by (relation "measure (\<lambda>(generation, ds, s). length ds)") (auto simp: le_imp_less_Suc length_dropWhile_le)

definition validate_snapshot_writes :: "snapshot_write_dependency list \<Rightarrow> fact_store \<Rightarrow> status \<times> fact_store" where
  "validate_snapshot_writes deps s =
     (case pending_dependencies (store_aids s) (fs_visible s) deps of
        Inl e \<Rightarrow> (Inl e, s)
      | Inr pending \<Rightarrow>
          check_groups (publish_generation s) (sort_key (\<lambda>d. ref_tuple (sw_ref d)) pending) s)"

definition validate_strict_reads :: "strict_read_dependency list \<Rightarrow> fact_store \<Rightarrow> status" where
  "validate_strict_reads deps s =
     ValidateStrictReadDependencies (store_aids s) (db_facts (fs_db s)) (fs_visible s) deps"

definition validate_identities :: "store_commit_batch \<Rightarrow> fact_store \<Rightarrow> status" where
  "validate_identities b s = ValidateEdgeIdentitiesForCommit (db_facts (fs_db s)) b"

section \<open>Publication\<close>

definition publish_recent_fact :: "commit_seq \<Rightarrow> pending_mutation \<Rightarrow> edge_identity option \<Rightarrow> fact_store \<Rightarrow> status \<times> fact_store" where
  "publish_recent_fact c m i s =
     (OK, s\<lparr>fs_recent := map_option (Publish_recent (mu_ref m) c) (fs_recent s),
            fs_history := map_option (Publish_identity (mu_ref m)) (fs_history s)\<rparr>)"

definition PublishRecentFactWriteIndex :: "store_commit_batch \<Rightarrow> commit_seq \<Rightarrow> fact_store \<Rightarrow> fact_store" where
  "PublishRecentFactWriteIndex b c s = snd (VisitCommitFacts b (publish_recent_fact c) s)"

definition publish_cached_fact :: "commit_seq \<Rightarrow> pending_mutation \<Rightarrow> edge_identity option \<Rightarrow> fact_store \<Rightarrow> status \<times> fact_store" where
  "publish_cached_fact c m i s =
     (OK, s\<lparr>fs_cache := map_option (Publish_version (mu_ref m) (mu_valid_from m) c) (fs_cache s)\<rparr>)"

definition PublishValidationCache :: "store_commit_batch \<Rightarrow> commit_seq \<Rightarrow> fact_store \<Rightarrow> fact_store" where
  "PublishValidationCache b c s =
     (if fs_cache s = None then s else snd (VisitCommitFacts b (publish_cached_fact c) s))"

definition PublishVisible :: "commit_seq \<Rightarrow> fact_store \<Rightarrow> fact_store" where
  "PublishVisible c s = s\<lparr>fs_visible := c\<rparr>"

section \<open>The engine's answers\<close>

datatype rocks_code = RocksNotFound | RocksCorruption | RocksInvalidArgument | RocksNotSupported | RocksMemoryLimit | RocksOther

datatype rocks_status = RocksOk | RocksError rocks_code string

fun FromRocksDb :: "rocks_status \<Rightarrow> string \<Rightarrow> status" where
  "FromRocksDb RocksOk ctx = OK"
| "FromRocksDb (RocksError RocksNotFound msg) ctx = Inl (Status_init kNotFound ctx msg)"
| "FromRocksDb (RocksError RocksCorruption msg) ctx = Inl (Status_init kCorruption ctx msg)"
| "FromRocksDb (RocksError RocksInvalidArgument msg) ctx = Inl (Status_init kInvalidArgument ctx msg)"
| "FromRocksDb (RocksError RocksNotSupported msg) ctx = Inl (Status_init kNotSupported ctx msg)"
| "FromRocksDb (RocksError RocksMemoryLimit msg) ctx = Inl (Status_init kResourceExhausted ctx msg)"
| "FromRocksDb (RocksError RocksOther msg) ctx = Inl (Status_init kIOError ctx msg)"

fun FromCommitWriteFailure :: "rocks_status \<Rightarrow> status" where
  "FromCommitWriteFailure (RocksError RocksInvalidArgument msg) =
     FromRocksDb (RocksError RocksInvalidArgument msg) ''commit fact store batch''"
| "FromCommitWriteFailure (RocksError RocksNotSupported msg) =
     FromRocksDb (RocksError RocksNotSupported msg) ''commit fact store batch''"
| "FromCommitWriteFailure (RocksError _ msg) = Inl (Status_init kIndeterminate ''commit fact store batch'' msg)"
| "FromCommitWriteFailure RocksOk = Inl (Status_init kIndeterminate ''commit fact store batch'' ''OK'')"

type_synonym engine = "bool \<Rightarrow> database \<Rightarrow> write_batch \<Rightarrow> rocks_status \<times> database"

definition engine_not_found :: rocks_status where
  "engine_not_found = RocksError RocksNotFound ''NotFound: ''"

section \<open>Retrying a committed transaction\<close>

record store_commit_result =
  cr_commit_seq :: commit_seq
  cr_system_hlc :: u64

definition different_batch :: "'a status_or" where
  "different_batch = Conflict ''commit'' ''transaction ID belongs to a different batch''"

fun committed_edge_ids :: "bytes list \<Rightarrow> edge_identity_key set \<Rightarrow> edge_identity_key set status_or" where
  "committed_edge_ids [] ids = Inr ids"
| "committed_edge_ids (k # ks) ids =
     sbind (DecodeFactKey k) (\<lambda>d.
       committed_edge_ids ks
         (if ref_family (dk_ref d) = kEdgeIdentity
          then insert (ref_part (dk_ref d), ref_entity (dk_ref d)) ids else ids))"

fun check_committed_identities :: "kv \<Rightarrow> edge_identity_key set \<Rightarrow> edge_identity list \<Rightarrow> status" where
  "check_committed_identities facts ids [] = OK"
| "check_committed_identities facts ids (i # is) =
     (if (ei_home i, ei_edge i) \<notin> ids then different_batch
      else sbind (ReadLatestEdgeIdentity facts (EdgeIdentity_edge_ref i)) (\<lambda>committed.
        case committed of
          None \<Rightarrow> Corruption ''commit'' ''committed edge lacks an authoritative identity fact''
        | Some j \<Rightarrow> if j \<noteq> i then different_batch else check_committed_identities facts ids is))"

fun check_committed_facts :: "kv \<Rightarrow> commit_seq \<Rightarrow> pending_mutation list \<Rightarrow> bytes list \<Rightarrow> status" where
  "check_committed_facts facts c [] keys = OK"
| "check_committed_facts facts c (m # ms) [] = different_batch"
| "check_committed_facts facts c (m # ms) (k # keys) =
     (let expected_key = EncodeFactKey (mu_ref m) (mu_valid_from m) c in
      if expected_key \<noteq> k then different_batch
      else case kv_get facts expected_key of
        None \<Rightarrow> FromRocksDb engine_not_found ''read committed fact''
      | Some encoded \<Rightarrow>
          sbind (DecodeFactValue (mu_ref m) (mu_valid_from m) c encoded) (\<lambda>actual.
            if ev_operation actual \<noteq> mu_operation m \<or> ev_schema_epoch actual \<noteq> mu_schema_epoch m \<or>
               \<not> opt_val_eq (ev_value actual) (mu_value m)
            then different_batch
            else check_committed_facts facts c ms keys))"

definition committed_result :: "store_commit_batch \<Rightarrow> bytes \<Rightarrow> fact_store \<Rightarrow> store_commit_result status_or" where
  "committed_result b encoded_outcome s =
     sbind (DecodeTransactionOutcome encoded_outcome) (\<lambda>outcome.
     let c = to_commit_seq outcome in
     if c < fs_retention s
     then Inl (Status_init kSnapshotExpired ''commit''
            ''sequence record was pruned below the sequence retention watermark'')
     else sbind (EncodeSequenceMetaKey c) (\<lambda>sequence_key.
     case kv_get (db_meta (fs_db s)) sequence_key of
       None \<Rightarrow> Corruption ''commit'' ''outcome is missing sequence record''
     | Some encoded_sequence \<Rightarrow>
         sbind (DecodeSequenceRecord encoded_sequence c) (\<lambda>rec.
         if sr_txn_id rec \<noteq> cb_txn_id b \<or> sr_system_hlc rec \<noteq> cb_system_hlc b \<or>
            length (sr_fact_keys rec) \<noteq> length (cb_mutations b) + length (cb_edge_identities b)
         then different_batch
         else sbind (committed_edge_ids (sr_fact_keys rec) {}) (\<lambda>ids.
         if card ids \<noteq> length (cb_edge_identities b) then different_batch
         else sbind (check_committed_identities (db_facts (fs_db s)) ids (cb_edge_identities b)) (\<lambda>_.
         sbind (check_committed_facts (db_facts (fs_db s)) c (cb_mutations b) (sr_fact_keys rec)) (\<lambda>_.
           Inr \<lparr>cr_commit_seq = c, cr_system_hlc = sr_system_hlc rec\<rparr>))))))"

section \<open>Committing\<close>

definition check_prepare :: "store_commit_batch \<Rightarrow> bytes option \<Rightarrow> fact_store \<Rightarrow> status" where
  "check_prepare b prepared_key s =
     (case prepared_key of
        None \<Rightarrow> OK
      | Some k \<Rightarrow>
          (case kv_get (db_meta (fs_db s)) k of
             None \<Rightarrow> Inl (Status_init kNotFound ''async prepare'' ''prepared transaction is missing'')
           | Some encoded_prepare \<Rightarrow>
               sbind (DecodePreparedCommit encoded_prepare) (\<lambda>_.
               sbind (EncodePreparedCommit b) (\<lambda>expected_prepare.
               if encoded_prepare \<noteq> expected_prepare
               then Conflict ''async prepare'' ''prepared transaction differs from final batch''
               else OK))))"

fun encode_keys :: "commit_seq \<Rightarrow> pending_mutation list \<Rightarrow> bytes list status_or" where
  "encode_keys c [] = Inr []"
| "encode_keys c (m # ms) =
     (let key = EncodeFactKey (mu_ref m) (mu_valid_from m) c in
      if key = [] then InvalidArgument ''commit'' ''invalid fact key''
      else sbind (encode_keys c ms) (\<lambda>keys. Inr (key # keys)))"

definition assemble_commit :: "store_options \<Rightarrow> commit_seq \<Rightarrow> store_commit_batch \<Rightarrow> bytes option \<Rightarrow> write_batch status_or" where
  "assemble_commit opts c b prepared_key =
     sbind (encode_keys c (cb_mutations b)) (\<lambda>fact_keys.
     sbind (EncodeWatermark c) (\<lambda>encoded_watermark.
     case AppendCandidateToWriteBatch \<lparr>cd_batch = b, cd_commit_seq = c, cd_fact_keys = fact_keys\<rparr> [] of
       (Inl e, _) \<Rightarrow> Inl e
     | (Inr _, wb) \<Rightarrow>
         let wb = wb @ Put MetaCf EncodeVisibleWatermarkKey encoded_watermark # prepared_delete prepared_key
         in sbind (CheckCommittedBatchSize (so_cf_id opts) wb (so_max_batch_bytes opts)) (\<lambda>_. Inr wb)))"

definition write_commit ::
  "store_options \<Rightarrow> engine \<Rightarrow> bool \<Rightarrow> store_commit_batch \<Rightarrow> bytes option \<Rightarrow> fact_store \<Rightarrow>
   store_commit_result status_or \<times> fact_store" where
  "write_commit opts engine sync b prepared_key s =
     (if fs_visible s = max_seq then (ResourceExhausted ''commit'' ''commit sequence exhausted'', s)
      else let c = fs_visible s + 1 in
      case assemble_commit opts c b prepared_key of
        Inl e \<Rightarrow> (Inl e, s)
      | Inr wb \<Rightarrow>
          (case engine sync (fs_db s) wb of
             (RocksOk, db) \<Rightarrow>
               (Inr \<lparr>cr_commit_seq = c, cr_system_hlc = cb_system_hlc b\<rparr>,
                PublishVisible c (PublishValidationCache b c (PublishRecentFactWriteIndex b c (s\<lparr>fs_db := db\<rparr>))))
           | (failed, db) \<Rightarrow>
               (case FromCommitWriteFailure failed of
                  Inl e \<Rightarrow>
                    (Inl e, s\<lparr>fs_db := db, fs_recovery := fs_recovery s \<or> error_code e = kIndeterminate\<rparr>)
                | Inr _ \<Rightarrow> (Inl (Status_init kIndeterminate ''commit'' []), s\<lparr>fs_db := db\<rparr>))))"

definition commit_new ::
  "store_options \<Rightarrow> engine \<Rightarrow> bool \<Rightarrow> store_commit_batch \<Rightarrow> bytes option \<Rightarrow> fact_store \<Rightarrow>
   store_commit_result status_or \<times> fact_store" where
  "commit_new opts engine sync b prepared_key s =
     (case validate_snapshot_writes (cb_snapshot_deps b) s of
        (Inl e, s') \<Rightarrow> (Inl e, s')
      | (Inr _, s') \<Rightarrow>
          (case validate_strict_reads (cb_strict_deps b) s' of
             Inl e \<Rightarrow> (Inl e, s')
           | Inr _ \<Rightarrow>
               (case validate_identities b s' of
                  Inl e \<Rightarrow> (Inl e, s')
                | Inr _ \<Rightarrow> write_commit opts engine sync b prepared_key s')))"

definition commit_locked ::
  "store_options \<Rightarrow> engine \<Rightarrow> bool \<Rightarrow> store_commit_batch \<Rightarrow> bytes option \<Rightarrow> fact_store \<Rightarrow>
   store_commit_result status_or \<times> fact_store" where
  "commit_locked opts engine sync b prepared_key s =
     (if fs_recovery s
      then (Inl (Status_init kRecoveryRequired ''commit'' ''reopen required after indeterminate write''), s)
      else case sbind (check_prepare b prepared_key s) (\<lambda>_. EncodeTransactionMetaKey (cb_txn_id b)) of
        Inl e \<Rightarrow> (Inl e, s)
      | Inr transaction_key \<Rightarrow>
          (case (if cb_fresh b then None else kv_get (db_meta (fs_db s)) transaction_key) of
             Some encoded_outcome \<Rightarrow> (committed_result b encoded_outcome s, s)
           | None \<Rightarrow> commit_new opts engine sync b prepared_key s))"

definition CommitDirect ::
  "store_options \<Rightarrow> engine \<Rightarrow> bool \<Rightarrow> store_commit_batch \<Rightarrow> bytes option \<Rightarrow> fact_store option \<Rightarrow>
   store_commit_result status_or \<times> fact_store option" where
  "CommitDirect opts engine sync b prepared_key impl =
     (case StoreCommitBatch_Validate b of
        Inl e \<Rightarrow> (Inl e, impl)
      | Inr _ \<Rightarrow>
          if EstimateCommitBatchBytes b > so_max_batch_bytes opts
          then (ResourceExhausted ''commit'' ''encoded batch exceeds hard byte limit'', impl)
          else case impl of
            None \<Rightarrow> (InvalidArgument ''commit'' ''store is not open'', None)
          | Some s \<Rightarrow> map_prod id Some (commit_locked opts engine sync b prepared_key s))"

section \<open>The invariant of the store\<close>

definition history_of :: "kv \<Rightarrow> write_history" where
  "history_of m = (\<lambda>e. (IdentityOf (ev_ref e), ev_valid_from e, ev_commit_seq e)) ` set (events_of m)"

definition recent_sound :: "kv \<Rightarrow> recent_index \<Rightarrow> bool" where
  "recent_sound m x \<longleftrightarrow>
     (\<exists>c H. recent_ok c H x \<and>
        (\<forall>e \<in> set (events_of m). ev_commit_seq e \<le> c \<or> (IdentityOf (ev_ref e), ev_commit_seq e) \<in> H))"

definition history_sound :: "kv \<Rightarrow> identity_history \<Rightarrow> bool" where
  "history_sound m h \<longleftrightarrow> (h = [] \<or> bloom_ready h) \<and> (\<forall>e \<in> set (events_of m). MightContain h (ev_ref e))"

definition cache_sound :: "kv \<Rightarrow> version_cache \<Rightarrow> bool" where
  "cache_sound m c \<longleftrightarrow> cache_ok (history_of m) (history_of m) c"

definition store_ok :: "fact_store \<Rightarrow> bool" where
  "store_ok s \<longleftrightarrow>
     facts_ok (db_facts (fs_db s)) \<and> kv_sorted (db_meta (fs_db s)) \<and>
     (\<forall>e \<in> set (events_of (db_facts (fs_db s))). ev_commit_seq e \<le> fs_visible s) \<and>
     pred_option (recent_sound (db_facts (fs_db s))) (fs_recent s) \<and>
     pred_option (history_sound (db_facts (fs_db s))) (fs_history s) \<and>
     pred_option (cache_sound (db_facts (fs_db s))) (fs_cache s)"

lemma IdentityOf_inject:
  "FactRef_Validate r = OK \<Longrightarrow> FactRef_Validate r' = OK \<Longrightarrow> IdentityOf r = IdentityOf r' \<longleftrightarrow> r = r'"
  by (cases r; cases r') (auto simp: IdentityOf_def FactRef_Validate_OK_iff dest: arg_cong [of _ _ family_of])

lemma at_identity_history:
  assumes "facts_ok m" "FactRef_Validate r = OK"
  shows "at_identity (history_of m) (IdentityOf r) = (\<lambda>e. (ev_valid_from e, ev_commit_seq e)) ` set (facts_of m r)"
proof -
  have "IdentityOf (ev_ref e) = IdentityOf r \<longleftrightarrow> ev_ref e = r" if "e \<in> set (events_of m)" for e
    using that facts_ok_events(2) [OF assms(1)] storable_parts IdentityOf_inject assms(2) by blast
  then show ?thesis by (force simp: at_identity_def history_of_def facts_of_def)
qed

text \<open>The scanned boundaries form the chain the cache stores.\<close>

definition boundaries :: "kv \<Rightarrow> fact_ref \<Rightarrow> validation_boundary list" where
  "boundaries m r = map (\<lambda>i. (ci_valid_from i, ci_commit_seq i)) (boundary_list None (facts_of m r))"

lemma intervals_of_boundaries:
  "sorted_wrt (\<lambda>e f. chain_key f < chain_key e) es \<Longrightarrow>
   intervals_of previous (map (\<lambda>i. (ci_valid_from i, ci_commit_seq i)) (boundary_list previous es)) =
     boundary_list previous es"
  by (induction es arbitrary: previous) auto

lemma boundary_list_descending:
  "sorted_wrt (\<lambda>e f. chain_key f < chain_key e) es \<Longrightarrow>
   \<forall>e \<in> set es. \<forall>p. previous = Some p \<longrightarrow> ev_valid_from e \<le> p \<Longrightarrow>
   descending (map (\<lambda>i. (ci_valid_from i, ci_commit_seq i)) (boundary_list previous es)) \<and>
   (\<forall>i \<in> set (boundary_list previous es). \<forall>p. previous = Some p \<longrightarrow> ci_valid_from i < p)"
proof (induction es arbitrary: previous)
  case (Cons e es)
  have le: "\<forall>f \<in> set es. ev_valid_from f \<le> ev_valid_from e"
    using Cons.prems(1) by (auto simp: chain_key_def)
  show ?case
  proof (cases "previous = Some (ev_valid_from e)")
    case True
    with Cons.IH [of previous] Cons.prems le show ?thesis by simp
  next
    case False
    have "descending (map (\<lambda>i. (ci_valid_from i, ci_commit_seq i)) (boundary_list (Some (ev_valid_from e)) es)) \<and>
        (\<forall>i \<in> set (boundary_list (Some (ev_valid_from e)) es). ci_valid_from i < ev_valid_from e)"
      using Cons.IH [of "Some (ev_valid_from e)"] Cons.prems(1) le by simp
    moreover have "\<forall>p. previous = Some p \<longrightarrow> ev_valid_from e < p"
      using Cons.prems(2) False by (auto simp: order.order_iff_strict)
    ultimately show ?thesis using False by (auto simp: descending_def dest: order_less_trans)
  qed
qed (simp add: descending_def)

lemma boundaries_chain:
  assumes "facts_ok m" "FactRef_Validate r = OK"
  shows "chain_between (at_identity (history_of m) (IdentityOf r)) (at_identity (history_of m) (IdentityOf r)) (boundaries m r)"
    "\<forall>b \<in> set (boundaries m r). snd b \<noteq> 0"
proof -
  note sorted = facts_of_descending [OF assms(1), of r]
  have sound: "\<exists>e \<in> set (facts_of m r). ci_valid_from i = ev_valid_from e \<and> ci_commit_seq i = ev_commit_seq e"
    if "i \<in> set (boundary_list None (facts_of m r))" for i
    using boundary_list_sound [OF sorted _ that] by auto
  have "descending (boundaries m r)" unfolding boundaries_def using boundary_list_descending [OF sorted, of None] by simp
  moreover have "set (boundaries m r) \<subseteq> (\<lambda>e. (ev_valid_from e, ev_commit_seq e)) ` set (facts_of m r)"
    unfolding boundaries_def using sound by fastforce
  moreover have "\<exists>q'. (ev_valid_from e, q') \<in> set (boundaries m r) \<and> ev_commit_seq e \<le> q'" if "e \<in> set (facts_of m r)" for e
    using boundary_list_covers [OF sorted that, of None] unfolding boundaries_def by force
  ultimately show "chain_between (at_identity (history_of m) (IdentityOf r)) (at_identity (history_of m) (IdentityOf r)) (boundaries m r)"
    unfolding at_identity_history [OF assms] chain_between_def by auto
  have "ev_commit_seq e \<noteq> 0" if "e \<in> set (facts_of m r)" for e
    using that facts_ok_events(2) [OF assms(1)] storable_parts by (auto simp: facts_of_def)
  with sound show "\<forall>b \<in> set (boundaries m r). snd b \<noteq> 0" unfolding boundaries_def by fastforce
qed

lemma store_aids_sound:
  assumes "store_ok s"
  shows "sound_aids (db_facts (fs_db s)) (store_aids s)"
proof
  fix r q e
  assume "aid_unchanged (store_aids s) r q" "e \<in> set (facts_of (db_facts (fs_db s)) r)"
  then obtain x where x: "fs_recent s = Some x" "CanProveUnchanged x r q" "e \<in> set (events_of (db_facts (fs_db s)))" "ev_ref e = r"
    by (auto simp: store_aids_def facts_of_def split: option.splits)
  then obtain c H where "recent_ok c H x" "ev_commit_seq e \<le> c \<or> (IdentityOf (ev_ref e), ev_commit_seq e) \<in> H"
    using assms by (auto simp: store_ok_def recent_sound_def)
  with CanProveUnchanged_sound [of c H x r q] x show "ev_commit_seq e \<le> q" by (auto intro: order_trans)
next
  fix r
  assume "\<not> aid_might (store_aids s) r"
  with assms show "facts_of (db_facts (fs_db s)) r = []"
    by (auto simp: store_aids_def store_ok_def history_sound_def facts_of_def filter_empty_conv split: option.splits)
next
  fix r bs
  assume "aid_cached (store_aids s) r = Some bs"
  then obtain c where c: "fs_cache s = Some c" "fst (Lookup c r) = Some bs"
    by (auto simp: store_aids_def split: option.splits)
  then have r: "FactRef_Validate r = OK" by (auto simp: Lookup_def split: if_splits)
  have ok: "cache_ok (history_of (db_facts (fs_db s))) (history_of (db_facts (fs_db s))) c" and f: "facts_ok (db_facts (fs_db s))"
    using assms c(1) by (simp_all add: store_ok_def cache_sound_def)
  have "bs = boundaries (db_facts (fs_db s)) r"
    using chain_between_unique [OF conjunct1 [OF Lookup_between [OF ok c(2)]] boundaries_chain(1) [OF f r]] .
  then show "intervals_of None bs = boundary_list None (facts_of (db_facts (fs_db s)) r)"
    unfolding boundaries_def using intervals_of_boundaries [OF facts_of_descending [OF f]] by simp
qed

section \<open>Validation with the accelerators\<close>

context sound_aids
begin

lemma check_pending_plain:
  assumes "facts_ok facts"
  shows "\<forall>d \<in> set ds. FactRef_Validate (sw_ref d) = OK \<Longrightarrow>
    check_pending a facts ds = check_pending no_aids facts ds"
proof (induction "length ds" arbitrary: ds rule: less_induct)
  case less
  show ?case
  proof (cases ds)
    case (Cons d es)
    have "length (dropWhile (\<lambda>x. sw_ref x = sw_ref d) es) < length ds"
      using Cons length_dropWhile_le [of _ es] by (simp add: le_imp_less_Suc)
    moreover have "\<forall>x \<in> set (dropWhile (\<lambda>x. sw_ref x = sw_ref d) es). FactRef_Validate (sw_ref x) = OK"
      using less.prems Cons by (auto dest: set_dropWhileD)
    ultimately have "check_pending a facts (dropWhile (\<lambda>x. sw_ref x = sw_ref d) es) =
        check_pending no_aids facts (dropWhile (\<lambda>x. sw_ref x = sw_ref d) es)" using less.hyps by blast
    moreover have "FactRef_Validate (sw_ref d) = OK" using less.prems Cons by simp
    ultimately show ?thesis
      unfolding Cons check_pending.simps by (simp add: intervals [OF assms] plain.intervals [OF assms])
  qed simp
qed

end

definition same_but_cache :: "fact_store \<Rightarrow> fact_store \<Rightarrow> bool" where
  "same_but_cache s s' \<longleftrightarrow> s' = s\<lparr>fs_cache := fs_cache s'\<rparr> \<and> publish_generation s' = publish_generation s"

lemma same_but_cache_trans: "same_but_cache s t \<Longrightarrow> same_but_cache t u \<Longrightarrow> same_but_cache s u"
  by (cases s; cases t; cases u) (simp add: same_but_cache_def)

lemma same_but_cache_fields:
  assumes "same_but_cache s s'"
  shows "fs_db s' = fs_db s" "fs_visible s' = fs_visible s" "fs_recovery s' = fs_recovery s"
    "fs_retention s' = fs_retention s" "fs_recent s' = fs_recent s" "fs_history s' = fs_history s"
    "publish_generation s' = publish_generation s"
  using assms by (cases s; cases s'; simp add: same_but_cache_def)+

lemma touch_cache_ok:
  assumes "store_ok s"
  shows "store_ok (touch_cache r s) \<and> same_but_cache s (touch_cache r s)"
proof (cases "fs_cache s")
  case None
  then have "touch_cache r s = s" by (simp add: touch_cache_def)
  with assms show ?thesis by (simp add: same_but_cache_def)
next
  case (Some c)
  with assms have "cache_sound (db_facts (fs_db s)) c" by (simp add: store_ok_def)
  then have "cache_sound (db_facts (fs_db s)) (snd (Lookup c r)) \<and> vc_generation (snd (Lookup c r)) = vc_generation c"
    unfolding cache_sound_def by (rule Lookup_ok)
  with Some assms show ?thesis
    by (simp add: touch_cache_def store_ok_def same_but_cache_def publish_generation_def)
qed

lemma prime_cache_ok:
  assumes "store_ok s" "FactRef_Validate r = OK"
  shows "store_ok (prime_cache r (boundary_list None (facts_of (db_facts (fs_db s)) r)) (publish_generation s) s) \<and>
    same_but_cache s (prime_cache r (boundary_list None (facts_of (db_facts (fs_db s)) r)) (publish_generation s) s)"
proof (cases "fs_cache s")
  case None
  then have "prime_cache r is g s = s" for "is" g by (simp add: prime_cache_def)
  with assms show ?thesis by (simp add: same_but_cache_def)
next
  case (Some c)
  let ?m = "db_facts (fs_db s)"
  have f: "facts_ok ?m" and c: "cache_ok (history_of ?m) (history_of ?m) c"
    using assms(1) Some by (simp_all add: store_ok_def cache_sound_def)
  have "cache_sound ?m (Prime r (boundaries ?m r) (vc_generation c) c) \<and>
      vc_generation (Prime r (boundaries ?m r) (vc_generation c) c) = vc_generation c"
    unfolding cache_sound_def using c boundaries_chain [OF f assms(2)] by (rule Prime_ok) simp
  with Some assms(1) show ?thesis
    by (simp add: prime_cache_def boundaries_def store_ok_def same_but_cache_def publish_generation_def)
qed

lemma current_intervals_ok:
  assumes "store_ok s" "FactRef_Validate r = OK"
  shows "\<exists>s'. current_intervals (publish_generation s) r s =
      (Inr (boundary_list None (facts_of (db_facts (fs_db s)) r)), s') \<and> store_ok s' \<and> same_but_cache s s'"
proof -
  let ?s1 = "touch_cache r s" and ?is = "boundary_list None (facts_of (db_facts (fs_db s)) r)"
  note t = touch_cache_ok [OF assms(1), of r]
  have f: "facts_ok (db_facts (fs_db s))" using assms(1) by (simp add: store_ok_def)
  have db: "fs_db ?s1 = fs_db s" "publish_generation ?s1 = publish_generation s" using t same_but_cache_fields by blast+
  have p: "store_ok (prime_cache r ?is (publish_generation s) ?s1) \<and>
      same_but_cache ?s1 (prime_cache r ?is (publish_generation s) ?s1)"
    using prime_cache_ok [of ?s1 r] t assms(2) db by simp
  note i = sound_aids.intervals [OF store_aids_sound [OF assms(1)] f assms(2)]
  show ?thesis
  proof (cases "CachedFactIntervals (store_aids s) r")
    case None
    with i t p db same_but_cache_trans [of s ?s1] show ?thesis
      by (auto simp: current_intervals_def Let_def)
  next
    case (Some ivs)
    with i t show ?thesis by (simp add: current_intervals_def Let_def)
  qed
qed

lemma check_groups_plain:
  assumes "store_ok s" "\<forall>d \<in> set ds. FactRef_Validate (sw_ref d) = OK"
  shows "\<exists>s'. check_groups (publish_generation s) ds s = (check_pending no_aids (db_facts (fs_db s)) ds, s') \<and>
    store_ok s' \<and> same_but_cache s s'"
  using assms
proof (induction "length ds" arbitrary: ds s rule: less_induct)
  case less
  show ?case
  proof (cases ds)
    case Nil
    with less.prems show ?thesis by (simp add: same_but_cache_def)
  next
    case (Cons d es)
    let ?m = "db_facts (fs_db s)" and ?rest = "dropWhile (\<lambda>x. sw_ref x = sw_ref d) es"
    have d: "FactRef_Validate (sw_ref d) = OK" using less.prems Cons by simp
    have f: "facts_ok ?m" using less.prems by (simp add: store_ok_def)
    obtain s1 where s1: "current_intervals (publish_generation s) (sw_ref d) s =
        (Inr (boundary_list None (facts_of ?m (sw_ref d))), s1)" "store_ok s1" "same_but_cache s s1"
      using current_intervals_ok [OF less.prems(1) d] by blast
    note same = same_but_cache_fields [OF s1(3)]
    have "length ?rest < length ds"
      using Cons length_dropWhile_le [of _ es] by (simp add: le_imp_less_Suc)
    moreover have "\<forall>x \<in> set ?rest. FactRef_Validate (sw_ref x) = OK"
      using less.prems Cons by (auto dest: set_dropWhileD)
    ultimately obtain s2 where s2: "check_groups (publish_generation s) ?rest s1 = (check_pending no_aids ?m ?rest, s2)"
      "store_ok s2" "same_but_cache s1 s2"
      using less.hyps [of ?rest s1] s1(2) same by auto
    have "check_pending no_aids ?m ds =
        (if list_ex (\<lambda>x. list_ex (interval_conflicts x) (boundary_list None (facts_of ?m (sw_ref d))))
              (d # takeWhile (\<lambda>x. sw_ref x = sw_ref d) es)
         then Conflict ''commit'' ''snapshot write conflicts with a later overlapping event''
         else check_pending no_aids ?m ?rest)"
      unfolding Cons check_pending.simps plain.intervals [OF f d] by simp
    then show ?thesis
      using s1 s2 same_but_cache_trans [OF s1(3) s2(3)] unfolding Cons by simp
  qed
qed

lemma validate_snapshot_writes_ok:
  assumes "store_ok s" "\<forall>d \<in> set deps. FactRef_Validate (sw_ref d) = OK"
  shows "\<exists>s'. validate_snapshot_writes deps s =
      (ValidateSnapshotWriteDependencies (store_aids s) (db_facts (fs_db s)) (fs_visible s) deps, s') \<and>
    store_ok s' \<and> same_but_cache s s'"
proof (cases "pending_dependencies (store_aids s) (fs_visible s) deps")
  case (Inl e)
  with assms(1) show ?thesis
    by (simp add: validate_snapshot_writes_def ValidateSnapshotWriteDependencies_def same_but_cache_def)
next
  case (Inr pending)
  let ?ds = "sort_key (\<lambda>d. ref_tuple (sw_ref d)) pending"
  have f: "facts_ok (db_facts (fs_db s))" using assms(1) by (simp add: store_ok_def)
  have "set ?ds \<subseteq> set deps"
    using Inr sound_aids.pending_dependencies_Inr [OF store_aids_sound [OF assms(1)]] by auto
  then have ds: "\<forall>d \<in> set ?ds. FactRef_Validate (sw_ref d) = OK" using assms(2) by blast
  from check_groups_plain [OF assms(1) ds] Inr sound_aids.check_pending_plain [OF store_aids_sound [OF assms(1)] f ds]
  show ?thesis by (simp add: validate_snapshot_writes_def ValidateSnapshotWriteDependencies_def)
qed

section \<open>Publication keeps the accelerators sound\<close>

lemma visit_facts_always:
  "(\<And>m i s. fst (v m i s) = OK) \<Longrightarrow> visit_facts v fs s = (OK, fold (\<lambda>(m, i) s. snd (v m i s)) fs s)"
proof (induction fs arbitrary: s)
  case (Cons f fs)
  obtain m i where f: "f = (m, i)" by (cases f)
  have "v m i s = (OK, snd (v m i s))" using Cons.prems [of m i s] by (simp add: prod_eq_iff)
  then have "visit_facts v (f # fs) s = visit_facts v fs (snd (v m i s))"
    unfolding f visit_facts.simps by (metis and_then_simps(2))
  with Cons show ?case by (simp add: f)
qed simp

lemma VisitCommitFacts_always:
  assumes "\<And>m i s. v m i s = (OK, g (mu_ref m) (mu_valid_from m) s)"
  shows "snd (VisitCommitFacts b v s) = fold (\<lambda>e. g (ev_ref e) (ev_valid_from e)) (commit_events c b) s"
proof -
  have "visit_facts v fs s = (OK, fold (\<lambda>(m, i). g (mu_ref m) (mu_valid_from m)) fs s)" for fs s
    using visit_facts_always [of v fs s] assms by (simp add: case_prod_beta')
  then show ?thesis
    by (simp add: VisitCommitFacts_def commit_events_def fold_map comp_def event_of_mutation_def identity_event_of_def)
qed

lemma PublishRecent_eq:
  "PublishRecentFactWriteIndex b c s =
     s\<lparr>fs_recent := map_option (publish_all (map (\<lambda>e. (ev_ref e, c)) (commit_events c b))) (fs_recent s),
       fs_history := map_option (fold Publish_identity (map ev_ref (commit_events c b))) (fs_history s)\<rparr>"
proof -
  have "fold (\<lambda>e s. s\<lparr>fs_recent := map_option (Publish_recent (ev_ref e) c) (fs_recent s),
        fs_history := map_option (Publish_identity (ev_ref e)) (fs_history s)\<rparr>) es s =
      s\<lparr>fs_recent := map_option (publish_all (map (\<lambda>e. (ev_ref e, c)) es)) (fs_recent s),
        fs_history := map_option (fold Publish_identity (map ev_ref es)) (fs_history s)\<rparr>" for es :: "fact_event list" and s
    by (induction es arbitrary: s) (simp_all add: publish_all_def option.map_comp comp_def option.map_id0)
  then show ?thesis
    unfolding PublishRecentFactWriteIndex_def
    by (subst VisitCommitFacts_always [where g = "\<lambda>r v s. s\<lparr>fs_recent := map_option (Publish_recent r c) (fs_recent s),
        fs_history := map_option (Publish_identity r) (fs_history s)\<rparr>"]) (simp_all add: publish_recent_fact_def)
qed

lemma PublishCache_eq:
  "PublishValidationCache b c s =
     s\<lparr>fs_cache := map_option (fold (\<lambda>e. Publish_version (ev_ref e) (ev_valid_from e) c) (commit_events c b)) (fs_cache s)\<rparr>"
proof (cases "fs_cache s")
  case (Some x)
  have f: "fold (\<lambda>e s. s\<lparr>fs_cache := map_option (Publish_version (ev_ref e) (ev_valid_from e) c) (fs_cache s)\<rparr>) es s =
      s\<lparr>fs_cache := map_option (fold (\<lambda>e. Publish_version (ev_ref e) (ev_valid_from e) c) es) (fs_cache s)\<rparr>"
    for es :: "fact_event list" and s :: fact_store
    by (induction es arbitrary: s) (simp_all add: option.map_comp comp_def option.map_id0)
  have "snd (VisitCommitFacts b (publish_cached_fact c) s) =
      fold (\<lambda>e s. s\<lparr>fs_cache := map_option (Publish_version (ev_ref e) (ev_valid_from e) c) (fs_cache s)\<rparr>) (commit_events c b) s"
    by (rule VisitCommitFacts_always [where g = "\<lambda>r v s. s\<lparr>fs_cache := map_option (Publish_version r v c) (fs_cache s)\<rparr>"])
      (simp add: publish_cached_fact_def)
  with Some show ?thesis unfolding PublishValidationCache_def f by simp
qed (simp add: PublishValidationCache_def)

lemma recent_published:
  assumes "recent_sound m x" "set (events_of m') = set (events_of m) \<union> set es"
    "\<forall>e \<in> set es. FactRef_Validate (ev_ref e) = OK \<and> ev_commit_seq e = c" "c \<noteq> 0"
  shows "recent_sound m' (publish_all (map (\<lambda>e. (ev_ref e, c)) es) x)"
proof -
  obtain c0 H where H: "recent_ok c0 H x"
    "\<forall>e \<in> set (events_of m). ev_commit_seq e \<le> c0 \<or> (IdentityOf (ev_ref e), ev_commit_seq e) \<in> H"
    using assms(1) by (auto simp: recent_sound_def)
  define H' where "H' = H \<union> {(IdentityOf r, q) | r q. (r, q) \<in> set (map (\<lambda>e. (ev_ref e, c)) es) \<and>
    FactRef_Validate r = OK \<and> q \<noteq> 0}"
  have "recent_ok c0 H' (publish_all (map (\<lambda>e. (ev_ref e, c)) es) x)"
    unfolding H'_def by (rule publish_all_ok [OF H(1)])
  moreover have "ev_commit_seq e \<le> c0 \<or> (IdentityOf (ev_ref e), ev_commit_seq e) \<in> H'" if "e \<in> set (events_of m')" for e
    using that H(2) assms(2-4) unfolding H'_def by auto
  ultimately show ?thesis unfolding recent_sound_def by blast
qed

lemma history_published:
  assumes "history_sound m h" "set (events_of m') = set (events_of m) \<union> set es"
  shows "history_sound m' (fold Publish_identity (map ev_ref es) h)"
  using assms history.ready_fold [of h "map ev_ref es"] history.test_fold_mono [of h _ "map ev_ref es"]
    history.no_false_negative [of h _ "map ev_ref es"]
  unfolding history_sound_def by auto

lemma cache_published:
  assumes "cache_sound m x" "set (events_of m') = set (events_of m) \<union> set es"
    "\<forall>e \<in> set es. FactRef_Validate (ev_ref e) = OK \<and> ev_commit_seq e = c" "c \<noteq> 0"
  shows "cache_sound m' (fold (\<lambda>e. Publish_version (ev_ref e) (ev_valid_from e) c) es x)"
proof -
  let ?h = "\<lambda>e. (IdentityOf (ev_ref e), ev_valid_from e, ev_commit_seq e)"
  have "cache_ok (P \<union> ?h ` set fs) W (fold (\<lambda>e. Publish_version (ev_ref e) (ev_valid_from e) c) fs y)"
    if "cache_ok P W y" "set fs \<subseteq> set es" "?h ` set fs \<subseteq> W" for P W fs y
    using that
  proof (induction fs arbitrary: P y)
    case (Cons e fs)
    have "cache_ok (insert (?h e) P) W (Publish_version (ev_ref e) (ev_valid_from e) c y)"
      using Publish_version_ok [OF Cons.prems(1), of "ev_ref e" "ev_valid_from e" c] Cons.prems(2,3) assms(3,4) by auto
    from Cons.IH [OF this] Cons.prems(2,3) show ?case by simp
  qed simp
  moreover have "cache_ok (history_of m) (history_of m') x"
    using cache_ok_grow [of "history_of m" "history_of m" x "history_of m" "history_of m'"] assms(1,2)
    by (auto simp: cache_sound_def history_of_def)
  moreover have "history_of m' = history_of m \<union> ?h ` set es" using assms(2) by (auto simp: history_of_def)
  ultimately show ?thesis unfolding cache_sound_def by simp
qed

section \<open>The write\<close>

locale write_engine =
  fixes engine :: engine
  assumes written: "engine sync db wb = (RocksOk, db') \<Longrightarrow> db' = apply_batch wb db"
    and rejected: "engine sync db wb = (RocksError code msg, db') \<Longrightarrow>
      code = RocksInvalidArgument \<or> code = RocksNotSupported \<Longrightarrow> db' = db"
    and atomic: "engine sync db wb = (status, db') \<Longrightarrow> db' = db \<or> db' = apply_batch wb db"

text \<open>The engine of the storage contract, and one whose write is lost after a failure.\<close>

definition kv_engine :: engine where
  "kv_engine sync db wb = (RocksOk, apply_batch wb db)"

definition failing_engine :: "bool \<Rightarrow> engine" where
  "failing_engine durable sync db wb = (RocksError RocksOther ''IO error'', if durable then apply_batch wb db else db)"

interpretation kv_engine: write_engine kv_engine
  by unfold_locales (simp_all add: kv_engine_def)

interpretation failing_engine: write_engine "failing_engine durable" for durable
  by unfold_locales (auto simp: failing_engine_def)

lemma next_seq:
  assumes "v \<noteq> max_seq"
  shows "v < v + 1" "v + 1 \<noteq> 0"
proof -
  have "unat v \<noteq> unat (- 1 :: u64)" using assms by (metis max_seq_def unsigned_word_eqI)
  then have "unat v \<noteq> 18446744073709551615" by simp
  then have u: "unat v < 18446744073709551615" using unat_less_2p64 [of v] by linarith
  then have "unat (v + 1) = unat v + 1" by (simp add: unat_word_ariths)
  then show "v < v + 1" "v + 1 \<noteq> 0" by (auto simp: word_less_nat_alt)
qed

lemma encode_keys_ok:
  assumes "\<forall>m \<in> set ms. FactRef_Validate (mu_ref m) = OK" "c \<noteq> 0"
  shows "encode_keys c ms = Inr (map (\<lambda>m. EncodeFactKey (mu_ref m) (mu_valid_from m) c) ms)"
  using assms by (induction ms) (simp_all add: EncodeFactKey_not_Nil)

lemma assemble_commit_Inr:
  assumes "batch_ok b" "c \<noteq> 0"
  shows "assemble_commit opts c b prepared_key = Inr wb \<longleftrightarrow>
    (\<exists>wb0 wv. AppendCandidateToWriteBatch (candidate_of c b) [] = (OK, wb0) \<and> EncodeWatermark c = Inr wv \<and>
       wb = wb0 @ Put MetaCf EncodeVisibleWatermarkKey wv # prepared_delete prepared_key \<and>
       CheckCommittedBatchSize (so_cf_id opts) wb (so_max_batch_bytes opts) = OK)"
proof -
  have "\<forall>m \<in> set (cb_mutations b). FactRef_Validate (mu_ref m) = OK"
    using assms(1) mutation_valid_ref by (simp add: batch_ok_def)
  then have "encode_keys c (cb_mutations b) = Inr (cd_fact_keys (candidate_of c b))"
    using assms(2) by (simp add: encode_keys_ok candidate_of_def)
  moreover have "\<lparr>cd_batch = b, cd_commit_seq = c, cd_fact_keys = cd_fact_keys (candidate_of c b)\<rparr> = candidate_of c b"
    by (simp add: candidate_of_def)
  moreover obtain st wb0 where "AppendCandidateToWriteBatch (candidate_of c b) [] = (st, wb0)" by fastforce
  ultimately show ?thesis
    by (cases st) (auto simp: assemble_commit_def sbind_Inr_iff Let_def)
qed

lemma apply_meta_only_facts:
  "\<forall>op \<in> set ops. case op of Put cf k v \<Rightarrow> cf = MetaCf | Delete cf k \<Rightarrow> cf = MetaCf \<Longrightarrow>
   db_facts (apply_batch ops db) = db_facts db"
proof (induction ops arbitrary: db)
  case (Cons op ops)
  then show ?case by (cases op) (simp_all add: apply_batch_def)
qed (simp add: apply_batch_def)

lemma assembled_effect:
  assumes "batch_ok b" "c \<noteq> 0" "assemble_commit opts c b prepared_key = Inr wb" "facts_ok (db_facts db)"
    "\<forall>e \<in> set (events_of (db_facts db)). ev_commit_seq e \<noteq> c" "kv_sorted (db_meta db)"
  shows "facts_ok (db_facts (apply_batch wb db))"
    "set (events_of (db_facts (apply_batch wb db))) = set (events_of (db_facts db)) \<union> set (commit_events c b)"
    "kv_sorted (db_meta (apply_batch wb db))"
    "\<forall>e \<in> set (commit_events c b). storable e"
proof -
  obtain wb0 wv where wb0: "AppendCandidateToWriteBatch (candidate_of c b) [] = (OK, wb0)"
    and wb: "wb = wb0 @ Put MetaCf EncodeVisibleWatermarkKey wv # prepared_delete prepared_key"
    using assms(3) unfolding assemble_commit_Inr [OF assms(1,2)] by blast
  have "db_facts (apply_batch wb db) = db_facts (apply_batch wb0 db)"
    unfolding wb apply_batch_append
    by (rule apply_meta_only_facts) (auto simp: prepared_delete_def split: option.splits)
  with commit_effect [OF assms(1,2,4,5) wb0]
  show "facts_ok (db_facts (apply_batch wb db))"
    "set (events_of (db_facts (apply_batch wb db))) = set (events_of (db_facts db)) \<union> set (commit_events c b)"
    by simp_all
  show "kv_sorted (db_meta (apply_batch wb db))"
    using apply_batch_ok [of db wb] assms(4,6) by (simp add: db_ok_def facts_ok_def)
  show "\<forall>e \<in> set (commit_events c b). storable e"
    using wb0 AppendCandidate_OK [OF assms(1,2), of "[]" wb0] by blast
qed

text \<open>Publishing a batch that the database already holds restores the invariant.\<close>

definition publish_batch :: "store_commit_batch \<Rightarrow> commit_seq \<Rightarrow> fact_store \<Rightarrow> fact_store" where
  "publish_batch b c s = PublishValidationCache b c (PublishRecentFactWriteIndex b c s)"

lemma publish_batch_eq:
  "publish_batch b c s =
     s\<lparr>fs_recent := map_option (publish_all (map (\<lambda>e. (ev_ref e, c)) (commit_events c b))) (fs_recent s),
       fs_history := map_option (fold Publish_identity (map ev_ref (commit_events c b))) (fs_history s),
       fs_cache := map_option (fold (\<lambda>e. Publish_version (ev_ref e) (ev_valid_from e) c) (commit_events c b)) (fs_cache s)\<rparr>"
  by (simp add: publish_batch_def PublishCache_eq PublishRecent_eq)

lemma publish_step:
  assumes "store_ok s" "batch_ok b" "fs_visible s \<noteq> max_seq" "facts_ok (db_facts db)" "kv_sorted (db_meta db)"
    "set (events_of (db_facts db)) = set (events_of (db_facts (fs_db s))) \<union> set (commit_events (fs_visible s + 1) b)"
  shows "store_ok (PublishVisible (fs_visible s + 1) (publish_batch b (fs_visible s + 1) (s\<lparr>fs_db := db\<rparr>)))"
proof -
  let ?c = "fs_visible s + 1" and ?es = "commit_events (fs_visible s + 1) b"
  note c = next_seq [OF assms(3)]
  have es: "\<forall>e \<in> set ?es. FactRef_Validate (ev_ref e) = OK \<and> ev_commit_seq e = ?c"
    using commit_events_valid [OF assms(2) c(2)] by blast
  have aids: "pred_option (recent_sound (db_facts (fs_db s))) (fs_recent s)"
    "pred_option (history_sound (db_facts (fs_db s))) (fs_history s)"
    "pred_option (cache_sound (db_facts (fs_db s))) (fs_cache s)"
    "\<forall>e \<in> set (events_of (db_facts (fs_db s))). ev_commit_seq e \<le> fs_visible s"
    using assms(1) by (simp_all add: store_ok_def)
  have "pred_option (recent_sound (db_facts db)) (map_option (publish_all (map (\<lambda>e. (ev_ref e, ?c)) ?es)) (fs_recent s))"
    using aids(1) recent_published [OF _ assms(6) es c(2)] by (cases "fs_recent s") simp_all
  moreover have "pred_option (history_sound (db_facts db)) (map_option (fold Publish_identity (map ev_ref ?es)) (fs_history s))"
    using aids(2) history_published [OF _ assms(6)] by (cases "fs_history s") simp_all
  moreover have "pred_option (cache_sound (db_facts db))
      (map_option (fold (\<lambda>e. Publish_version (ev_ref e) (ev_valid_from e) ?c) ?es) (fs_cache s))"
    using aids(3) cache_published [OF _ assms(6) es c(2)] by (cases "fs_cache s") simp_all
  moreover have "\<forall>e \<in> set (events_of (db_facts db)). ev_commit_seq e \<le> ?c"
    unfolding assms(6) using aids(4) es c(1) by (auto intro: order_trans less_imp_le)
  ultimately show ?thesis using assms(4,5) by (simp add: store_ok_def PublishVisible_def publish_batch_eq)
qed

context write_engine
begin

lemma write_commit_Inr:
  assumes "store_ok s" "batch_ok b" "write_commit opts engine sync b prepared_key s = (Inr result, s')"
  shows "fs_visible s \<noteq> max_seq" "result = \<lparr>cr_commit_seq = fs_visible s + 1, cr_system_hlc = cb_system_hlc b\<rparr>"
    "\<exists>wb. assemble_commit opts (fs_visible s + 1) b prepared_key = Inr wb \<and> fs_db s' = apply_batch wb (fs_db s)"
    "store_ok s'" "fs_visible s' = fs_visible s + 1"
    "fs_recovery s' = fs_recovery s" "fs_retention s' = fs_retention s"
    "set (events_of (db_facts (fs_db s'))) =
       set (events_of (db_facts (fs_db s))) \<union> set (commit_events (fs_visible s + 1) b)"
proof -
  let ?c = "fs_visible s + 1" and ?es = "commit_events (fs_visible s + 1) b"
  show v: "fs_visible s \<noteq> max_seq" using assms(3) by (auto simp: write_commit_def)
  note c = next_seq [OF v]
  obtain wb db where wb: "assemble_commit opts ?c b prepared_key = Inr wb"
    and db: "engine sync (fs_db s) wb = (RocksOk, db)"
    and r: "result = \<lparr>cr_commit_seq = ?c, cr_system_hlc = cb_system_hlc b\<rparr>"
    and s': "s' = PublishVisible ?c (PublishValidationCache b ?c (PublishRecentFactWriteIndex b ?c (s\<lparr>fs_db := db\<rparr>)))"
    using assms(3) v
    by (auto simp: write_commit_def Let_def split: sum.splits prod.splits rocks_status.splits)
  show "result = \<lparr>cr_commit_seq = ?c, cr_system_hlc = cb_system_hlc b\<rparr>" by (rule r)
  have db': "db = apply_batch wb (fs_db s)" by (rule written [OF db])
  show "\<exists>wb. assemble_commit opts ?c b prepared_key = Inr wb \<and> fs_db s' = apply_batch wb (fs_db s)"
    using wb db' by (simp add: s' PublishVisible_def PublishCache_eq PublishRecent_eq)
  have old: "facts_ok (db_facts (fs_db s))" "kv_sorted (db_meta (fs_db s))"
    "\<forall>e \<in> set (events_of (db_facts (fs_db s))). ev_commit_seq e \<le> fs_visible s"
    using assms(1) by (simp_all add: store_ok_def)
  then have "\<forall>e \<in> set (events_of (db_facts (fs_db s))). ev_commit_seq e \<noteq> ?c" using c(1) by fastforce
  note eff = assembled_effect [OF assms(2) c(2) wb old(1) this old(2), folded db']
  show "store_ok s'"
    using publish_step [OF assms(1,2) v eff(1,3,2)] by (simp add: s' publish_batch_def)
  show "fs_visible s' = ?c" "fs_recovery s' = fs_recovery s" "fs_retention s' = fs_retention s"
    "set (events_of (db_facts (fs_db s'))) = set (events_of (db_facts (fs_db s))) \<union> set ?es"
    using eff(2) by (simp_all add: s' PublishVisible_def PublishCache_eq PublishRecent_eq)
qed

lemma write_commit_Inl:
  assumes "write_commit opts engine sync b prepared_key s = (Inl e, s')"
  shows "s' = s \<or> (error_code e = kIndeterminate \<and> fs_recovery s' \<and>
    (\<exists>db. s' = s\<lparr>fs_db := db, fs_recovery := True\<rparr> \<and>
       (db = fs_db s \<or> (\<exists>wb. assemble_commit opts (fs_visible s + 1) b prepared_key = Inr wb \<and> db = apply_batch wb (fs_db s)))))"
proof (cases "fs_visible s = max_seq")
  case True
  with assms show ?thesis by (simp add: write_commit_def)
next
  case False
  show ?thesis
  proof (cases "assemble_commit opts (fs_visible s + 1) b prepared_key")
    case (Inl e')
    with assms False show ?thesis by (simp add: write_commit_def)
  next
    case (Inr wb)
    obtain code msg db where w: "engine sync (fs_db s) wb = (RocksError code msg, db)"
      using assms False Inr by (auto simp: write_commit_def Let_def split: prod.splits rocks_status.splits)
    show ?thesis
    proof (cases "code = RocksInvalidArgument \<or> code = RocksNotSupported")
      case True
      have db: "db = fs_db s" by (rule rejected [OF w True])
      have "s' = s\<lparr>fs_db := db, fs_recovery := fs_recovery s\<rparr>"
        using assms False Inr w True by (auto simp: write_commit_def Status_init_def)
      with db show ?thesis by simp
    next
      case ind: False
      then have "FromCommitWriteFailure (RocksError code msg) = Inl (Status_init kIndeterminate ''commit fact store batch'' msg)"
        by (cases code) simp_all
      with assms False Inr w have "e = Status_init kIndeterminate ''commit fact store batch'' msg"
        "s' = s\<lparr>fs_db := db, fs_recovery := True\<rparr>"
        by (auto simp: write_commit_def Status_init_def)
      with atomic [OF w] Inr show ?thesis by (auto simp: Status_init_def)
    qed
  qed
qed

end

section \<open>The whole commit\<close>

text \<open>What a commit of a new transaction has established when it succeeds.\<close>

definition isolated :: "fact_store \<Rightarrow> store_commit_batch \<Rightarrow> bool" where
  "isolated s b \<longleftrightarrow>
     (\<forall>d \<in> set (cb_snapshot_deps b). sw_snapshot_seq d \<le> fs_visible s \<and>
        (\<forall>e. \<not> conflicting_event (facts_of (db_facts (fs_db s)) (sw_ref d)) d e)) \<and>
     ValidateStrictReadDependencies (store_aids s) (db_facts (fs_db s)) (fs_visible s) (cb_strict_deps b) = OK \<and>
     ValidateEdgeIdentitiesForCommit (db_facts (fs_db s)) b = OK"

lemma batch_dep_refs:
  assumes "batch_ok b"
  shows "\<forall>d \<in> set (cb_snapshot_deps b). FactRef_Validate (sw_ref d) = OK"
    "\<forall>d \<in> set (cb_strict_deps b). FactRef_Validate (st_ref d) = OK"
  using assms snapshot_dep_valid_ref strict_dep_valid_ref by (auto simp: batch_ok_def)

lemma store_aids_same:
  "same_but_cache s s' \<Longrightarrow> ValidateStrictReadDependencies (store_aids s') m v ds = ValidateStrictReadDependencies (store_aids s) m v ds"
proof -
  assume "same_but_cache s s'"
  then have might: "aid_might (store_aids s') = aid_might (store_aids s)"
    by (simp add: store_aids_def same_but_cache_fields)
  show ?thesis
  proof (induction ds)
    case (Cons d ds)
    show ?case unfolding ValidateStrictReadDependencies.simps might Cons.IH by (rule refl)
  qed simp
qed

lemma validations:
  assumes "store_ok s" "batch_ok b"
  obtains r s' where "validate_snapshot_writes (cb_snapshot_deps b) s = (r, s')" "store_ok s'" "same_but_cache s s'"
    "r = OK \<and> validate_strict_reads (cb_strict_deps b) s' = OK \<and> validate_identities b s' = OK \<longleftrightarrow> isolated s b"
proof -
  let ?m = "db_facts (fs_db s)"
  have f: "facts_ok ?m" using assms(1) by (simp add: store_ok_def)
  obtain s' where s': "validate_snapshot_writes (cb_snapshot_deps b) s =
      (ValidateSnapshotWriteDependencies (store_aids s) ?m (fs_visible s) (cb_snapshot_deps b), s')"
    "store_ok s'" "same_but_cache s s'"
    using validate_snapshot_writes_ok [OF assms(1) batch_dep_refs(1) [OF assms(2)]] by blast
  note same = same_but_cache_fields [OF s'(3)]
  note snap = sound_aids.snapshot_validation(1) [OF store_aids_sound [OF assms(1)] f batch_dep_refs(1) [OF assms(2)], of "fs_visible s"]
  have "validate_strict_reads (cb_strict_deps b) s' =
      ValidateStrictReadDependencies (store_aids s) ?m (fs_visible s) (cb_strict_deps b)"
    using store_aids_same [OF s'(3)] same by (simp add: validate_strict_reads_def)
  moreover have "validate_identities b s' = ValidateEdgeIdentitiesForCommit ?m b"
    using same by (simp add: validate_identities_def)
  ultimately show thesis using that [OF s'] snap by (simp add: isolated_def)
qed

lemma commit_new_cases:
  assumes "store_ok s" "batch_ok b"
  obtains
    (failed) e s' where "commit_new opts engine sync b prepared_key s = (Inl e, s')" "store_ok s'" "same_but_cache s s'"
      "\<not> isolated s b"
  | (validated) s' where "commit_new opts engine sync b prepared_key s = write_commit opts engine sync b prepared_key s'"
      "store_ok s'" "same_but_cache s s'" "isolated s b"
proof -
  obtain r s' where s': "validate_snapshot_writes (cb_snapshot_deps b) s = (r, s')" "store_ok s'" "same_but_cache s s'"
    and iso: "r = OK \<and> validate_strict_reads (cb_strict_deps b) s' = OK \<and> validate_identities b s' = OK \<longleftrightarrow> isolated s b"
    by (rule validations [OF assms])
  show ?thesis
  proof (cases "isolated s b")
    case True
    with iso s'(1) have "commit_new opts engine sync b prepared_key s = write_commit opts engine sync b prepared_key s'"
      by (simp add: commit_new_def)
    with validated s'(2,3) True show ?thesis by blast
  next
    case False
    with iso s'(1) have "\<exists>e. commit_new opts engine sync b prepared_key s = (Inl e, s')"
      by (auto simp: commit_new_def split: sum.splits)
    with failed s'(2,3) False show ?thesis by blast
  qed
qed

lemma write_commit_same:
  assumes "same_but_cache s s'" "write_commit opts engine sync b prepared_key s' = (result, t')"
  shows "fs_visible s' = fs_visible s" "fs_db s' = fs_db s"
  using same_but_cache_fields [OF assms(1)] by simp_all

lemma isolated_stable:
  assumes "store_ok s" "batch_ok b" "fs_visible s \<noteq> max_seq" "isolated s b"
  shows "(\<forall>d \<in> set (cb_snapshot_deps b). \<forall>e. \<not> conflicting_event (facts_of (db_facts (fs_db s)) (sw_ref d)) d e) \<and>
    (\<forall>d \<in> set (cb_strict_deps b). \<forall>e.
       governs (facts_of (db_facts (fs_db s)) (st_ref d)) (st_snapshot_seq d) (st_valid_time d) e \<longleftrightarrow>
       governs (facts_of (db_facts (fs_db s)) (st_ref d)) (fs_visible s) (st_valid_time d) e)"
proof -
  have f: "facts_ok (db_facts (fs_db s))" and le: "\<forall>e \<in> set (events_of (db_facts (fs_db s))). ev_commit_seq e \<le> fs_visible s"
    using assms(1) by (simp_all add: store_ok_def)
  have "ev_commit_seq e \<noteq> max_seq" if "e \<in> set (facts_of (db_facts (fs_db s)) r)" for e r
    using that le next_seq(1) [OF assms(3)] assms(3) word_order.extremum_unique [of "fs_visible s"]
    by (auto simp: facts_of_def max_seq_def)
  then have "\<forall>d \<in> set (cb_strict_deps b). FactRef_Validate (st_ref d) = OK \<and>
      (\<forall>e \<in> set (facts_of (db_facts (fs_db s)) (st_ref d)). ev_commit_seq e \<noteq> max_seq)"
    using batch_dep_refs(2) [OF assms(2)] by blast
  with strict_stable [OF store_aids_sound [OF assms(1)] f] assms(4) show ?thesis unfolding isolated_def by blast
qed

definition new_transaction :: "store_commit_batch \<Rightarrow> fact_store \<Rightarrow> bool" where
  "new_transaction b s \<longleftrightarrow>
     cb_fresh b \<or> kv_get (db_meta (fs_db s)) (ascii ''txn/'' @ AppendU64 (cb_txn_id b)) = None"

lemma commit_locked_new:
  assumes "commit_locked opts engine sync b prepared_key s = (result, s')" "new_transaction b s" "cb_txn_id b \<noteq> 0"
  obtains "s' = s" "\<exists>e. result = Inl e"
  | "\<not> fs_recovery s" "check_prepare b prepared_key s = OK" "commit_new opts engine sync b prepared_key s = (result, s')"
proof (cases "fs_recovery s \<or> check_prepare b prepared_key s \<noteq> OK")
  case True
  then consider "fs_recovery s" | e where "\<not> fs_recovery s" "check_prepare b prepared_key s = Inl e"
    by (cases "check_prepare b prepared_key s") auto
  then have "s' = s \<and> (\<exists>e. result = Inl e)"
    using assms(1) by cases (auto simp: commit_locked_def)
  with that(1) show ?thesis by blast
next
  case False
  then have "commit_new opts engine sync b prepared_key s = (result, s')"
    using assms by (auto simp: commit_locked_def new_transaction_def EncodeTransactionMetaKey_def split: option.splits if_splits)
  with False that(2) show ?thesis by simp
qed

lemma CommitDirect_Some: "\<exists>result t. CommitDirect opts engine sync b prepared_key (Some s) = (result, Some t)"
  by (cases "commit_locked opts engine sync b prepared_key s") (simp add: CommitDirect_def split: sum.split)

lemma CommitDirect_open:
  assumes "CommitDirect opts engine sync b prepared_key (Some s) = (result, Some s')"
  obtains "s' = s" "\<exists>e. result = Inl e"
  | "batch_ok b" "EstimateCommitBatchBytes b \<le> so_max_batch_bytes opts"
    "commit_locked opts engine sync b prepared_key s = (result, s')"
proof (cases "StoreCommitBatch_Validate b")
  case (Inl e)
  with assms that(1) show ?thesis by (auto simp: CommitDirect_def)
next
  case (Inr u)
  then have "batch_ok b" by (simp add: batch_ok_iff flip: unit_eq)
  with assms Inr that show ?thesis
    by (cases "commit_locked opts engine sync b prepared_key s") (auto simp: CommitDirect_def not_less split: if_splits)
qed

section \<open>Reading after a commit\<close>

lemma governs_unaffected:
  assumes "set es' = set es \<union> N" "\<forall>e \<in> N. snap < ev_commit_seq e"
  shows "governs es' snap t e \<longleftrightarrow> governs es snap t e"
proof -
  have "set (visible es' snap) = set (visible es snap)" using assms by (auto simp: visible_def)
  then show ?thesis by (simp add: governs_def)
qed

lemma Read_determined:
  assumes "facts_ok m" "facts_ok m'" "FactRef_Validate r = OK"
    "\<And>e. governs (facts_of m' r) snap' t e \<longleftrightarrow> governs (facts_of m r) snap t e"
  shows "FactStore_Read m' snap' r t = FactStore_Read m snap r t"
proof -
  obtain x y where x: "FactStore_Read m' snap' r t = Inr x"
      "\<forall>e. x = Some e \<longleftrightarrow> governs (facts_of m' r) snap' t e \<and> ev_operation e = kPut"
    and y: "FactStore_Read m snap r t = Inr y" "\<forall>e. y = Some e \<longleftrightarrow> governs (facts_of m r) snap t e \<and> ev_operation e = kPut"
    using FactStore_Read_governs [OF assms(1,3), of snap t] FactStore_Read_governs [OF assms(2,3), of snap' t] by blast
  have "x = y" using x(2) y(2) assms(4) by (metis not_Some_eq)
  with x(1) y(1) show ?thesis by simp
qed

lemma read_new_event:
  assumes "facts_ok m'" "e \<in> set (events_of m')" "ev_commit_seq e = snap"
    "\<forall>f \<in> set (events_of m'). ev_commit_seq f \<le> snap"
  shows "FactStore_Read m' snap (ev_ref e) (ev_valid_from e) = Inr (if ev_operation e = kPut then Some e else None)"
proof -
  have r: "FactRef_Validate (ev_ref e) = OK" using assms(1,2) facts_ok_events(2) storable_parts by blast
  have "governs (facts_of m' (ev_ref e)) snap (ev_valid_from e) f \<longleftrightarrow> f = e" for f
  proof -
    have "e \<in> set (visible (facts_of m' (ev_ref e)) snap)" using assms by (simp add: visible_def facts_of_def)
    moreover have "chain_key f \<le> chain_key e"
      if "f \<in> set (visible (facts_of m' (ev_ref e)) snap)" "ev_valid_from f \<le> ev_valid_from e" for f
      using that assms(3) by (auto simp: visible_def facts_of_def chain_key_def less_eq_prod_def)
    moreover have "f = e" if "f \<in> set (visible (facts_of m' (ev_ref e)) snap)" "chain_key f = chain_key e" for f
      using that facts_ok_key_unique [OF assms(1), of f e] assms(2) by (auto simp: visible_def facts_of_def)
    ultimately show ?thesis unfolding governs_def by (metis order_refl order_antisym)
  qed
  with FactStore_Read_governs [OF assms(1) r, of snap "ev_valid_from e"] show ?thesis
    by (metis (full_types) not_Some_eq)
qed

section \<open>Properties\<close>

lemma commit_facts:
  assumes "write_engine engine" "store_ok s" "new_transaction b s"
    "CommitDirect opts engine sync b prepared_key (Some s) = (Inr result, Some s')"
  shows "batch_ok b" "isolated s b" "\<not> fs_recovery s" "fs_visible s \<noteq> max_seq" "store_ok s'"
    "result = \<lparr>cr_commit_seq = fs_visible s + 1, cr_system_hlc = cb_system_hlc b\<rparr>"
    "fs_visible s' = fs_visible s + 1" "fs_recovery s' = fs_recovery s" "fs_retention s' = fs_retention s"
    "\<exists>wb. assemble_commit opts (fs_visible s + 1) b prepared_key = Inr wb \<and> fs_db s' = apply_batch wb (fs_db s)"
    "set (events_of (db_facts (fs_db s'))) =
       set (events_of (db_facts (fs_db s))) \<union> set (commit_events (fs_visible s + 1) b)"
proof -
  obtain b': "batch_ok b" and lock: "commit_locked opts engine sync b prepared_key s = (Inr result, s')"
    using assms(4) by (rule CommitDirect_open) simp_all
  have "cb_txn_id b \<noteq> 0" using b' by (simp add: batch_ok_def)
  from lock assms(3) this obtain rec: "\<not> fs_recovery s"
    and new: "commit_new opts engine sync b prepared_key s = (Inr result, s')"
    by (rule commit_locked_new) simp_all
  obtain t where t: "write_commit opts engine sync b prepared_key t = (Inr result, s')" "store_ok t"
    "same_but_cache s t" "isolated s b"
    using commit_new_cases [OF assms(2) b', of opts engine sync prepared_key] new by (metis Pair_inject sum.distinct(2))
  note same = same_but_cache_fields [OF t(3)]
  note w = write_engine.write_commit_Inr [OF assms(1) t(2) b' t(1)]
  show "batch_ok b" "isolated s b" "\<not> fs_recovery s" by (fact b' t(4) rec)+
  show "fs_visible s \<noteq> max_seq" "store_ok s'"
    "result = \<lparr>cr_commit_seq = fs_visible s + 1, cr_system_hlc = cb_system_hlc b\<rparr>"
    "fs_visible s' = fs_visible s + 1" "fs_recovery s' = fs_recovery s" "fs_retention s' = fs_retention s"
    "\<exists>wb. assemble_commit opts (fs_visible s + 1) b prepared_key = Inr wb \<and> fs_db s' = apply_batch wb (fs_db s)"
    "set (events_of (db_facts (fs_db s'))) =
       set (events_of (db_facts (fs_db s))) \<union> set (commit_events (fs_visible s + 1) b)"
    using w unfolding same by blast+
qed

text \<open>
  C1: a successful commit publishes exactly its batch. Whatever the engine does within its
  contract, when \<^verbatim>\<open>CommitDirect\<close> returns a result for a new transaction, the commit sequence is
  the next one and is visible, the store holds the old events and exactly the events of the
  batch at that sequence, and the store with all its accelerators is again consistent.
\<close>

theorem commit_publishes:
  assumes "write_engine engine" "store_ok s" "new_transaction b s"
    "CommitDirect opts engine sync b prepared_key (Some s) = (Inr result, Some s')"
  shows "store_ok s' \<and> fs_visible s < fs_visible s' \<and> fs_visible s' = fs_visible s + 1 \<and>
    result = \<lparr>cr_commit_seq = fs_visible s', cr_system_hlc = cb_system_hlc b\<rparr> \<and>
    set (events_of (db_facts (fs_db s'))) = set (events_of (db_facts (fs_db s))) \<union> set (commit_events (fs_visible s') b)"
  using commit_facts [OF assms] next_seq(1) [of "fs_visible s"] by simp

text \<open>
  C2: commits are isolated. When \<^verbatim>\<open>CommitDirect\<close> succeeds for a new transaction, no event in
  the store conflicts with a snapshot write dependency its batch declares, and every strict
  read the batch declares sees at the moment of the commit what it saw at its snapshot.
\<close>

theorem commit_isolated:
  assumes "write_engine engine" "store_ok s" "new_transaction b s"
    "CommitDirect opts engine sync b prepared_key (Some s) = (Inr result, Some s')"
  shows "(\<forall>d \<in> set (cb_snapshot_deps b). \<forall>e. \<not> conflicting_event (facts_of (db_facts (fs_db s)) (sw_ref d)) d e) \<and>
    (\<forall>d \<in> set (cb_strict_deps b). \<forall>e.
       governs (facts_of (db_facts (fs_db s)) (st_ref d)) (st_snapshot_seq d) (st_valid_time d) e \<longleftrightarrow>
       governs (facts_of (db_facts (fs_db s)) (st_ref d)) (fs_visible s) (st_valid_time d) e)"
  using isolated_stable [OF assms(2) commit_facts(1) [OF assms] commit_facts(4) [OF assms] commit_facts(2) [OF assms]] .

text \<open>
  C3: commits are visible at once and never change the past. After the successful commit of a
  new transaction every read at an older snapshot returns what it returned before, and a read of a written fact at
  its valid time and the new sequence returns the written event, or nothing for a DELETE.
\<close>

theorem commit_reads:
  assumes "write_engine engine" "store_ok s" "new_transaction b s"
    "CommitDirect opts engine sync b prepared_key (Some s) = (Inr result, Some s')"
    "FactRef_Validate r = OK" "snap \<le> fs_visible s" "m \<in> set (cb_mutations b)"
  shows "FactStore_Read (db_facts (fs_db s')) snap r t = FactStore_Read (db_facts (fs_db s)) snap r t \<and>
    FactStore_Read (db_facts (fs_db s')) (cr_commit_seq result) (mu_ref m) (mu_valid_from m) =
      Inr (if mu_operation m = kPut then Some (event_of_mutation (cr_commit_seq result) m) else None)"
proof -
  note c = commit_facts [OF assms(1-4)]
  let ?m = "db_facts (fs_db s)" and ?m' = "db_facts (fs_db s')" and ?c = "fs_visible s + 1"
  have f: "facts_ok ?m" "facts_ok ?m'" using assms(2) c(5) by (simp_all add: store_ok_def)
  let ?N = "{e \<in> set (commit_events ?c b). ev_ref e = r}"
  have "set (facts_of ?m' r) = set (facts_of ?m r) \<union> ?N" using c(11) by (auto simp: facts_of_def)
  moreover have "\<forall>e \<in> ?N. snap < ev_commit_seq e"
    using commit_events_valid(2) [OF c(1) next_seq(2) [OF c(4)]] next_seq(1) [OF c(4)] assms(6) by fastforce
  ultimately have old: "FactStore_Read ?m' snap r t = FactStore_Read ?m snap r t"
    using governs_unaffected by (intro Read_determined [OF f assms(5)]) blast
  let ?e = "event_of_mutation ?c m"
  have "?e \<in> set (events_of ?m')" using c(11) assms(7) by (simp add: commit_events_def)
  moreover have "\<forall>f \<in> set (events_of ?m'). ev_commit_seq f \<le> ?c" using c(5,7) by (simp add: store_ok_def)
  moreover have "ev_commit_seq ?e = ?c" by (simp add: event_of_mutation_def)
  ultimately have "FactStore_Read ?m' ?c (ev_ref ?e) (ev_valid_from ?e) = Inr (if ev_operation ?e = kPut then Some ?e else None)"
    by (intro read_new_event [OF f(2)])
  then show ?thesis using old c(6) by (simp add: event_of_mutation_def)
qed

text \<open>A commit that nothing stands in the way of goes through.\<close>

definition admissible :: "store_options \<Rightarrow> store_commit_batch \<Rightarrow> fact_store \<Rightarrow> bool" where
  "admissible opts b s \<longleftrightarrow>
     StoreCommitBatch_Validate b = OK \<and> EstimateCommitBatchBytes b \<le> so_max_batch_bytes opts \<and>
     so_cf_id opts FactsCf < 128 \<and> so_cf_id opts MetaCf < 128 \<and>
     \<not> fs_recovery s \<and> new_transaction b s \<and> isolated s b \<and> fs_visible s \<noteq> max_seq \<and>
     list_all storable (commit_events (fs_visible s + 1) b) \<and>
     22 + 23 * length (commit_events (fs_visible s + 1) b) \<le> kMaxPayloadBytes"

lemma assemble_succeeds:
  assumes "batch_ok b" "c \<noteq> 0" "EstimateCommitBatchBytes b \<le> so_max_batch_bytes opts"
    "so_cf_id opts FactsCf < 128" "so_cf_id opts MetaCf < 128"
    "\<forall>e \<in> set (commit_events c b). storable e" "22 + 23 * length (commit_events c b) \<le> kMaxPayloadBytes"
    "\<forall>k. prepared_key = Some k \<longrightarrow> length k \<le> 252"
  shows "\<exists>wb. assemble_commit opts c b prepared_key = Inr wb"
proof -
  obtain wb0 where wb0: "AppendCandidateToWriteBatch (candidate_of c b) [] = (OK, wb0)"
    using AppendCandidate_OK [OF assms(1,2), of "[]"] commit_record_encodes [OF assms(1,2,7)] assms(6) by blast
  have "\<exists>wv. EncodeWatermark c = Inr wv" by (simp add: EncodeWatermark_def EncodeRecord_iff kMaxPayloadBytes_def)
  then obtain wv where wv: "EncodeWatermark c = Inr wv" by blast
  let ?wb = "wb0 @ Put MetaCf EncodeVisibleWatermarkKey wv # prepared_delete prepared_key"
  have "GetDataSize (so_cf_id opts) ?wb \<le> unat (EstimateCommitBatchBytes b)"
    by (rule estimate_covers_batch [OF assms(1,2,4,5) wb0 wv assms(8)])
  then have "CheckCommittedBatchSize (so_cf_id opts) ?wb (so_max_batch_bytes opts) = OK"
    using assms(3) by (simp add: CheckCommittedBatchSize_def word_le_nat_alt)
  with wb0 wv show ?thesis unfolding assemble_commit_Inr [OF assms(1,2)] by blast
qed

lemma commit_goes_through:
  assumes "store_ok s" "admissible opts b s"
  shows "\<exists>result s'. CommitDirect opts kv_engine sync b None (Some s) = (Inr result, Some s')"
proof -
  have b: "batch_ok b" and a: "EstimateCommitBatchBytes b \<le> so_max_batch_bytes opts"
    "so_cf_id opts FactsCf < 128" "so_cf_id opts MetaCf < 128" "\<not> fs_recovery s" "new_transaction b s" "isolated s b"
    "fs_visible s \<noteq> max_seq" "\<forall>e \<in> set (commit_events (fs_visible s + 1) b). storable e"
    "22 + 23 * length (commit_events (fs_visible s + 1) b) \<le> kMaxPayloadBytes"
    using assms(2) by (simp_all add: admissible_def batch_ok_iff list_all_iff)
  obtain t where t: "commit_new opts kv_engine sync b None s = write_commit opts kv_engine sync b None t"
    "store_ok t" "same_but_cache s t"
    using commit_new_cases [OF assms(1) b, of opts kv_engine sync None] a(6) by metis
  note same = same_but_cache_fields [OF t(3)]
  obtain wb where "assemble_commit opts (fs_visible t + 1) b None = Inr wb"
    using assemble_succeeds [OF b next_seq(2) [OF a(7)] a(1-3,8,9), of None] same by auto
  then have "\<exists>result s'. write_commit opts kv_engine sync b None t = (Inr result, s')"
    using a(7) same by (simp add: write_commit_def kv_engine_def Let_def)
  then obtain result s' where new: "commit_new opts kv_engine sync b None s = (Inr result, s')" using t(1) by auto
  have "commit_locked opts kv_engine sync b None s = (Inr result, s')"
    using new a(4,5) b
    by (auto simp: commit_locked_def check_prepare_def new_transaction_def EncodeTransactionMetaKey_def batch_ok_def
        split: option.split)
  moreover have "StoreCommitBatch_Validate b = OK" using b by (simp add: batch_ok_iff)
  ultimately show ?thesis using a(1) by (simp add: CommitDirect_def not_less [symmetric])
qed

lemma isolated_no_deps:
  "cb_snapshot_deps b = [] \<Longrightarrow> cb_strict_deps b = [] \<Longrightarrow> cb_edge_identities b = [] \<Longrightarrow>
   \<forall>m \<in> set (cb_mutations b). ref_family (mu_ref m) \<noteq> kEdgeState \<Longrightarrow> isolated s b"
proof -
  assume a: "cb_snapshot_deps b = []" "cb_strict_deps b = []" "cb_edge_identities b = []"
    "\<forall>m \<in> set (cb_mutations b). ref_family (mu_ref m) \<noteq> kEdgeState"
  have "check_assertions f is ms = OK" if "\<forall>m \<in> set ms. ref_family (mu_ref m) \<noteq> kEdgeState" for f "is" ms
    using that by (induction ms) simp_all
  with a show ?thesis by (simp add: isolated_def ValidateEdgeIdentitiesForCommit_def)
qed

definition sample_store :: fact_store where
  "sample_store =
     \<lparr>fs_db = \<lparr>db_facts = [entry sample_event], db_meta = []\<rparr>, fs_visible = 5, fs_recovery = False, fs_retention = 0,
      fs_recent = None, fs_history = None, fs_cache = None\<rparr>"

definition sample_options :: store_options where
  "sample_options = \<lparr>so_max_batch_bytes = - 1, so_cf_id = (\<lambda>_. 1)\<rparr>"

lemma sample_store_ok: "store_ok sample_store"
  using sample_facts_ok by (simp add: store_ok_def sample_store_def sample_events_of kv_sorted_def) (simp add: sample_event_def)

lemma sample_batch_ok: "batch_ok sample_batch"
  using sample_batch_storable by (simp add: batch_storable_def batch_ok_iff)

lemma sample_admissible: "admissible sample_options sample_batch sample_store"
proof -
  have "isolated sample_store sample_batch"
    by (rule isolated_no_deps) (simp_all add: sample_batch_def EntityFact_Vertex_def)
  moreover have "storable (event_of_mutation 6 (hd (cb_mutations sample_batch)))"
  proof -
    have "PendingFactMutation_Validate (hd (cb_mutations sample_batch)) = OK"
      using sample_batch_ok by (simp add: batch_ok_def)
    then show ?thesis
      by (simp add: storable_def event_of_mutation_valid)
        (simp add: event_of_mutation_def event_payload_def sample_batch_def)
  qed
  then have "list_all storable (commit_events 6 sample_batch)" "length (commit_events 6 sample_batch) = 1"
    by (simp_all add: commit_events_def) (simp_all add: sample_batch_def)
  ultimately show ?thesis
    using sample_batch_ok
    by (simp add: admissible_def batch_ok_iff sample_options_def new_transaction_def max_seq_def kMaxPayloadBytes_def)
      (simp add: sample_store_def sample_batch_def)
qed

lemma sample_commit:
  obtains result s' where
    "CommitDirect sample_options kv_engine True sample_batch None (Some sample_store) = (Inr result, Some s')"
  using commit_goes_through [OF sample_store_ok sample_admissible] by blast

lemma sample_new: "new_transaction sample_batch sample_store"
  by (simp add: new_transaction_def sample_batch_def)

theorem commit_publishes_witness:
  "\<exists>result s'. CommitDirect sample_options kv_engine True sample_batch None (Some sample_store) = (Inr result, Some s') \<and>
     fs_visible s' = 6 \<and> event_of_mutation 6 (hd (cb_mutations sample_batch)) \<in> set (events_of (db_facts (fs_db s')))"
proof -
  obtain result s' where r: "CommitDirect sample_options kv_engine True sample_batch None (Some sample_store) = (Inr result, Some s')"
    by (rule sample_commit)
  have "fs_visible s' = 6"
    using commit_publishes [OF kv_engine.write_engine_axioms sample_store_ok sample_new r] by (simp add: sample_store_def)
  moreover have "event_of_mutation 6 (hd (cb_mutations sample_batch)) \<in> set (commit_events 6 sample_batch)"
    by (simp add: commit_events_def sample_batch_def)
  ultimately show ?thesis
    using commit_publishes [OF kv_engine.write_engine_axioms sample_store_ok sample_new r] r by auto
qed

definition reading_dependency :: snapshot_write_dependency where
  "reading_dependency =
     \<lparr>sw_ref = ev_ref sample_event, sw_valid_from = 5, sw_predecessor = None, sw_successor = Some 10,
      sw_snapshot_seq = 2\<rparr>"

definition reading_batch :: store_commit_batch where
  "reading_batch =
     \<lparr>cb_txn_id = 9, cb_system_hlc = 100,
      cb_mutations = [\<lparr>mu_ref = ev_ref sample_event, mu_valid_from = 5, mu_operation = kPut,
        mu_schema_epoch = 1, mu_value = Some (VInt64 6)\<rparr>],
      cb_edge_identities = [], cb_snapshot_deps = [reading_dependency], cb_strict_deps = [sample_strict],
      cb_fresh = True\<rparr>"

lemma reading_mutation_ok: "PendingFactMutation_Validate (hd (cb_mutations reading_batch)) = OK"
  using sample_ref_valid by (simp add: reading_batch_def PendingFactMutation_Validate_def ValidateMutation_OK_iff)
    (simp add: sample_event_def ValidateMutation_def IsKnownOperation_def IsProperty_def IsStateFamily_def PropertyFact_Vertex_def)

lemma reading_batch_ok: "batch_ok reading_batch"
proof -
  have "SnapshotWriteDependency_Validate reading_dependency = OK"
    using sample_ref_valid by (simp add: SnapshotWriteDependency_Validate_def reading_dependency_def)
  moreover have "FactEvent_Validate sample_event = OK"
    using sample_event_encodes by (simp add: EncodeFactValue_iff storable_def)
  then have "StrictReadDependency_Validate sample_strict = OK"
    using sample_ref_valid by (simp add: StrictReadDependency_Validate_def sample_strict_def) (simp add: sample_event_def)
  ultimately show ?thesis
    using reading_mutation_ok
    by (simp add: batch_ok_def) (simp add: reading_batch_def reading_dependency_def mutation_slot_def dependency_slot_def)
qed

lemma reading_isolated: "isolated sample_store reading_batch"
proof -
  have "\<not> conflicting_event [sample_event] reading_dependency e" for e
    by (auto simp: conflicting_event_def reading_dependency_def sample_event_def)
  then have "\<forall>e. \<not> conflicting_event (facts_of [entry sample_event] (sw_ref reading_dependency)) reading_dependency e"
    using sample_facts_of by (simp add: reading_dependency_def)
  moreover have "store_aids sample_store = no_aids"
    by (simp add: store_aids_def sample_store_def no_aids_def)
  moreover have "ValidateEdgeIdentitiesForCommit [entry sample_event] reading_batch = OK"
    by (simp add: ValidateEdgeIdentitiesForCommit_def reading_batch_def sample_event_def PropertyFact_Vertex_def)
  ultimately show ?thesis
    using sample_strict_passes
    by (simp add: isolated_def) (simp add: sample_store_def reading_batch_def reading_dependency_def)
qed

lemma reading_admissible: "admissible sample_options reading_batch sample_store"
proof -
  have "storable (event_of_mutation 6 (hd (cb_mutations reading_batch)))"
    using reading_mutation_ok by (simp add: storable_def event_of_mutation_valid)
      (simp add: event_of_mutation_def event_payload_def reading_batch_def kMaxFactValuePayloadBytes_def)
  then have "list_all storable (commit_events 6 reading_batch)" "length (commit_events 6 reading_batch) = 1"
    by (simp_all add: commit_events_def) (simp_all add: reading_batch_def)
  then show ?thesis
    using reading_batch_ok reading_isolated
    by (simp add: admissible_def batch_ok_iff sample_options_def new_transaction_def max_seq_def kMaxPayloadBytes_def)
      (simp add: sample_store_def reading_batch_def)
qed

theorem commit_isolated_witness:
  "\<exists>result s'. CommitDirect sample_options kv_engine True reading_batch None (Some sample_store) = (Inr result, Some s') \<and>
     facts_of (db_facts (fs_db sample_store)) (ev_ref sample_event) = [sample_event] \<and>
     sw_snapshot_seq reading_dependency < ev_commit_seq sample_event \<and>
     \<not> conflicting_event [sample_event] reading_dependency sample_event \<and>
     (governs [sample_event] 4 12 sample_event \<longleftrightarrow> governs [sample_event] (fs_visible sample_store) 12 sample_event)"
proof -
  have new: "new_transaction reading_batch sample_store" by (simp add: new_transaction_def reading_batch_def)
  have facts: "facts_of (db_facts (fs_db sample_store)) (ev_ref sample_event) = [sample_event]"
    using sample_facts_of by (simp add: sample_store_def)
  have refs: "sw_ref reading_dependency = ev_ref sample_event" "st_ref sample_strict = ev_ref sample_event"
    "st_snapshot_seq sample_strict = 4" "st_valid_time sample_strict = 12"
    "sw_snapshot_seq reading_dependency < ev_commit_seq sample_event"
    by (simp_all add: reading_dependency_def sample_strict_def) (simp add: sample_event_def)
  have deps: "reading_dependency \<in> set (cb_snapshot_deps reading_batch)" "sample_strict \<in> set (cb_strict_deps reading_batch)"
    by (simp_all add: reading_batch_def)
  obtain result s' where r: "CommitDirect sample_options kv_engine True reading_batch None (Some sample_store) = (Inr result, Some s')"
    using commit_goes_through [OF sample_store_ok reading_admissible] by blast
  with commit_isolated [OF kv_engine.write_engine_axioms sample_store_ok new r] deps facts refs show ?thesis by metis
qed

theorem commit_reads_witness:
  "\<exists>result s'. CommitDirect sample_options kv_engine True sample_batch None (Some sample_store) = (Inr result, Some s') \<and>
     FactStore_Read (db_facts (fs_db s')) (cr_commit_seq result) (EntityFact_Vertex \<lparr>vr_part = 1, vr_vertex = 7\<rparr>) 10 =
       Inr (Some (event_of_mutation (cr_commit_seq result) (hd (cb_mutations sample_batch))))"
proof -
  obtain result s' where r: "CommitDirect sample_options kv_engine True sample_batch None (Some sample_store) = (Inr result, Some s')"
    by (rule sample_commit)
  have "hd (cb_mutations sample_batch) \<in> set (cb_mutations sample_batch)" "(4 :: u64) \<le> fs_visible sample_store"
    by (simp_all add: sample_batch_def sample_store_def)
  from commit_reads [OF kv_engine.write_engine_axioms sample_store_ok sample_new r sample_ref_valid this(2,1)] r
  show ?thesis by (auto simp: sample_batch_def)
qed

text \<open>
  C11: every commit that nothing stands in the way of succeeds. On a consistent store that is
  not waiting for recovery, a valid batch within the byte limit and the record limits, for a
  new transaction without a prepare record whose dependencies hold, is committed by an engine
  that always writes; in particular the hard size check after assembly never refuses it.
\<close>

theorem commit_succeeds:
  assumes "store_ok s" "admissible opts b s"
  shows "\<exists>result s'. CommitDirect opts kv_engine sync b None (Some s) = (Inr result, Some s')"
  using assms by (rule commit_goes_through)

theorem commit_succeeds_witness:
  "\<exists>result s'. CommitDirect sample_options kv_engine True sample_batch None (Some sample_store) = (Inr result, Some s')"
  by (rule commit_succeeds [OF sample_store_ok sample_admissible])

lemma commit_failed:
  assumes "write_engine engine" "store_ok s"
    "CommitDirect opts engine sync b prepared_key (Some s) = (Inl e, Some s')"
  shows "fs_visible s' = fs_visible s \<and> fs_retention s' = fs_retention s \<and>
    (store_ok s' \<and> fs_db s' = fs_db s \<and> fs_recovery s' = fs_recovery s \<or>
     error_code e = kIndeterminate \<and> fs_recovery s' \<and>
     (fs_db s' = fs_db s \<or> (\<exists>wb. assemble_commit opts (fs_visible s + 1) b prepared_key = Inr wb \<and>
        fs_db s' = apply_batch wb (fs_db s))) \<and>
     (\<forall>b' prepared_key' sync'. \<exists>e'. CommitDirect opts engine sync' b' prepared_key' (Some s') = (Inl e', Some s')))"
proof -
  have refuse: "\<exists>e'. CommitDirect opts engine sync' b' prepared_key' (Some t) = (Inl e', Some t)" if "fs_recovery t" for t sync' b' prepared_key'
    using that by (simp add: CommitDirect_def commit_locked_def split: sum.split)
  have same: "fs_visible t = fs_visible s \<and> fs_retention t = fs_retention s \<and> store_ok t \<and> fs_db t = fs_db s \<and> fs_recovery t = fs_recovery s"
    if "t = s \<or> same_but_cache s t \<and> store_ok t" for t
    using that assms(2) same_but_cache_fields by auto
  from assms(3) show ?thesis
  proof (rule CommitDirect_open)
    assume "s' = s"
    with same [of s'] show ?thesis by simp
  next
    assume b: "batch_ok b" and lock: "commit_locked opts engine sync b prepared_key s = (Inl e, s')"
    show ?thesis
    proof (cases "commit_new opts engine sync b prepared_key s = (Inl e, s')")
      case True
      show ?thesis
      proof (cases rule: commit_new_cases [OF assms(2) b, of opts engine sync prepared_key, case_names failed validated])
        case (failed e1 s1)
        then have "s' = s1" using True by simp
        with failed same [of s'] show ?thesis by simp
      next
        case (validated t)
        note eq = same_but_cache_fields [OF validated(3)]
        have "write_commit opts engine sync b prepared_key t = (Inl e, s')" using True validated(1) by simp
        from write_engine.write_commit_Inl [OF assms(1) this] show ?thesis
        proof (elim disjE conjE exE)
          assume "s' = t"
          with same [of s'] validated show ?thesis by simp
        next
          fix db
          assume "error_code e = kIndeterminate" "fs_recovery s'" "s' = t\<lparr>fs_db := db, fs_recovery := True\<rparr>" "db = fs_db t"
          with refuse [of s'] eq show ?thesis by simp
        next
          fix db wb
          assume "error_code e = kIndeterminate" "fs_recovery s'" "s' = t\<lparr>fs_db := db, fs_recovery := True\<rparr>"
            "assemble_commit opts (fs_visible t + 1) b prepared_key = Inr wb" "db = apply_batch wb (fs_db t)"
          with refuse [of s'] eq show ?thesis by simp
        qed
      qed
    next
      case False
      with lock have "s' = s"
        by (auto simp: commit_locked_def split: if_splits sum.splits option.splits)
      with same [of s'] show ?thesis by simp
    qed
  qed
qed

text \<open>
  C4: a failed commit never goes unnoticed. When \<^verbatim>\<open>CommitDirect\<close> returns an error on an open
  store, nothing becomes visible; either the database is unchanged (the validation cache may
  have been looked up and primed, and the store stays consistent), or the error is
  Indeterminate, the store demands recovery, and the database holds all of the batch or none
  of it. While recovery is demanded every further commit is refused without any effect.
\<close>

theorem commit_failure_safe:
  assumes "write_engine engine" "store_ok s"
    "CommitDirect opts engine sync b prepared_key (Some s) = (Inl e, Some s')"
  shows "fs_visible s' = fs_visible s \<and>
    (store_ok s' \<and> fs_db s' = fs_db s \<and> fs_recovery s' = fs_recovery s \<or>
     error_code e = kIndeterminate \<and> fs_recovery s' \<and>
     (fs_db s' = fs_db s \<or> (\<exists>wb. assemble_commit opts (fs_visible s + 1) b prepared_key = Inr wb \<and>
        fs_db s' = apply_batch wb (fs_db s))) \<and>
     (\<forall>b' prepared_key' sync'. \<exists>e'. CommitDirect opts engine sync' b' prepared_key' (Some s') = (Inl e', Some s')))"
  using commit_failed [OF assms] by blast

theorem commit_failure_safe_witness:
  "\<exists>e s'. CommitDirect sample_options (failing_engine True) True sample_batch None (Some sample_store) = (Inl e, Some s') \<and>
     fs_visible s' = 5"
proof -
  let ?run = "CommitDirect sample_options (failing_engine True) True sample_batch None (Some sample_store)"
  obtain result t where rt: "?run = (result, Some t)" using CommitDirect_Some by blast
  have "\<exists>e. result = Inl e"
  proof (rule ccontr)
    assume "\<nexists>e. result = Inl e"
    then obtain r where "result = Inr r" by (cases result) auto
    with rt have run: "?run = (Inr r, Some t)" by simp
    obtain u where "write_commit sample_options (failing_engine True) True sample_batch None u = (Inr r, t)"
    proof -
      from run obtain lock: "commit_locked sample_options (failing_engine True) True sample_batch None sample_store = (Inr r, t)"
        by (rule CommitDirect_open) simp_all
      have "cb_txn_id sample_batch \<noteq> 0" by (simp add: sample_batch_def)
      from lock sample_new this
      obtain "commit_new sample_options (failing_engine True) True sample_batch None sample_store = (Inr r, t)"
        by (rule commit_locked_new) simp_all
      with commit_new_cases [OF sample_store_ok sample_batch_ok, of sample_options "failing_engine True" True None] that
      show thesis by (metis Pair_inject sum.distinct(2))
    qed
    then show False
      by (auto simp: write_commit_def failing_engine_def Let_def split: if_splits sum.splits)
  qed
  then obtain e where "?run = (Inl e, Some t)" using rt by blast
  with commit_failure_safe [OF failing_engine.write_engine_axioms sample_store_ok this]
  show ?thesis by (auto simp: sample_store_def)
qed

end
