(* ===== verification/Vacuum_Retention.thy ===== *)
theory Vacuum_Retention
  imports Commit_Store
begin

text \<open>
  Removal of superseded fact versions and of old sequence records
  (\<^verbatim>\<open>src/src/storage/facts/vacuum.cc\<close> and the vacuum functions of \<^verbatim>\<open>rocks_adapter.cc\<close>): the
  cleanup planner, one bounded cleanup batch, the loop that resumes from the durable cursor,
  the pruning of sequence records, and \<^verbatim>\<open>FactStore::Vacuum\<close>. The oldest sequence an active
  snapshot pins is an argument; the reservation that keeps new snapshots out during the call
  has no effect in a call that runs alone. Test-only fault injectors are absent.
\<close>

section \<open>The cleanup planner\<close>

definition kFactValidTimePrefixBytes :: nat where
  "kFactValidTimePrefixBytes = 24"

definition kDefaultKeysPerBatch :: nat where
  "kDefaultKeysPerBatch = 1024"

record vacuum_key_decision =
  kd_stop_before_key :: bool
  kd_delete_key :: bool

record vacuum_planner =
  vp_target :: commit_seq
  vp_max_keys :: nat
  vp_processed :: nat
  vp_boundary :: bytes
  vp_last_key :: bytes
  vp_retained :: bool

definition VacuumCleanupPlanner :: "commit_seq \<Rightarrow> nat \<Rightarrow> vacuum_planner" where
  "VacuumCleanupPlanner target max_keys =
     \<lparr>vp_target = target, vp_max_keys = max_keys, vp_processed = 0, vp_boundary = [], vp_last_key = [],
      vp_retained = False\<rparr>"

definition Consider :: "bytes \<Rightarrow> vacuum_planner \<Rightarrow> vacuum_key_decision status_or \<times> vacuum_planner" where
  "Consider encoded_fact_key p =
     (case DecodeFactKey encoded_fact_key of
        Inl e \<Rightarrow> (Inl e, p)
      | Inr decoded \<Rightarrow>
          let boundary = take kFactValidTimePrefixBytes encoded_fact_key in
          if vp_processed p \<ge> vp_max_keys p \<and> boundary \<noteq> vp_boundary p
          then (Inr \<lparr>kd_stop_before_key = True, kd_delete_key = False\<rparr>, p)
          else
            let p = (if boundary \<noteq> vp_boundary p then p\<lparr>vp_boundary := boundary, vp_retained := False\<rparr> else p);
                old = dk_commit_seq decoded \<le> vp_target p
            in (Inr \<lparr>kd_stop_before_key = False, kd_delete_key = (old \<and> vp_retained p)\<rparr>,
                p\<lparr>vp_retained := (vp_retained p \<or> old), vp_last_key := encoded_fact_key,
                  vp_processed := vp_processed p + 1\<rparr>))"

section \<open>Cleanup\<close>

fun FromMetadataWriteFailure :: "rocks_status \<Rightarrow> error" where
  "FromMetadataWriteFailure (RocksError RocksInvalidArgument msg) =
     Status_init kInvalidArgument ''persist fact store metadata'' msg"
| "FromMetadataWriteFailure (RocksError RocksNotSupported msg) =
     Status_init kNotSupported ''persist fact store metadata'' msg"
| "FromMetadataWriteFailure (RocksError _ msg) = Status_init kIndeterminate ''persist fact store metadata'' msg"
| "FromMetadataWriteFailure RocksOk = Status_init kIndeterminate ''persist fact store metadata'' ''OK''"

definition cleanup_start :: "bytes \<Rightarrow> kv \<Rightarrow> kv" where
  "cleanup_start cursor facts =
     (if cursor \<noteq> []
      then (case Seek facts cursor of
              [] \<Rightarrow> []
            | (k, v) # m \<Rightarrow> if k = cursor then m else (k, v) # m)
      else facts)"

text \<open>The scan answers whether it reached the end, the deletes, and the planner.\<close>

fun cleanup_loop :: "vacuum_planner \<Rightarrow> kv \<Rightarrow> write_batch \<Rightarrow> (bool \<times> write_batch \<times> vacuum_planner) status_or" where
  "cleanup_loop p [] deletes = Inr (True, deletes, p)"
| "cleanup_loop p ((k, v) # m) deletes =
     (case Consider k p of
        (Inl e, _) \<Rightarrow> Inl e
      | (Inr decision, p') \<Rightarrow>
          if kd_stop_before_key decision then Inr (False, deletes, p')
          else cleanup_loop p' m (if kd_delete_key decision then deletes @ [Delete FactsCf k] else deletes))"

definition DeleteObsoleteFactVersions :: "engine \<Rightarrow> vacuum_state \<Rightarrow> database \<Rightarrow> bool status_or \<times> database" where
  "DeleteObsoleteFactVersions engine state db =
     (case cleanup_loop (VacuumCleanupPlanner (vs_target state) kDefaultKeysPerBatch)
             (cleanup_start (vs_cursor state) (db_facts db)) [] of
        Inl e \<Rightarrow> (Inl e, db)
      | Inr (completed, deletes, p) \<Rightarrow>
          (case (if completed then Inr (Delete MetaCf EncodeVacuumStateKey)
                 else sbind (EncodeVacuumState
                               \<lparr>vs_target = vs_target state, vs_phase = VacuumRunning, vs_cursor = vp_last_key p\<rparr>)
                        (\<lambda>next. Inr (Put MetaCf EncodeVacuumStateKey next))) of
             Inl e \<Rightarrow> (Inl e, db)
           | Inr progress \<Rightarrow>
               (case engine True db (deletes @ [progress]) of
                  (RocksOk, db') \<Rightarrow> (Inr completed, db')
                | (failed, db') \<Rightarrow> (Inl (FromMetadataWriteFailure failed), db'))))"

text \<open>The loop is a partial function: that it returns is a theorem below.\<close>

partial_function (option) ResumeVacuum :: "engine \<Rightarrow> vacuum_state \<Rightarrow> database \<Rightarrow> (status \<times> database) option" where
  "ResumeVacuum engine state db =
     (case DeleteObsoleteFactVersions engine state db of
        (Inl e, db') \<Rightarrow> Some (Inl e, db')
      | (Inr completed, db') \<Rightarrow>
          if completed then Some (OK, db')
          else (case kv_get (db_meta db') EncodeVacuumStateKey of
                  None \<Rightarrow> Some (FromRocksDb engine_not_found ''read vacuum cursor'', db')
                | Some encoded \<Rightarrow>
                    (case DecodeVacuumState encoded of
                       Inl e \<Rightarrow> Some (Inl e, db')
                     | Inr next \<Rightarrow> ResumeVacuum engine next db')))"

section \<open>Pruning sequence records\<close>

definition kSequenceMetaPrefix :: bytes where
  "kSequenceMetaPrefix = ascii ''sequence/''"

definition kSequenceMetaKeyBytes :: nat where
  "kSequenceMetaKeyBytes = length kSequenceMetaPrefix + 8"

definition ParseSequenceMetaKey :: "bytes \<Rightarrow> u64" where
  "ParseSequenceMetaKey key =
     foldl (\<lambda>commit_seq b. push_bit 8 commit_seq OR ucast b) 0
       (take 8 (drop (length kSequenceMetaPrefix) key))"

text \<open>One batch of deletes with what the iterator has left.\<close>

fun prune_batch :: "commit_seq \<Rightarrow> nat \<Rightarrow> kv \<Rightarrow> write_batch \<Rightarrow> (write_batch \<times> kv) status_or" where
  "prune_batch boundary room [] deletes = Inr (deletes, [])"
| "prune_batch boundary room ((k, v) # m) deletes =
     (if \<not> StartsWith k kSequenceMetaPrefix \<or> room = 0 then Inr (deletes, (k, v) # m)
      else if length k \<noteq> kSequenceMetaKeyBytes
      then Corruption ''sequence retention'' ''invalid durable sequence record key''
      else if ParseSequenceMetaKey k \<ge> boundary then Inr (deletes, (k, v) # m)
      else prune_batch boundary (room - 1) m (deletes @ [Delete MetaCf k]))"

lemma prune_batch_split:
  "prune_batch boundary room m deletes = Inr (deletes', rest) \<Longrightarrow>
   \<exists>gone. m = gone @ rest \<and> deletes' = deletes @ map (\<lambda>e. Delete MetaCf (fst e)) gone \<and>
     (\<forall>e \<in> set gone. StartsWith (fst e) kSequenceMetaPrefix \<and> length (fst e) = kSequenceMetaKeyBytes \<and>
        ParseSequenceMetaKey (fst e) < boundary)"
proof (induction boundary room m deletes rule: prune_batch.induct)
  case (2 boundary room k v m deletes)
  show ?case
  proof (cases "rest = (k, v) # m \<and> deletes' = deletes")
    case True
    then show ?thesis by simp
  next
    case False
    with 2 obtain gone where "m = gone @ rest"
      "deletes' = (deletes @ [Delete MetaCf k]) @ map (\<lambda>e. Delete MetaCf (fst e)) gone"
      "\<forall>e \<in> set gone. StartsWith (fst e) kSequenceMetaPrefix \<and> length (fst e) = kSequenceMetaKeyBytes \<and>
         ParseSequenceMetaKey (fst e) < boundary"
      "StartsWith k kSequenceMetaPrefix" "length k = kSequenceMetaKeyBytes" "ParseSequenceMetaKey k < boundary"
      by (fastforce split: if_splits)
    then show ?thesis by (intro exI [of _ "(k, v) # gone"]) simp
  qed
qed simp

function prune_loop :: "engine \<Rightarrow> bool \<Rightarrow> commit_seq \<Rightarrow> kv \<Rightarrow> database \<Rightarrow> status \<times> database" where
  "prune_loop engine sync boundary m db =
     (if m = [] \<or> \<not> StartsWith (fst (hd m)) kSequenceMetaPrefix then (OK, db)
      else case prune_batch boundary 1024 m [] of
        Inl e \<Rightarrow> (Inl e, db)
      | Inr (deletes, rest) \<Rightarrow>
          if deletes = [] then (OK, db)
          else (case engine sync db deletes of
                  (RocksOk, db') \<Rightarrow> prune_loop engine sync boundary rest db'
                | (failed, db') \<Rightarrow> (Inl (FromMetadataWriteFailure failed), db')))"
  by pat_completeness auto
termination
  by (relation "measure (\<lambda>(engine, sync, boundary, m, db). length m)") (auto dest: prune_batch_split)

definition PruneSequenceRecords :: "engine \<Rightarrow> bool \<Rightarrow> commit_seq \<Rightarrow> fact_store \<Rightarrow> status \<times> fact_store" where
  "PruneSequenceRecords engine sync boundary s =
     (if boundary \<le> 1 then (OK, s)
      else
        let marked =
          (if fs_retention s < boundary
           then (case EncodeWatermark boundary of
                   Inl e \<Rightarrow> (Inl e, s)
                 | Inr watermark \<Rightarrow>
                     (case engine True (fs_db s) [Put MetaCf EncodeSequenceRetentionWatermarkKey watermark] of
                        (RocksOk, db) \<Rightarrow> (OK, s\<lparr>fs_db := db, fs_retention := boundary\<rparr>)
                      | (failed, db) \<Rightarrow> (Inl (FromMetadataWriteFailure failed), s\<lparr>fs_db := db\<rparr>)))
           else (OK, s))
        in and_then marked (\<lambda>s.
             let (result, db) = prune_loop engine sync boundary (Seek (db_meta (fs_db s)) kSequenceMetaPrefix) (fs_db s)
             in (result, s\<lparr>fs_db := db\<rparr>)))"

section \<open>Vacuum\<close>

record retained_store =
  rt_store :: fact_store
  rt_oldest_readable :: commit_seq

record vacuum_options =
  vo_prune :: bool
  vo_prune_sync :: bool

definition demand_recovery :: "status \<Rightarrow> fact_store \<Rightarrow> fact_store" where
  "demand_recovery result s =
     (case result of
        Inl e \<Rightarrow> s\<lparr>fs_recovery := fs_recovery s \<or> error_code e = kIndeterminate\<rparr>
      | Inr _ \<Rightarrow> s)"

definition run_sequence_prune ::
  "vacuum_options \<Rightarrow> engine \<Rightarrow> commit_seq \<Rightarrow> retained_store \<Rightarrow> status \<times> retained_store" where
  "run_sequence_prune opts engine boundary rs =
     (if \<not> vo_prune opts then (OK, rs)
      else let (result, s) = PruneSequenceRecords engine (vo_prune_sync opts) boundary (rt_store rs)
           in (result, rs\<lparr>rt_store := demand_recovery result s\<rparr>))"

definition FactStore_Vacuum ::
  "vacuum_options \<Rightarrow> engine \<Rightarrow> commit_seq option \<Rightarrow> commit_seq \<Rightarrow> retained_store \<Rightarrow> (status \<times> retained_store) option" where
  "FactStore_Vacuum opts engine oldest_active target rs =
     (let s = rt_store rs in
      if fs_recovery s
      then Some (Inl (Status_init kRecoveryRequired ''vacuum'' ''reopen required after indeterminate write''), rs)
      else if target < rt_oldest_readable rs \<or> target > fs_visible s
      then Some (InvalidArgument ''vacuum'' ''target is outside readable range'', rs)
      else if target = rt_oldest_readable rs then Some (run_sequence_prune opts engine target rs)
      else if (case oldest_active of None \<Rightarrow> False | Some q \<Rightarrow> q < target)
      then Some (Inl (Status_init kSnapshotPinned ''vacuum'' ''active snapshot predates target''), rs)
      else
        case sbind (EncodeVacuumState \<lparr>vs_target = target, vs_phase = VacuumPrepared, vs_cursor = []\<rparr>) (\<lambda>state.
             sbind (EncodeWatermark target) (\<lambda>watermark.
               Inr [Put MetaCf EncodeVacuumStateKey state, Put MetaCf EncodeOldestReadableWatermarkKey watermark])) of
          Inl e \<Rightarrow> Some (Inl e, rs)
        | Inr wb \<Rightarrow>
            (case engine True (fs_db s) wb of
               (RocksOk, db) \<Rightarrow>
                 (case ResumeVacuum engine \<lparr>vs_target = target, vs_phase = VacuumPrepared, vs_cursor = []\<rparr> db of
                    None \<Rightarrow> None
                  | Some (cleaned, db') \<Rightarrow>
                      let rs = \<lparr>rt_store = demand_recovery cleaned (s\<lparr>fs_db := db'\<rparr>), rt_oldest_readable = target\<rparr>
                      in (case cleaned of
                            Inl e \<Rightarrow> Some (Inl e, rs)
                          | Inr _ \<Rightarrow> Some (run_sequence_prune opts engine target rs)))
             | (failed, db) \<Rightarrow>
                 let e = FromMetadataWriteFailure failed
                 in Some (Inl e, rs\<lparr>rt_store := demand_recovery (Inl e) (s\<lparr>fs_db := db\<rparr>)\<rparr>)))"

section \<open>Superseded versions\<close>

text \<open>
  A version is superseded at a target when a newer version of the same fact at the same valid
  time is also at or below the target: no snapshot at or above the target reads it.
\<close>

definition superseded :: "commit_seq \<Rightarrow> fact_event set \<Rightarrow> fact_event \<Rightarrow> bool" where
  "superseded target E e \<longleftrightarrow>
     (\<exists>f \<in> E. ev_ref f = ev_ref e \<and> ev_valid_from f = ev_valid_from e \<and>
        ev_commit_seq e < ev_commit_seq f \<and> ev_commit_seq f \<le> target)"

definition vacuumed :: "commit_seq \<Rightarrow> kv \<Rightarrow> kv \<Rightarrow> bool" where
  "vacuumed target m m' \<longleftrightarrow>
     facts_ok m' \<and> set (events_of m') \<subseteq> set (events_of m) \<and>
     (\<forall>e \<in> set (events_of m) - set (events_of m'). superseded target (set (events_of m)) e)"

lemma superseded_mono: "superseded target E e \<Longrightarrow> E \<subseteq> F \<Longrightarrow> superseded target F e"
  unfolding superseded_def by blast

lemma vacuumed_refl: "facts_ok m \<Longrightarrow> vacuumed target m m"
  by (simp add: vacuumed_def)

lemma vacuumed_trans:
  assumes "vacuumed target m m'" "vacuumed target m' m''"
  shows "vacuumed target m m''"
proof -
  have sub: "set (events_of m'') \<subseteq> set (events_of m')" "set (events_of m') \<subseteq> set (events_of m)"
    using assms by (simp_all add: vacuumed_def)
  have "superseded target (set (events_of m)) e" if "e \<in> set (events_of m) - set (events_of m'')" for e
  proof (cases "e \<in> set (events_of m')")
    case True
    with that assms(2) have "superseded target (set (events_of m')) e" by (simp add: vacuumed_def)
    then show ?thesis using sub(2) by (rule superseded_mono)
  next
    case False
    with that assms(1) show ?thesis by (simp add: vacuumed_def)
  qed
  with sub assms(2) show ?thesis by (auto simp: vacuumed_def)
qed

lemma superseded_newest:
  assumes "finite E" "e \<in> E" "superseded target E e"
  obtains f where "f \<in> E" "ev_ref f = ev_ref e" "ev_valid_from f = ev_valid_from e" "ev_commit_seq e < ev_commit_seq f"
    "ev_commit_seq f \<le> target" "\<not> superseded target E f"
proof -
  let ?F = "{f \<in> E. ev_ref f = ev_ref e \<and> ev_valid_from f = ev_valid_from e \<and> ev_commit_seq e < ev_commit_seq f \<and>
    ev_commit_seq f \<le> target}"
  have "finite ?F" "?F \<noteq> {}" using assms by (auto simp: superseded_def)
  then have "Max (ev_commit_seq ` ?F) \<in> ev_commit_seq ` ?F" "\<forall>g \<in> ?F. ev_commit_seq g \<le> Max (ev_commit_seq ` ?F)"
    by (blast intro: Max_in, simp)
  then obtain f where f: "f \<in> ?F" "\<forall>g \<in> ?F. ev_commit_seq g \<le> ev_commit_seq f" by force
  moreover have "\<not> superseded target E f"
  proof
    assume "superseded target E f"
    then obtain g where g: "g \<in> E" "ev_ref g = ev_ref f" "ev_valid_from g = ev_valid_from f"
      "ev_commit_seq f < ev_commit_seq g" "ev_commit_seq g \<le> target" by (auto simp: superseded_def)
    with f(1) have "g \<in> ?F" by auto
    with f(2) g(4) show False by (auto simp: not_le [symmetric])
  qed
  ultimately show thesis using that by blast
qed

text \<open>Reads at or above the target do not change.\<close>

lemma vacuumed_governs:
  assumes "vacuumed target m m'" "target \<le> snap"
  shows "governs (facts_of m' r) snap t e \<longleftrightarrow> governs (facts_of m r) snap t e"
proof -
  let ?V = "\<lambda>m f. f \<in> set (events_of m) \<and> ev_ref f = r \<and> ev_commit_seq f \<le> snap \<and> ev_valid_from f \<le> t"
  have vis: "governs (facts_of m r) snap t e \<longleftrightarrow> ?V m e \<and> (\<forall>f. ?V m f \<longrightarrow> chain_key f \<le> chain_key e)" for m e
    by (auto simp: governs_def visible_def facts_of_def)
  have sub: "?V m' f \<Longrightarrow> ?V m f" for f using assms(1) by (auto simp: vacuumed_def)
  have up: "\<exists>g. ?V m' g \<and> chain_key f \<le> chain_key g" if f: "?V m f" for f
  proof (cases "f \<in> set (events_of m')")
    case True
    with f show ?thesis by blast
  next
    case False
    with f assms(1) have "superseded target (set (events_of m)) f" by (auto simp: vacuumed_def)
    then obtain g where g: "g \<in> set (events_of m)" "ev_ref g = ev_ref f" "ev_valid_from g = ev_valid_from f"
      "ev_commit_seq f < ev_commit_seq g" "ev_commit_seq g \<le> target" "\<not> superseded target (set (events_of m)) g"
      using superseded_newest [OF finite_set] f by blast
    then have "g \<in> set (events_of m')" using assms(1) by (auto simp: vacuumed_def)
    with g f assms(2) show ?thesis by (intro exI [of _ g]) (auto simp: chain_key_def)
  qed
  have kept: "e \<in> set (events_of m')" if "?V m e" "\<forall>f. ?V m f \<longrightarrow> chain_key f \<le> chain_key e"
  proof (rule ccontr)
    assume "e \<notin> set (events_of m')"
    with that assms(1) have "superseded target (set (events_of m)) e" by (auto simp: vacuumed_def)
    then obtain g where "g \<in> set (events_of m)" "ev_ref g = ev_ref e" "ev_valid_from g = ev_valid_from e"
      "ev_commit_seq e < ev_commit_seq g" "ev_commit_seq g \<le> target" unfolding superseded_def by blast
    with that assms(2) have "chain_key g \<le> chain_key e" by auto
    with \<open>ev_valid_from g = _\<close> \<open>ev_commit_seq e < _\<close> show False by (simp add: chain_key_def)
  qed
  show ?thesis
  proof
    assume g: "governs (facts_of m' r) snap t e"
    have "chain_key f \<le> chain_key e" if "?V m f" for f
      using up [OF that] g unfolding vis by (blast intro: order_trans)
    with g sub show "governs (facts_of m r) snap t e" unfolding vis by blast
  next
    assume "governs (facts_of m r) snap t e"
    then have e: "?V m e" "\<forall>f. ?V m f \<longrightarrow> chain_key f \<le> chain_key e" unfolding vis by blast+
    from kept [OF e] e sub show "governs (facts_of m' r) snap t e" unfolding vis by blast
  qed
qed

lemma vacuumed_reads:
  assumes "facts_ok m" "vacuumed target m m'" "target \<le> snap" "FactRef_Validate r = OK"
  shows "FactStore_Read m' snap r t = FactStore_Read m snap r t"
  using assms vacuumed_governs [OF assms(2,3)] by (intro Read_determined) (simp_all add: vacuumed_def)

section \<open>One cleanup batch\<close>

definition slot :: "fact_event \<Rightarrow> bytes" where
  "slot e = take kFactValidTimePrefixBytes (fst (entry e))"

lemma slot_layout: "slot e = ref_prefix (ev_ref e) @ AppendU64 (NOT (ev_valid_from e))"
  by (simp add: slot_def entry_def key_prefix ref_prefix_def kFactValidTimePrefixBytes_def kFactIdentityPrefixBytes_def)

lemma slot_eq:
  assumes "storable e" "storable f"
  shows "slot e = slot f \<longleftrightarrow> ev_ref e = ev_ref f \<and> ev_valid_from e = ev_valid_from f"
proof -
  have "slot e = slot f \<longleftrightarrow> ref_prefix (ev_ref e) = ref_prefix (ev_ref f) \<and> NOT (ev_valid_from e) = NOT (ev_valid_from f)"
    by (simp add: slot_layout ref_prefix_def)
  with assms storable_parts show ?thesis by (simp add: ref_prefix_inject bit.compl_eq_compl_iff)
qed

lemma slot_not_Nil [simp]: "slot e \<noteq> []"
  by (simp add: slot_layout ref_prefix_def EncodeFactIdentityPrefix_def)

text \<open>Events between two events of a slot belong to it.\<close>

lemma slot_between:
  assumes "storable e" "storable f" "storable g" "ev_less e f" "ev_less f g" "slot e = slot g"
  shows "slot f = slot g"
proof -
  have v: "FactRef_Validate (ev_ref e) = OK" "FactRef_Validate (ev_ref f) = OK" using assms(1,2) storable_parts by blast+
  have eg: "ev_ref e = ev_ref g" "ev_valid_from e = ev_valid_from g" using assms slot_eq by blast+
  have "\<not> bytes_less (key_layout (ev_ref f) (ev_valid_from f) (ev_commit_seq f))
      (key_layout (ev_ref e) (ev_valid_from e) (ev_commit_seq e))"
    using assms(4) bytes_less_asym by (auto simp: ev_less_def entry_def)
  then have "ev_ref f = ev_ref e"
    using assms(5) eg by (intro key_between [OF v]) (auto simp: ev_less_def entry_def)
  with assms(4,5) eg have "ev_valid_from f = ev_valid_from g" by (auto simp: ev_less_def entry_def key_layout_less)
  with \<open>ev_ref f = ev_ref e\<close> eg show ?thesis by (simp add: slot_layout)
qed

lemma same_slot_less:
  "storable e \<Longrightarrow> storable f \<Longrightarrow> slot f = slot e \<Longrightarrow> ev_less f e \<longleftrightarrow> ev_commit_seq e < ev_commit_seq f"
  by (auto simp: slot_eq ev_less_chain chain_key_def)

definition planner_at :: "commit_seq \<Rightarrow> nat \<Rightarrow> fact_event list \<Rightarrow> vacuum_planner" where
  "planner_at target max_keys seen =
     \<lparr>vp_target = target, vp_max_keys = max_keys, vp_processed = length seen,
      vp_boundary = (if seen = [] then [] else slot (last seen)),
      vp_last_key = (if seen = [] then [] else fst (entry (last seen))),
      vp_retained = (\<exists>f \<in> set seen. slot f = slot (last seen) \<and> ev_commit_seq f \<le> target)\<rparr>"

lemma Consider_step:
  assumes "sorted_wrt ev_less (seen @ e # es)" "\<forall>f \<in> set (seen @ e # es). storable f"
  shows "Consider (fst (entry e)) (planner_at target max_keys seen) =
    (if max_keys \<le> length seen \<and> (seen = [] \<or> slot e \<noteq> slot (last seen))
     then (Inr \<lparr>kd_stop_before_key = True, kd_delete_key = False\<rparr>, planner_at target max_keys seen)
     else (Inr \<lparr>kd_stop_before_key = False, kd_delete_key = superseded target (set (seen @ e # es)) e\<rparr>,
           planner_at target max_keys (seen @ [e])))"
proof -
  have e: "storable e" and d: "\<forall>f \<in> set seen. storable f" using assms(2) by auto
  have less: "\<forall>f \<in> set seen. ev_less f e" "\<forall>f \<in> set es. ev_less e f" using assms(1) by (auto simp: sorted_wrt_append)
  have contiguous: "slot f \<noteq> slot e" if "f \<in> set seen" "slot e \<noteq> slot (last seen)" for f
  proof
    assume eq: "slot f = slot e"
    have "seen \<noteq> []" using that(1) by auto
    then obtain xs x where seen: "seen = xs @ [x]" by (cases seen rule: rev_cases) auto
    with that eq have "f \<in> set xs" by auto
    then have "ev_less f x" using assms(1) seen by (auto simp: sorted_wrt_append)
    moreover have "ev_less x e" "storable f" "storable x" using less d that(1) seen by auto
    ultimately have "slot (last seen) = slot e"
      using slot_between [of f x e] e eq seen by simp
    with that show False by simp
  qed
  have sup: "superseded target (set (seen @ e # es)) e \<longleftrightarrow>
      ev_commit_seq e \<le> target \<and> (\<exists>f \<in> set seen. slot f = slot e \<and> ev_commit_seq f \<le> target)"
  proof
    assume "superseded target (set (seen @ e # es)) e"
    then obtain f where f: "f \<in> set (seen @ e # es)" "ev_ref f = ev_ref e" "ev_valid_from f = ev_valid_from e"
      "ev_commit_seq e < ev_commit_seq f" "ev_commit_seq f \<le> target" by (auto simp: superseded_def)
    then have s: "slot f = slot e" by (simp add: slot_layout)
    have "ev_less f e" using same_slot_less [OF e _ s] f assms(2) by blast
    then have "f \<notin> set es" "f \<noteq> e" using less(2) bytes_less_asym by (auto simp: ev_less_def)
    with f s show "ev_commit_seq e \<le> target \<and> (\<exists>f \<in> set seen. slot f = slot e \<and> ev_commit_seq f \<le> target)" by auto
  next
    assume "ev_commit_seq e \<le> target \<and> (\<exists>f \<in> set seen. slot f = slot e \<and> ev_commit_seq f \<le> target)"
    then obtain f where f: "f \<in> set seen" "slot f = slot e" "ev_commit_seq f \<le> target" by blast
    then have "ev_commit_seq e < ev_commit_seq f" using same_slot_less e d less(1) by blast
    with f e d show "superseded target (set (seen @ e # es)) e"
      unfolding superseded_def using slot_eq by (intro bexI [of _ f]) auto
  qed
  have key: "DecodeFactKey (fst (entry e)) =
      Inr \<lparr>dk_ref = ev_ref e, dk_valid_from = ev_valid_from e, dk_commit_seq = ev_commit_seq e\<rparr>"
    using decode_stored(1) [OF e] by (simp add: entry_def)
  have kept: "(\<exists>f \<in> set seen. slot f = slot e \<and> ev_commit_seq f \<le> target) \<longleftrightarrow>
      seen \<noteq> [] \<and> slot e = slot (last seen) \<and> (\<exists>f \<in> set seen. slot f = slot (last seen) \<and> ev_commit_seq f \<le> target)"
    using contiguous by (cases "slot e = slot (last seen)") auto
  show ?thesis
    unfolding Consider_def key sup using kept slot_not_Nil [of e]
    by (cases "seen = []"; cases "slot e = slot (last seen)")
      (auto simp: planner_at_def Let_def slot_def [symmetric])
qed

lemma cleanup_loop_spec:
  assumes "sorted_wrt ev_less (seen @ es)" "\<forall>f \<in> set (seen @ es). storable f"
  shows "\<exists>now rest. es = now @ rest \<and>
    cleanup_loop (planner_at target max_keys seen) (map entry es) deletes =
      Inr (rest = [], deletes @ map (\<lambda>e. Delete FactsCf (fst (entry e))) (filter (superseded target (set (seen @ es))) now),
           planner_at target max_keys (seen @ now)) \<and>
    (case rest of [] \<Rightarrow> True
     | e # _ \<Rightarrow> max_keys \<le> length (seen @ now) \<and> (seen @ now = [] \<or> slot e \<noteq> slot (last (seen @ now))))"
  using assms
proof (induction es arbitrary: seen deletes)
  case (Cons e es)
  note step = Consider_step [OF Cons.prems, of target max_keys]
  obtain k v where kv: "entry e = (k, v)" by (cases "entry e")
  show ?case
  proof (cases "max_keys \<le> length seen \<and> (seen = [] \<or> slot e \<noteq> slot (last seen))")
    case True
    with step kv show ?thesis by (intro exI [of _ "[]"] exI [of _ "e # es"]) simp
  next
    case False
    let ?ds = "if superseded target (set (seen @ e # es)) e then deletes @ [Delete FactsCf k] else deletes"
    obtain now rest where IH: "es = now @ rest"
      "cleanup_loop (planner_at target max_keys (seen @ [e])) (map entry es) ?ds =
        Inr (rest = [], ?ds @ map (\<lambda>e. Delete FactsCf (fst (entry e))) (filter (superseded target (set ((seen @ [e]) @ es))) now),
             planner_at target max_keys ((seen @ [e]) @ now))"
      "case rest of [] \<Rightarrow> True
       | f # _ \<Rightarrow> max_keys \<le> length ((seen @ [e]) @ now) \<and> ((seen @ [e]) @ now = [] \<or> slot f \<noteq> slot (last ((seen @ [e]) @ now)))"
      using Cons.IH [of "seen @ [e]" ?ds] Cons.prems by auto
    have "cleanup_loop (planner_at target max_keys seen) (map entry (e # es)) deletes =
        cleanup_loop (planner_at target max_keys (seen @ [e])) (map entry es) ?ds"
      using step False kv by (auto split: if_splits)
    with IH kv show ?thesis by (intro exI [of _ "e # now"] exI [of _ rest]) (auto split: list.splits)
  qed
qed simp

text \<open>The scan starts after the cursor.\<close>

lemma bytes_less_iff: "bytes_less a b \<longleftrightarrow> \<not> bytes_less b a \<and> b \<noteq> a"
  using bytes_less_linear [of a b] bytes_less_asym [of a b] by auto

definition after_cursor :: "bytes \<Rightarrow> kv \<Rightarrow> fact_event list" where
  "after_cursor cursor m = filter (\<lambda>e. bytes_less cursor (fst (entry e))) (events_of m)"

lemma cleanup_start_events:
  assumes "facts_ok m"
  shows "cleanup_start cursor m = map entry (after_cursor cursor m)"
proof (cases "cursor = []")
  case True
  have "bytes_less [] (fst (entry e))" for e by (simp add: entry_def key_layout_def)
  with True facts_ok_events(1) [OF assms] show ?thesis by (simp add: cleanup_start_def after_cursor_def)
next
  case False
  let ?ge = "filter (\<lambda>e. \<not> bytes_less (fst (entry e)) cursor) (events_of m)"
  have sorted: "sorted_wrt ev_less ?ge" using facts_ok_sorted [OF assms] by (rule sorted_wrt_filter)
  have gt: "after_cursor cursor m = filter (\<lambda>e. fst (entry e) \<noteq> cursor) ?ge"
    unfolding after_cursor_def filter_filter by (rule filter_cong [OF refl]) (rule bytes_less_iff)
  have "cleanup_start cursor m = (case ?ge of [] \<Rightarrow> [] | e # es \<Rightarrow> map entry (if fst (entry e) = cursor then es else e # es))"
    using False by (cases ?ge) (auto simp: cleanup_start_def Seek_entries [OF assms] split: prod.splits)
  also have "\<dots> = map entry (filter (\<lambda>e. fst (entry e) \<noteq> cursor) ?ge)"
  proof (cases ?ge)
    case (Cons e es)
    have "e \<in> set ?ge" using Cons by simp
    then have e: "\<not> bytes_less (fst (entry e)) cursor" by simp
    have "ev_less e f" if "f \<in> set es" for f using sorted that unfolding Cons by simp
    with e have "fst (entry f) \<noteq> cursor" if "f \<in> set es" for f using that by (auto simp: ev_less_def)
    then have "filter (\<lambda>e. fst (entry e) \<noteq> cursor) es = es" by (simp add: filter_id_conv)
    with Cons show ?thesis by simp
  qed simp
  finally show ?thesis by (simp only: gt)
qed

text \<open>The effect of a batch of deletes.\<close>

definition delete_fact :: "fact_event \<Rightarrow> write_op" where
  "delete_fact e = Delete FactsCf (fst (entry e))"

lemma apply_deletes:
  "facts_ok (db_facts db) \<Longrightarrow>
   facts_ok (db_facts (apply_batch (map delete_fact ds) db)) \<and>
   set (events_of (db_facts (apply_batch (map delete_fact ds) db))) =
     {e \<in> set (events_of (db_facts db)). fst (entry e) \<notin> (\<lambda>d. fst (entry d)) ` set ds} \<and>
   db_meta (apply_batch (map delete_fact ds) db) = db_meta db"
proof (induction ds arbitrary: db)
  case (Cons d ds)
  let ?db = "db\<lparr>db_facts := kv_delete (fst (entry d)) (db_facts db)\<rparr>"
  have ok: "facts_ok (db_facts ?db)"
    using Cons.prems by (auto simp: facts_ok_def kv_delete_sorted set_kv_delete)
  have "set (events_of (db_facts ?db)) = {e \<in> set (events_of (db_facts db)). fst (entry e) \<noteq> fst (entry d)}"
    using ok Cons.prems by (auto simp: events_of_iff set_kv_delete)
  moreover have "apply_batch (map delete_fact (d # ds)) db = apply_batch (map delete_fact ds) ?db"
    by (simp add: apply_batch_def delete_fact_def)
  ultimately show ?case using Cons.IH [OF ok] by auto
qed (simp add: apply_batch_def)

lemma event_keys_inject:
  assumes "facts_ok m" "e \<in> set (events_of m)" "f \<in> set (events_of m)"
  shows "fst (entry e) = fst (entry f) \<longleftrightarrow> e = f"
proof
  assume k: "fst (entry e) = fst (entry f)"
  have "entry e \<in> set m" "entry f \<in> set m" "storable e" "storable f" using assms by (simp_all add: events_of_iff)
  moreover have "distinct (map fst m)" using assms(1) kv_sorted_distinct by (simp add: facts_ok_def)
  ultimately show "e = f" using k entry_inject by (metis eq_key_imp_eq_value prod.collapse)
qed simp

lemma apply_delete_events:
  assumes "facts_ok (db_facts db)" "set ds \<subseteq> set (events_of (db_facts db))"
  shows "set (events_of (db_facts (apply_batch (map delete_fact ds) db))) = set (events_of (db_facts db)) - set ds"
  using apply_deletes [OF assms(1), of ds] event_keys_inject [OF assms(1)] assms(2) by auto

text \<open>What is left to do at a cursor.\<close>

definition cleaned_to :: "commit_seq \<Rightarrow> bytes \<Rightarrow> kv \<Rightarrow> bool" where
  "cleaned_to target cursor m \<longleftrightarrow>
     (\<forall>e \<in> set (events_of m). superseded target (set (events_of m)) e \<longrightarrow> e \<in> set (after_cursor cursor m)) \<and>
     (\<forall>e \<in> set (after_cursor cursor m). \<forall>f \<in> set (events_of m). slot f = slot e \<longrightarrow> f \<in> set (after_cursor cursor m))"

lemma after_no_cursor: "after_cursor [] m = events_of m"
proof -
  have "bytes_less [] (fst (entry e))" for e by (simp add: entry_def key_layout_def)
  then show ?thesis by (simp add: after_cursor_def)
qed

lemma cleaned_to_start: "cleaned_to target [] m"
  by (simp add: cleaned_to_def after_no_cursor)

text \<open>One pass deletes superseded versions of a prefix of the remaining events.\<close>

lemma cleanup_pass:
  assumes "facts_ok m" "0 < max_keys"
  obtains now rest where "after_cursor cursor m = now @ rest"
    "cleanup_loop (VacuumCleanupPlanner target max_keys) (cleanup_start cursor m) [] =
      Inr (rest = [], map delete_fact (filter (superseded target (set (after_cursor cursor m))) now),
           planner_at target max_keys now)"
    "rest \<noteq> [] \<Longrightarrow> now \<noteq> [] \<and> slot (hd rest) \<noteq> slot (last now)"
proof -
  have es: "sorted_wrt ev_less (after_cursor cursor m)" "\<forall>f \<in> set (after_cursor cursor m). storable f"
    using facts_ok_sorted [OF assms(1)] facts_ok_events(2) [OF assms(1)]
    by (auto simp: after_cursor_def sorted_wrt_filter)
  have init: "VacuumCleanupPlanner target max_keys = planner_at target max_keys []"
    by (simp add: VacuumCleanupPlanner_def planner_at_def)
  obtain now rest where split: "after_cursor cursor m = now @ rest"
    and loop: "cleanup_loop (planner_at target max_keys []) (map entry (after_cursor cursor m)) [] =
      Inr (rest = [], [] @ map (\<lambda>e. Delete FactsCf (fst (entry e))) (filter (superseded target (set ([] @ after_cursor cursor m))) now),
           planner_at target max_keys ([] @ now))"
    and stop: "case rest of [] \<Rightarrow> True
     | e # _ \<Rightarrow> max_keys \<le> length ([] @ now) \<and> ([] @ now = [] \<or> slot e \<noteq> slot (last ([] @ now)))"
    using cleanup_loop_spec [of "[]" "after_cursor cursor m" target max_keys "[]"] es by auto
  show thesis
  proof (rule that [OF split])
    show "cleanup_loop (VacuumCleanupPlanner target max_keys) (cleanup_start cursor m) [] =
      Inr (rest = [], map delete_fact (filter (superseded target (set (after_cursor cursor m))) now),
           planner_at target max_keys now)"
      using loop by (simp add: cleanup_start_events [OF assms(1)] init delete_fact_def)
  qed (use stop assms(2) in \<open>auto split: list.splits\<close>)
qed

text \<open>The state after a pass that stopped at a new slot.\<close>

lemma pass_events:
  assumes "facts_ok m" "after_cursor cursor m = now @ rest" "now \<noteq> []" "facts_ok m'"
    "set (events_of m') = set (events_of m) - set (filter P now)"
  shows "set (after_cursor (fst (entry (last now))) m') = set rest"
proof -
  have sorted: "sorted_wrt ev_less (now @ rest)"
    using facts_ok_sorted [OF assms(1)] assms(2) by (metis after_cursor_def sorted_wrt_filter)
  obtain xs x where now: "now = xs @ [x]" using assms(3) by (cases now rule: rev_cases) auto
  have rest: "bytes_less (fst (entry x)) (fst (entry e))" if "e \<in> set rest" for e
    using sorted that now by (auto simp: sorted_wrt_append ev_less_def)
  have upto: "\<not> bytes_less (fst (entry x)) (fst (entry e))" if "e \<in> set now" for e
    using sorted that now by (auto simp: sorted_wrt_append ev_less_def dest: bytes_less_asym)
  have mem: "e \<in> set now \<or> e \<in> set rest \<longleftrightarrow> e \<in> set (events_of m) \<and> bytes_less cursor (fst (entry e))" for e
    using arg_cong [OF assms(2), of set] by (auto simp: after_cursor_def)
  have x: "bytes_less cursor (fst (entry x))" using mem [of x] now by auto
  have beyond: "e \<in> set (events_of m) \<and> bytes_less (fst (entry x)) (fst (entry e)) \<longleftrightarrow> e \<in> set rest" for e
    using mem [of e] rest [of e] upto [of e] bytes_less_trans [OF x, of "fst (entry e)"] by blast
  moreover have "set rest \<inter> set now = {}" using rest upto by blast
  ultimately show ?thesis unfolding after_cursor_def using now assms(5) by auto
qed

lemma pass_cleaned:
  assumes "facts_ok m" "after_cursor cursor m = now @ rest" "facts_ok m'"
    "set (events_of m') = set (events_of m) - set (filter (superseded target (set (now @ rest))) now)"
    "cleaned_to target cursor m" "e \<in> set (events_of m')" "superseded target (set (events_of m')) e"
  shows "e \<in> set rest"
proof (rule ccontr)
  assume "e \<notin> set rest"
  have sup: "superseded target (set (events_of m)) e"
    using assms(4,7) by (auto intro: superseded_mono)
  then have "e \<in> set (now @ rest)" using assms(2,4-6) by (auto simp: cleaned_to_def)
  with \<open>e \<notin> set rest\<close> have e: "e \<in> set now" by simp
  obtain f where f: "f \<in> set (events_of m)" "ev_ref f = ev_ref e" "ev_valid_from f = ev_valid_from e"
    "ev_commit_seq e < ev_commit_seq f" "ev_commit_seq f \<le> target" using sup by (auto simp: superseded_def)
  then have "slot f = slot e" by (simp add: slot_layout)
  with f(1) e assms(2,5) have "f \<in> set (now @ rest)" unfolding cleaned_to_def by auto
  with f have "superseded target (set (now @ rest)) e" by (auto simp: superseded_def)
  with e assms(4,6) show False by auto
qed

lemma pass_cleaned_to:
  assumes "facts_ok m" "after_cursor cursor m = now @ rest" "facts_ok m'"
    "set (events_of m') = set (events_of m) - set (filter (superseded target (set (now @ rest))) now)"
    "cleaned_to target cursor m" "now \<noteq> []" "rest \<noteq> []" "slot (hd rest) \<noteq> slot (last now)"
  shows "cleaned_to target (fst (entry (last now))) m'"
proof -
  note left = pass_events [OF assms(1,2,6,3,4)]
  have sorted: "sorted_wrt ev_less (now @ rest)" "\<forall>e \<in> set (now @ rest). storable e"
    using facts_ok_sorted [OF assms(1)] facts_ok_events(2) [OF assms(1)]
    unfolding assms(2) [symmetric] after_cursor_def by (auto simp: sorted_wrt_filter)
  have "f \<in> set rest" if "e \<in> set rest" "f \<in> set (events_of m')" "slot f = slot e" for e f
  proof (rule ccontr)
    assume "f \<notin> set rest"
    with that assms(2,4,5) have f: "f \<in> set now" by (fastforce simp: cleaned_to_def)
    obtain xs x y ys where now: "now = xs @ [x]" and rest: "rest = y # ys"
      using assms(6,7) by (metis list.exhaust rev_exhaust)
    have order: "ev_less f x \<or> f = x" "ev_less f y" "ev_less x y" "ev_less y e \<or> e = y" "ev_less x e"
      using sorted(1) f that(1) now rest by (auto simp: sorted_wrt_append)
    have st: "storable f" "storable x" "storable y" "storable e"
      using sorted(2) f that(1) now rest by auto
    have "slot x = slot e" using order slot_between [OF st(1,2,4)] that(3) by blast
    moreover have "slot y = slot e" using order slot_between [OF st(1,3,4)] that(3) by blast
    ultimately show False using assms(8) now rest by simp
  qed
  with pass_cleaned [OF assms(1-5)] show ?thesis unfolding cleaned_to_def left by blast
qed

text \<open>An engine that fails no write.\<close>

definition reliable :: "engine \<Rightarrow> bool" where
  "reliable engine \<longleftrightarrow> (\<forall>sync db wb. fst (engine sync db wb) = RocksOk)"

lemma reliable_kv_engine: "reliable kv_engine"
  by (simp add: reliable_def kv_engine_def)

text \<open>What a pass that reached the engine leaves behind.\<close>

definition pass_wrote :: "vacuum_state \<Rightarrow> database \<Rightarrow> fact_event list \<Rightarrow> fact_event list \<Rightarrow> database \<Rightarrow> bool" where
  "pass_wrote st db now rest db' \<longleftrightarrow>
     after_cursor (vs_cursor st) (db_facts db) = now @ rest \<and>
     (rest \<noteq> [] \<longrightarrow> now \<noteq> [] \<and> slot (hd rest) \<noteq> slot (last now)) \<and>
     (\<exists>progress. db' = apply_batch (map delete_fact (filter (superseded (vs_target st) (set (now @ rest))) now) @ [progress]) db \<and>
        (if rest = [] then progress = Delete MetaCf EncodeVacuumStateKey
         else \<exists>next. progress = Put MetaCf EncodeVacuumStateKey next \<and>
           EncodeVacuumState \<lparr>vs_target = vs_target st, vs_phase = VacuumRunning, vs_cursor = fst (entry (last now))\<rparr> = Inr next))"

lemma ev_sorted_distinct: "sorted_wrt ev_less es \<Longrightarrow> distinct es"
  by (induction es) (auto simp: ev_less_def)

lemma apply_batch_single: "apply_batch (ops @ [op]) db = apply_op op (apply_batch ops db)"
  by (simp add: apply_batch_def)

lemma pass_wrote_last:
  assumes "pass_wrote st db now rest db'"
  obtains progress where
    "db' = apply_op progress (apply_batch (map delete_fact (filter (superseded (vs_target st) (set (now @ rest))) now)) db)"
    "if rest = [] then progress = Delete MetaCf EncodeVacuumStateKey
     else \<exists>v. progress = Put MetaCf EncodeVacuumStateKey v \<and>
       EncodeVacuumState \<lparr>vs_target = vs_target st, vs_phase = VacuumRunning, vs_cursor = fst (entry (last now))\<rparr> = Inr v"
  using assms unfolding pass_wrote_def apply_batch_single by blast

context write_engine
begin

lemma pass_writes:
  assumes "facts_ok (db_facts db)" "DeleteObsoleteFactVersions engine st db = (result, db')"
  shows "(\<exists>e. db' = db \<and> result = Inl e) \<or>
    (\<exists>now rest. pass_wrote st db now rest db' \<and> (\<forall>completed. result = Inr completed \<longrightarrow> completed = (rest = [])))"
proof -
  obtain now rest where split: "after_cursor (vs_cursor st) (db_facts db) = now @ rest"
    and loop: "cleanup_loop (VacuumCleanupPlanner (vs_target st) kDefaultKeysPerBatch)
        (cleanup_start (vs_cursor st) (db_facts db)) [] =
      Inr (rest = [], map delete_fact (filter (superseded (vs_target st) (set (after_cursor (vs_cursor st) (db_facts db)))) now),
           planner_at (vs_target st) kDefaultKeysPerBatch now)"
    and stop: "rest \<noteq> [] \<Longrightarrow> now \<noteq> [] \<and> slot (hd rest) \<noteq> slot (last now)"
    by (rule cleanup_pass [OF assms(1), of kDefaultKeysPerBatch "vs_cursor st" "vs_target st"])
      (simp add: kDefaultKeysPerBatch_def, blast)
  let ?ds = "map delete_fact (filter (superseded (vs_target st) (set (now @ rest))) now)"
  define step where "step = (if rest = [] then Inr (Delete MetaCf EncodeVacuumStateKey)
    else sbind (EncodeVacuumState \<lparr>vs_target = vs_target st, vs_phase = VacuumRunning,
                  vs_cursor = vp_last_key (planner_at (vs_target st) kDefaultKeysPerBatch now)\<rparr>)
           (\<lambda>next. Inr (Put MetaCf EncodeVacuumStateKey next)))"
  have run: "DeleteObsoleteFactVersions engine st db =
      (case step of Inl e \<Rightarrow> (Inl e, db)
       | Inr progress \<Rightarrow> (case engine True db (?ds @ [progress]) of
            (RocksOk, db') \<Rightarrow> (Inr (rest = []), db')
          | (failed, db') \<Rightarrow> (Inl (FromMetadataWriteFailure failed), db')))"
    unfolding DeleteObsoleteFactVersions_def loop unfolding split step_def sum.case prod.case ..
  show ?thesis
  proof (cases step)
    case (Inl e)
    with run assms(2) show ?thesis by simp
  next
    case (Inr progress)
    obtain status db2 where e: "engine True db (?ds @ [progress]) = (status, db2)" by fastforce
    have db': "db' = db2" and r: "\<forall>c. result = Inr c \<longrightarrow> status = RocksOk \<and> c = (rest = [])"
      and f: "status \<noteq> RocksOk \<longrightarrow> (\<exists>e. result = Inl e)"
      using run assms(2) Inr e by (auto split: rocks_status.splits)
    have "if rest = [] then progress = Delete MetaCf EncodeVacuumStateKey
         else \<exists>next. progress = Put MetaCf EncodeVacuumStateKey next \<and>
           EncodeVacuumState \<lparr>vs_target = vs_target st, vs_phase = VacuumRunning, vs_cursor = fst (entry (last now))\<rparr> = Inr next"
      using Inr stop by (auto simp: step_def sbind_Inr_iff planner_at_def split: if_splits)
    then have "pass_wrote st db now rest db'" if "db' = apply_batch (?ds @ [progress]) db"
      using that split stop unfolding pass_wrote_def by blast
    moreover have "db' = apply_batch (?ds @ [progress]) db \<or> db' = db \<and> status \<noteq> RocksOk"
      using atomic [OF e] written e db' by (cases status) auto
    ultimately show ?thesis using r f by blast
  qed
qed

lemma pass_facts:
  assumes "facts_ok (db_facts db)" "kv_sorted (db_meta db)" "pass_wrote st db now rest db'"
  shows "facts_ok (db_facts db')"
    "set (events_of (db_facts db')) =
       set (events_of (db_facts db)) - set (filter (superseded (vs_target st) (set (now @ rest))) now)"
    "kv_sorted (db_meta db')" "k \<noteq> EncodeVacuumStateKey \<Longrightarrow> kv_get (db_meta db') k = kv_get (db_meta db) k"
    "vacuumed (vs_target st) (db_facts db) (db_facts db')"
proof -
  let ?ds = "filter (superseded (vs_target st) (set (now @ rest))) now"
  let ?db = "apply_batch (map delete_fact ?ds) db"
  have sub: "set (now @ rest) \<subseteq> set (events_of (db_facts db))"
    using assms(3) unfolding pass_wrote_def after_cursor_def by (metis filter_is_subset)
  note del = apply_deletes [OF assms(1), of ?ds]
  have ev: "set (events_of (db_facts ?db)) = set (events_of (db_facts db)) - set ?ds"
    using apply_delete_events [OF assms(1), of ?ds] sub by auto
  obtain progress where db': "db' = apply_op progress ?db"
    and p: "progress = Delete MetaCf EncodeVacuumStateKey \<or> (\<exists>v. progress = Put MetaCf EncodeVacuumStateKey v)"
    using pass_wrote_last [OF assms(3)] by metis
  then have same: "db_facts db' = db_facts ?db"
    and meta: "db_meta db' = kv_delete EncodeVacuumStateKey (db_meta db) \<or>
      (\<exists>next. db_meta db' = kv_put EncodeVacuumStateKey next (db_meta db))"
    using del by auto
  show f: "facts_ok (db_facts db')" and e: "set (events_of (db_facts db')) = set (events_of (db_facts db)) - set ?ds"
    using same del ev by auto
  show "kv_sorted (db_meta db')" using meta assms(2) kv_put_sorted kv_delete_sorted by metis
  show "k \<noteq> EncodeVacuumStateKey \<Longrightarrow> kv_get (db_meta db') k = kv_get (db_meta db) k"
    using meta assms(2) by (auto simp: kv_get_put kv_get_delete)
  show "vacuumed (vs_target st) (db_facts db) (db_facts db')"
    unfolding vacuumed_def e using f by (auto dest: superseded_mono [OF _ sub, unfolded set_append])
qed

lemma pass_continues:
  assumes "facts_ok (db_facts db)" "kv_sorted (db_meta db)" "pass_wrote st db now rest db'" "rest \<noteq> []"
  obtains encoded where "kv_get (db_meta db') EncodeVacuumStateKey = Some encoded"
    "DecodeVacuumState encoded =
       Inr \<lparr>vs_target = vs_target st, vs_phase = VacuumRunning, vs_cursor = fst (entry (last now))\<rparr>"
    "card (set (after_cursor (fst (entry (last now))) (db_facts db'))) < card (set (after_cursor (vs_cursor st) (db_facts db)))"
proof -
  note f = pass_facts [OF assms(1-3)]
  have now: "now \<noteq> []" "after_cursor (vs_cursor st) (db_facts db) = now @ rest"
    using assms(3,4) by (simp_all add: pass_wrote_def)
  obtain encoded where enc: "EncodeVacuumState
        \<lparr>vs_target = vs_target st, vs_phase = VacuumRunning, vs_cursor = fst (entry (last now))\<rparr> = Inr encoded"
    "kv_get (db_meta db') EncodeVacuumStateKey = Some encoded"
  proof -
    obtain v where "db' = apply_op (Put MetaCf EncodeVacuumStateKey v)
        (apply_batch (map delete_fact (filter (superseded (vs_target st) (set (now @ rest))) now)) db)"
      "EncodeVacuumState \<lparr>vs_target = vs_target st, vs_phase = VacuumRunning, vs_cursor = fst (entry (last now))\<rparr> = Inr v"
      by (rule pass_wrote_last [OF assms(3)]) (use assms(4) in auto)
    with that [of v] assms(1,2) show thesis
      using apply_deletes [OF assms(1)] by (simp add: kv_get_put)
  qed
  have "card (set rest) < card (set (now @ rest))"
  proof (rule psubset_card_mono)
    have "distinct (now @ rest)"
      unfolding now(2) [symmetric] after_cursor_def
      using ev_sorted_distinct [OF facts_ok_sorted [OF assms(1)]] by simp
    with now(1) show "set rest \<subset> set (now @ rest)" by (cases now) auto
  qed simp
  with that [OF enc(2)] enc(1) show thesis
    using pass_events [OF assms(1) now(2,1) f(1,2)] now(2) by (simp add: vacuum_record.decode_encode)
qed

lemma pass_ok:
  assumes "facts_ok (db_facts db)" "kv_sorted (db_meta db)" "DeleteObsoleteFactVersions engine st db = (result, db')"
  shows "vacuumed (vs_target st) (db_facts db) (db_facts db')" "kv_sorted (db_meta db')"
    "k \<noteq> EncodeVacuumStateKey \<Longrightarrow> kv_get (db_meta db') k = kv_get (db_meta db) k"
  using pass_writes [OF assms(1,3)] pass_facts [OF assms(1,2)] vacuumed_refl [OF assms(1)] assms(2) by metis+

lemma pass_succeeds:
  assumes "facts_ok (db_facts db)" "reliable engine" "vs_target st \<noteq> 0"
  shows "\<exists>completed db'. DeleteObsoleteFactVersions engine st db = (Inr completed, db')"
proof -
  obtain now rest where loop: "cleanup_loop (VacuumCleanupPlanner (vs_target st) kDefaultKeysPerBatch)
        (cleanup_start (vs_cursor st) (db_facts db)) [] =
      Inr (rest = [], map delete_fact (filter (superseded (vs_target st) (set (after_cursor (vs_cursor st) (db_facts db)))) now),
           planner_at (vs_target st) kDefaultKeysPerBatch now)"
    and stop: "rest \<noteq> [] \<Longrightarrow> now \<noteq> [] \<and> slot (hd rest) \<noteq> slot (last now)"
    by (rule cleanup_pass [OF assms(1), of kDefaultKeysPerBatch "vs_cursor st" "vs_target st"])
      (simp add: kDefaultKeysPerBatch_def, blast)
  have enc: "\<exists>v. EncodeVacuumState \<lparr>vs_target = vs_target st, vs_phase = VacuumRunning, vs_cursor = fst (entry e)\<rparr> = Inr v" for e
    using assms(3) by (simp add: vacuum_record.encode_iff VacuumState_Validate_def vacuum_payload_def entry_def
        kMaxPayloadBytes_def kEncodedFactKeyBytes_def)
  have wr: "\<exists>db'. engine sync db wb = (RocksOk, db')" for sync db wb using assms(2) by (cases "engine sync db wb") (metis fst_conv reliable_def)
  let ?ds = "map delete_fact (filter (superseded (vs_target st) (set (after_cursor (vs_cursor st) (db_facts db)))) now)"
  show ?thesis
  proof (cases "rest = []")
    case True
    obtain db' where "engine True db (?ds @ [Delete MetaCf EncodeVacuumStateKey]) = (RocksOk, db')" using wr by blast
    with loop True show ?thesis by (auto simp: DeleteObsoleteFactVersions_def)
  next
    case False
    with stop have "vp_last_key (planner_at (vs_target st) kDefaultKeysPerBatch now) = fst (entry (last now))"
      by (simp add: planner_at_def)
    moreover obtain v where "EncodeVacuumState \<lparr>vs_target = vs_target st, vs_phase = VacuumRunning, vs_cursor = fst (entry (last now))\<rparr> = Inr v"
      using enc by blast
    moreover obtain db' where "engine True db (?ds @ [Put MetaCf EncodeVacuumStateKey v]) = (RocksOk, db')" using wr by blast
    ultimately show ?thesis using loop False by (auto simp: DeleteObsoleteFactVersions_def)
  qed
qed

lemma ResumeVacuum_spec:
  assumes "facts_ok (db_facts db)" "kv_sorted (db_meta db)"
  shows "\<exists>result db'. ResumeVacuum engine st db = Some (result, db') \<and>
    vacuumed (vs_target st) (db_facts db) (db_facts db') \<and> kv_sorted (db_meta db') \<and>
    (\<forall>k. k \<noteq> EncodeVacuumStateKey \<longrightarrow> kv_get (db_meta db') k = kv_get (db_meta db) k) \<and>
    (reliable engine \<and> vs_target st \<noteq> 0 \<longrightarrow> result = OK) \<and>
    (result = OK \<longrightarrow> cleaned_to (vs_target st) (vs_cursor st) (db_facts db) \<longrightarrow>
       (\<forall>e \<in> set (events_of (db_facts db')). \<not> superseded (vs_target st) (set (events_of (db_facts db'))) e))"
  using assms
proof (induction "card (set (after_cursor (vs_cursor st) (db_facts db)))" arbitrary: st db rule: less_induct)
  case less
  obtain r db1 where d: "DeleteObsoleteFactVersions engine st db = (r, db1)" by fastforce
  note ok = pass_ok [OF less.prems d]
  note unfold = ResumeVacuum.simps [of engine st db] 
  consider (error) e where "r = Inl e" | (wrote) now rest where "pass_wrote st db now rest db1" "r = Inr (rest = [])"
    using pass_writes [OF less.prems(1) d] by (cases r) auto
  then show ?case
  proof cases
    case error
    with pass_succeeds [OF less.prems(1), of st] d have "\<not> (reliable engine \<and> vs_target st \<noteq> 0)" by auto
    with error unfold d ok show ?thesis by simp
  next
    case wrote
    note f = pass_facts [OF less.prems wrote(1)]
    have split: "after_cursor (vs_cursor st) (db_facts db) = now @ rest" using wrote(1) by (simp add: pass_wrote_def)
    show ?thesis
    proof (cases "rest = []")
      case True
      have "\<not> superseded (vs_target st) (set (events_of (db_facts db1))) e"
        if "cleaned_to (vs_target st) (vs_cursor st) (db_facts db)" "e \<in> set (events_of (db_facts db1))" for e
        using pass_cleaned [OF less.prems(1) split f(1,2) that] True by auto
      with unfold d ok wrote(2) True show ?thesis by simp
    next
      case False
      let ?st = "\<lparr>vs_target = vs_target st, vs_phase = VacuumRunning, vs_cursor = fst (entry (last now))\<rparr>"
      obtain encoded where enc: "kv_get (db_meta db1) EncodeVacuumStateKey = Some encoded" "DecodeVacuumState encoded = Inr ?st"
        and card: "card (set (after_cursor (vs_cursor ?st) (db_facts db1))) < card (set (after_cursor (vs_cursor st) (db_facts db)))"
        using pass_continues [OF less.prems wrote(1) False] by auto
      have step: "ResumeVacuum engine st db = ResumeVacuum engine ?st db1"
        using unfold d wrote(2) False enc by simp
      have cl: "cleaned_to (vs_target st) (vs_cursor st) (db_facts db) \<Longrightarrow> cleaned_to (vs_target ?st) (vs_cursor ?st) (db_facts db1)"
        using pass_cleaned_to [OF less.prems(1) split f(1,2)] wrote(1) False by (simp add: pass_wrote_def)
      obtain result db' where IH: "ResumeVacuum engine ?st db1 = Some (result, db')"
        "vacuumed (vs_target st) (db_facts db1) (db_facts db')" "kv_sorted (db_meta db')"
        "\<forall>k. k \<noteq> EncodeVacuumStateKey \<longrightarrow> kv_get (db_meta db') k = kv_get (db_meta db1) k"
        "reliable engine \<and> vs_target st \<noteq> 0 \<longrightarrow> result = OK"
        "result = OK \<longrightarrow> cleaned_to (vs_target ?st) (vs_cursor ?st) (db_facts db1) \<longrightarrow>
           (\<forall>e \<in> set (events_of (db_facts db')). \<not> superseded (vs_target st) (set (events_of (db_facts db'))) e)"
        using less.hyps [OF card f(1,3)] by auto
      show ?thesis
        unfolding step IH(1) using IH(2-6) cl vacuumed_trans [OF ok(1) IH(2)] ok(3) by auto
    qed
  qed
qed

end

section \<open>Pruning and the whole vacuum\<close>

definition pruned :: "commit_seq \<Rightarrow> kv \<Rightarrow> kv \<Rightarrow> bool" where
  "pruned boundary m m' \<longleftrightarrow> kv_sorted m' \<and>
     (\<forall>k. kv_get m' k = kv_get m k \<or>
        kv_get m' k = None \<and> StartsWith k kSequenceMetaPrefix \<and> length k = kSequenceMetaKeyBytes \<and>
        ParseSequenceMetaKey k < boundary)"

lemma pruned_refl: "kv_sorted m \<Longrightarrow> pruned boundary m m"
  by (simp add: pruned_def)

lemma pruned_trans: "pruned boundary m m' \<Longrightarrow> pruned boundary m' m'' \<Longrightarrow> pruned boundary m m''"
  unfolding pruned_def by metis

lemma apply_meta_deletes:
  "kv_sorted (db_meta db) \<Longrightarrow>
   db_facts (apply_batch (map (\<lambda>e. Delete MetaCf (fst e)) es) db) = db_facts db \<and>
   kv_sorted (db_meta (apply_batch (map (\<lambda>e. Delete MetaCf (fst e)) es) db)) \<and>
   kv_get (db_meta (apply_batch (map (\<lambda>e. Delete MetaCf (fst e)) es) db)) k =
     (if k \<in> fst ` set es then None else kv_get (db_meta db) k)"
proof (induction es arbitrary: db)
  case (Cons x es)
  have s: "kv_sorted (db_meta (db\<lparr>db_meta := kv_delete (fst x) (db_meta db)\<rparr>))"
    using Cons.prems by (simp add: kv_delete_sorted)
  from Cons.IH [OF s] show ?case by (simp add: apply_batch_def kv_get_delete)
qed (simp add: apply_batch_def)

lemma parse_sequence_key: "ParseSequenceMetaKey (kSequenceMetaPrefix @ AppendU64 c) = c"
  using be_word_Append(3) [of c] by (simp add: ParseSequenceMetaKey_def be_word_def)

lemma pruned_keeps:
  "pruned boundary m m' \<Longrightarrow> boundary \<le> c \<Longrightarrow> EncodeSequenceMetaKey c = Inr k \<Longrightarrow> kv_get m' k = kv_get m k"
  unfolding pruned_def EncodeSequenceMetaKey_def
  using parse_sequence_key [of c] by (auto simp: kSequenceMetaPrefix_def not_less split: if_splits)

text \<open>Pruning changes sequence records below the boundary and the retention watermark only.\<close>

definition same_index :: "fact_store \<Rightarrow> fact_store \<Rightarrow> bool" where
  "same_index s s' \<longleftrightarrow>
     fs_visible s' = fs_visible s \<and> fs_recent s' = fs_recent s \<and> fs_history s' = fs_history s \<and> fs_cache s' = fs_cache s"

text \<open>Outcome records, and the sequence records the retention watermark promises, survive.\<close>

definition kept_key :: "commit_seq \<Rightarrow> bytes \<Rightarrow> bool" where
  "kept_key retention k \<longleftrightarrow>
     (\<exists>t :: u64. k = ascii ''txn/'' @ AppendU64 t) \<or>
     (\<exists>c :: u64. retention \<le> c \<and> k = ascii ''sequence/'' @ AppendU64 c)"

definition records_kept :: "fact_store \<Rightarrow> fact_store \<Rightarrow> bool" where
  "records_kept s s' \<longleftrightarrow>
     fs_retention s \<le> fs_retention s' \<and>
     (\<forall>k. kept_key (fs_retention s') k \<longrightarrow> kv_get (db_meta (fs_db s')) k = kv_get (db_meta (fs_db s)) k)"

lemma kept_key_mono: "kept_key q k \<Longrightarrow> q' \<le> q \<Longrightarrow> kept_key q' k"
  by (auto simp: kept_key_def intro: order_trans)

lemma kept_key_other:
  assumes "kept_key q k"
  shows "k \<noteq> EncodeSequenceRetentionWatermarkKey" "k \<noteq> EncodeVacuumStateKey" "k \<noteq> EncodeOldestReadableWatermarkKey"
  using assms by (auto simp: kept_key_def EncodeSequenceRetentionWatermarkKey_def EncodeVacuumStateKey_def
      EncodeOldestReadableWatermarkKey_def)

lemma records_kept_refl: "records_kept s s"
  by (simp add: records_kept_def)

lemma records_kept_trans: "records_kept s s' \<Longrightarrow> records_kept s' s'' \<Longrightarrow> records_kept s s''"
  unfolding records_kept_def by (metis kept_key_mono order_trans)

lemma pruned_kept:
  "pruned boundary m m' \<Longrightarrow> boundary \<le> q \<Longrightarrow> kept_key q k \<Longrightarrow> kv_get m' k = kv_get m k"
  unfolding pruned_def kept_key_def
  using parse_sequence_key by (fastforce simp: kSequenceMetaPrefix_def StartsWith_def)

definition prune_effect :: "commit_seq \<Rightarrow> fact_store \<Rightarrow> fact_store \<Rightarrow> bool" where
  "prune_effect boundary s s' \<longleftrightarrow>
     same_index s s' \<and> db_facts (fs_db s') = db_facts (fs_db s) \<and> kv_sorted (db_meta (fs_db s')) \<and>
     (\<forall>c k. boundary \<le> c \<longrightarrow> EncodeSequenceMetaKey c = Inr k \<longrightarrow>
        kv_get (db_meta (fs_db s')) k = kv_get (db_meta (fs_db s)) k) \<and>
     (fs_retention s' = fs_retention s \<or> fs_retention s' = boundary \<and> fs_retention s < boundary) \<and>
     records_kept s s'"

lemma prune_effect_refl: "kv_sorted (db_meta (fs_db s)) \<Longrightarrow> prune_effect boundary s s"
  by (simp add: prune_effect_def same_index_def records_kept_refl)

lemma retention_key_not_sequence: "EncodeSequenceMetaKey c = Inr k \<Longrightarrow> k \<noteq> EncodeSequenceRetentionWatermarkKey"
  by (auto simp: EncodeSequenceMetaKey_def EncodeSequenceRetentionWatermarkKey_def ascii_def split: if_splits)

context write_engine
begin

lemma prune_loop_ok:
  "kv_sorted (db_meta db) \<Longrightarrow> prune_loop engine sync boundary m db = (result, db') \<Longrightarrow>
   db_facts db' = db_facts db \<and> pruned boundary (db_meta db) (db_meta db')"
proof (induction "length m" arbitrary: m db rule: less_induct)
  case less
  show ?case
  proof (cases "prune_batch boundary 1024 m []")
    case (Inl e)
    with less.prems show ?thesis
      by (subst (asm) prune_loop.simps) (auto simp: pruned_refl split: if_splits)
  next
    case (Inr p)
    obtain deletes rest where p: "p = (deletes, rest)" by (cases p)
    obtain gone where gone: "m = gone @ rest" "deletes = map (\<lambda>e. Delete MetaCf (fst e)) gone"
      "\<forall>e \<in> set gone. StartsWith (fst e) kSequenceMetaPrefix \<and> length (fst e) = kSequenceMetaKeyBytes \<and>
        ParseSequenceMetaKey (fst e) < boundary"
      using prune_batch_split [of boundary 1024 m "[]" deletes rest] Inr p by auto
    obtain status db1 where e: "engine sync db deletes = (status, db1)" by fastforce
    have "db1 = db \<or> db1 = apply_batch deletes db" using atomic [OF e] .
    then have db1: "db_facts db1 = db_facts db \<and> pruned boundary (db_meta db) (db_meta db1)"
      using apply_meta_deletes [OF less.prems(1), of gone] gone less.prems(1)
      by (auto simp: pruned_def split: if_splits)
    consider (stop) "(result, db') = (OK, db)"
      | (go) "deletes \<noteq> []" "status = RocksOk" "prune_loop engine sync boundary rest db1 = (result, db')"
      | (failed) "db' = db1"
      using less.prems(2) Inr p e
      by (subst (asm) (2) prune_loop.simps) (auto split: if_splits rocks_status.splits)
    then show ?thesis
    proof cases
      case go
      have "length rest < length m" using go(1) gone(1,2) by simp
      moreover have "kv_sorted (db_meta db1)" using db1 by (simp add: pruned_def)
      ultimately have "db_facts db' = db_facts db1 \<and> pruned boundary (db_meta db1) (db_meta db')"
        using less.hyps go(3) by blast
      with db1 show ?thesis by (auto intro: pruned_trans)
    qed (use db1 less.prems(1) in \<open>auto simp: pruned_refl\<close>)
  qed
qed

lemma engine_meta_put:
  assumes "engine sync db [Put MetaCf key v] = (status, db')" "kv_sorted (db_meta db)"
  shows "db_facts db' = db_facts db" "kv_sorted (db_meta db')" "k \<noteq> key \<Longrightarrow> kv_get (db_meta db') k = kv_get (db_meta db) k"
    "status = RocksOk \<Longrightarrow> kv_get (db_meta db') key = Some v"
  using atomic [OF assms(1)] written [of sync db "[Put MetaCf key v]" db'] assms
  by (auto simp: apply_batch_def kv_put_sorted kv_get_put)

lemma prune_effect_ok:
  assumes "kv_sorted (db_meta (fs_db s))" "PruneSequenceRecords engine sync boundary s = (result, s')"
  shows "prune_effect boundary s s'"
proof -
  have loop: "prune_effect boundary s (s1\<lparr>fs_db := db'\<rparr>)"
    if "prune_effect boundary s s1" "prune_loop engine sync boundary m (fs_db s1) = (result, db')"
      "boundary \<le> fs_retention s1" for s1 m db' result
  proof -
    have "kv_sorted (db_meta (fs_db s1))" using that(1) by (simp add: prune_effect_def)
    note l = prune_loop_ok [OF this that(2)]
    have "kv_get (db_meta db') k = kv_get (db_meta (fs_db s1)) k" if "boundary \<le> c" "EncodeSequenceMetaKey c = Inr k" for c k
      using pruned_keeps [OF conjunct2 [OF l] that] .
    moreover have "records_kept s1 (s1\<lparr>fs_db := db'\<rparr>)"
      using pruned_kept [OF conjunct2 [OF l] that(3)] by (simp add: records_kept_def)
    then have "records_kept s (s1\<lparr>fs_db := db'\<rparr>)"
      using that(1) by (auto simp: prune_effect_def intro: records_kept_trans)
    ultimately show ?thesis using l that(1) by (simp add: prune_effect_def pruned_def same_index_def)
  qed
  have mark: "prune_effect boundary s (s\<lparr>fs_db := db, fs_retention := r\<rparr>)"
    if "engine True (fs_db s) [Put MetaCf EncodeSequenceRetentionWatermarkKey v] = (status, db)"
      "r = fs_retention s \<or> r = boundary \<and> fs_retention s < boundary" for v status db r
  proof -
    note put = engine_meta_put [OF that(1) assms(1)]
    have "records_kept s (s\<lparr>fs_db := db, fs_retention := r\<rparr>)"
      using put(3) kept_key_other(1) that(2) by (auto simp: records_kept_def)
    then show ?thesis using put that(2) retention_key_not_sequence by (auto simp: prune_effect_def same_index_def)
  qed
  show ?thesis
  proof (cases "boundary \<le> 1")
    case True
    with assms(2) prune_effect_refl [OF assms(1)] show ?thesis by (simp add: PruneSequenceRecords_def)
  next
    case False
    define marked where "marked =
          (if fs_retention s < boundary
           then (case EncodeWatermark boundary of
                   Inl e \<Rightarrow> (Inl e, s)
                 | Inr watermark \<Rightarrow>
                     (case engine True (fs_db s) [Put MetaCf EncodeSequenceRetentionWatermarkKey watermark] of
                        (RocksOk, db) \<Rightarrow> (OK, s\<lparr>fs_db := db, fs_retention := boundary\<rparr>)
                      | (failed, db) \<Rightarrow> (Inl (FromMetadataWriteFailure failed), s\<lparr>fs_db := db\<rparr>)))
           else (OK, s))"
    obtain r1 s1 where m: "marked = (r1, s1)" by fastforce
    have effect: "prune_effect boundary s s1"
    proof (cases "fs_retention s < boundary \<and> ok (EncodeWatermark boundary)")
      case False
      with m prune_effect_refl [OF assms(1)] show ?thesis by (auto simp: marked_def not_ok_iff split: if_splits)
    next
      case True
      then obtain v where v: "EncodeWatermark boundary = Inr v" by (cases "EncodeWatermark boundary") auto
      obtain status db where e: "engine True (fs_db s) [Put MetaCf EncodeSequenceRetentionWatermarkKey v] = (status, db)"
        by fastforce
      then have "s1 = s\<lparr>fs_db := db, fs_retention := boundary\<rparr> \<or> s1 = s\<lparr>fs_db := db\<rparr>"
        using m v True by (auto simp: marked_def split: rocks_status.splits)
      with mark [OF e, of boundary] mark [OF e, of "fs_retention s"] True show ?thesis by (cases s) auto
    qed
    have retained: "boundary \<le> fs_retention s1" if "r1 = OK"
      using m that by (auto simp: marked_def not_less split: if_splits sum.splits prod.splits rocks_status.splits)
    have "(result, s') = and_then marked (\<lambda>s. let (result, db) =
        prune_loop engine sync boundary (Seek (db_meta (fs_db s)) kSequenceMetaPrefix) (fs_db s) in (result, s\<lparr>fs_db := db\<rparr>))"
      using assms(2) False unfolding PruneSequenceRecords_def marked_def by simp
    then show ?thesis
      using effect loop [OF effect] retained m by (cases r1) (auto split: prod.splits)
  qed
qed

lemma run_sequence_prune_ok:
  assumes "kv_sorted (db_meta (fs_db (rt_store rs)))" "run_sequence_prune opts engine boundary rs = (result, rs')"
  shows "prune_effect boundary (rt_store rs) (rt_store rs') \<and> rt_oldest_readable rs' = rt_oldest_readable rs"
proof (cases "vo_prune opts")
  case True
  obtain r s where p: "PruneSequenceRecords engine (vo_prune_sync opts) boundary (rt_store rs) = (r, s)" by fastforce
  have "prune_effect boundary (rt_store rs) (demand_recovery r s)"
    using prune_effect_ok [OF assms(1) p] by (auto simp: prune_effect_def same_index_def records_kept_def demand_recovery_def split: sum.splits)
  with assms(2) True p show ?thesis by (auto simp: run_sequence_prune_def)
qed (use assms prune_effect_refl in \<open>auto simp: run_sequence_prune_def\<close>)

end

text \<open>The store stays consistent under the removal of superseded versions.\<close>

lemma chain_between_vacuumed:
  assumes "chain_between P P ch" "P' \<subseteq> P" "\<forall>(v, q) \<in> P - P'. \<exists>q'. (v, q') \<in> P \<and> q < q'"
  shows "chain_between P' P' ch"
proof -
  have d: "distinct (map fst ch)" using assms(1) descending_distinct by (simp add: chain_between_def)
  have "c \<in> P'" if c: "c \<in> set ch" for c
  proof (rule ccontr)
    obtain v q where vq: "c = (v, q)" by (cases c)
    assume "c \<notin> P'"
    with vq c assms(1,3) obtain q' where q': "(v, q') \<in> P" "q < q'" unfolding chain_between_def by fast
    then obtain q'' where q'': "(v, q'') \<in> set ch" "q' \<le> q''" using assms(1) unfolding chain_between_def by fast
    then have "q'' = q" using c vq d by (metis eq_key_imp_eq_value)
    with q' q'' show False by simp
  qed
  with assms(1,2) show ?thesis unfolding chain_between_def by blast
qed

lemma cache_sound_vacuumed:
  assumes "cache_sound m c" "vacuumed target m m'"
  shows "cache_sound m' c"
proof -
  have chain: "chain_between (at_identity (history_of m') i) (at_identity (history_of m') i) ch"
    if "chain_between (at_identity (history_of m) i) (at_identity (history_of m) i) ch" for i ch
  proof (rule chain_between_vacuumed [OF that])
    show "at_identity (history_of m') i \<subseteq> at_identity (history_of m) i"
      using assms(2) by (auto simp: at_identity_def history_of_def vacuumed_def)
    show "\<forall>(v, q) \<in> at_identity (history_of m) i - at_identity (history_of m') i.
        \<exists>q'. (v, q') \<in> at_identity (history_of m) i \<and> q < q'"
    proof clarify
      fix v q
      assume in_m: "(v, q) \<in> at_identity (history_of m) i" and "(v, q) \<notin> at_identity (history_of m') i"
      then obtain e where e: "e \<in> set (events_of m)" "i = IdentityOf (ev_ref e)" "v = ev_valid_from e" "q = ev_commit_seq e"
        by (auto simp: at_identity_def history_of_def)
      with \<open>(v, q) \<notin> _\<close> have "e \<notin> set (events_of m')" by (auto simp: at_identity_def history_of_def)
      with e assms(2) have "superseded target (set (events_of m)) e" by (auto simp: vacuumed_def)
      then obtain f where f: "f \<in> set (events_of m)" "ev_ref f = ev_ref e" "ev_valid_from f = ev_valid_from e"
        "ev_commit_seq e < ev_commit_seq f" by (auto simp: superseded_def)
      have "(ev_valid_from f, ev_commit_seq f) \<in> at_identity (history_of m) (IdentityOf (ev_ref f))"
        using f(1) by (auto simp: at_identity_def history_of_def)
      with f e show "\<exists>q'. (v, q') \<in> at_identity (history_of m) i \<and> q < q'" by auto
    qed
  qed
  then have "slot_holds (history_of m') (history_of m') c k" if "slot_holds (history_of m) (history_of m) c k" for k
    using that unfolding slot_holds_def Let_def by (blast intro: chain)
  with assms(1) show ?thesis by (simp add: cache_sound_def cache_ok_def)
qed

lemma store_ok_vacuumed:
  assumes "store_ok s" "vacuumed target (db_facts (fs_db s)) (db_facts (fs_db s'))" "kv_sorted (db_meta (fs_db s'))"
    "same_index s s'"
  shows "store_ok s'"
proof -
  let ?m = "db_facts (fs_db s)" and ?m' = "db_facts (fs_db s')"
  have sub: "set (events_of ?m') \<subseteq> set (events_of ?m)" using assms(2) by (simp add: vacuumed_def)
  have "recent_sound ?m' x" if "recent_sound ?m x" for x using that sub unfolding recent_sound_def by blast
  moreover have "history_sound ?m' h" if "history_sound ?m h" for h using that sub unfolding history_sound_def by blast
  moreover have "cache_sound ?m' c" if "cache_sound ?m c" for c using cache_sound_vacuumed [OF that assms(2)] .
  ultimately show ?thesis
    using assms sub by (auto simp: store_ok_def same_index_def vacuumed_def elim!: option.pred_mono_strong)
qed

text \<open>What the whole operation does, on every path.\<close>

definition vacuum_effect :: "commit_seq \<Rightarrow> fact_store \<Rightarrow> fact_store \<Rightarrow> bool" where
  "vacuum_effect target s s' \<longleftrightarrow>
     same_index s s' \<and> vacuumed target (db_facts (fs_db s)) (db_facts (fs_db s')) \<and> kv_sorted (db_meta (fs_db s')) \<and>
     (\<forall>c k. target \<le> c \<longrightarrow> EncodeSequenceMetaKey c = Inr k \<longrightarrow>
        kv_get (db_meta (fs_db s')) k = kv_get (db_meta (fs_db s)) k) \<and>
     (fs_retention s' = fs_retention s \<or> fs_retention s' = target) \<and> records_kept s s'"

lemma vacuum_keys_not_sequence:
  "EncodeSequenceMetaKey c = Inr k \<Longrightarrow> k \<noteq> EncodeVacuumStateKey \<and> k \<noteq> EncodeOldestReadableWatermarkKey"
  by (auto simp: EncodeSequenceMetaKey_def EncodeVacuumStateKey_def EncodeOldestReadableWatermarkKey_def ascii_def
      split: if_splits)

lemma prune_vacuum_effect:
  "facts_ok (db_facts (fs_db s)) \<Longrightarrow> prune_effect target s s' \<Longrightarrow> vacuum_effect target s s'"
  by (auto simp: prune_effect_def vacuum_effect_def vacuumed_refl)

lemma vacuum_effect_trans:
  assumes "vacuum_effect target s s'" "vacuum_effect target s' s''"
  shows "vacuum_effect target s s''"
  using assms vacuumed_trans [of target "db_facts (fs_db s)" "db_facts (fs_db s')" "db_facts (fs_db s'')"]
    records_kept_trans
  by (auto simp: vacuum_effect_def same_index_def)

lemma demand_recovery_effect: "vacuum_effect target s s' \<Longrightarrow> vacuum_effect target s (demand_recovery r s')"
  by (auto simp: vacuum_effect_def same_index_def records_kept_def demand_recovery_def split: sum.splits)

lemma demand_recovery_db [simp]: "fs_db (demand_recovery r s) = fs_db s"
  by (auto simp: demand_recovery_def split: sum.splits)

context write_engine
begin

lemma boundary_write:
  assumes "kv_sorted (db_meta db)" "wb = [Put MetaCf EncodeVacuumStateKey a, Put MetaCf EncodeOldestReadableWatermarkKey b]"
    "engine True db wb = (status, db')"
  shows "db_facts db' = db_facts db" "kv_sorted (db_meta db')"
    "k \<noteq> EncodeVacuumStateKey \<Longrightarrow> k \<noteq> EncodeOldestReadableWatermarkKey \<Longrightarrow> kv_get (db_meta db') k = kv_get (db_meta db) k"
  using atomic [OF assms(3)] assms(1,2)
  by (auto simp: apply_batch_def kv_put_sorted kv_get_put)

end

definition vacuum_outcome ::
  "commit_seq option \<Rightarrow> commit_seq \<Rightarrow> retained_store \<Rightarrow> status \<Rightarrow> retained_store \<Rightarrow> bool" where
  "vacuum_outcome oldest_active target rs result rs' \<longleftrightarrow>
     (rs' = rs \<or>
      vacuum_effect target (rt_store rs) (rt_store rs') \<and> rt_oldest_readable rs \<le> target \<and> target \<le> fs_visible (rt_store rs) \<and>
      (rt_oldest_readable rs' = rt_oldest_readable rs \<and> db_facts (fs_db (rt_store rs')) = db_facts (fs_db (rt_store rs)) \<or>
       rt_oldest_readable rs' = target \<and> (\<forall>q. oldest_active = Some q \<longrightarrow> target \<le> q))) \<and>
     (result = OK \<longrightarrow> rt_oldest_readable rs' = target \<and>
       (target = rt_oldest_readable rs \<or>
        (\<forall>e \<in> set (events_of (db_facts (fs_db (rt_store rs')))).
           \<not> superseded target (set (events_of (db_facts (fs_db (rt_store rs'))))) e)))"

lemma vacuum_refused: "vacuum_outcome oldest_active target rs (Inl e) rs"
  by (simp add: vacuum_outcome_def)

context write_engine
begin

lemma vacuum_cleanup:
  assumes "store_ok (rt_store rs)" "rt_oldest_readable rs < target" "target \<le> fs_visible (rt_store rs)"
    "\<forall>q. oldest_active = Some q \<longrightarrow> target \<le> q"
    "db_facts db = db_facts (fs_db (rt_store rs))" "kv_sorted (db_meta db)"
    "\<And>k. k \<noteq> EncodeVacuumStateKey \<Longrightarrow> k \<noteq> EncodeOldestReadableWatermarkKey \<Longrightarrow>
       kv_get (db_meta db) k = kv_get (db_meta (fs_db (rt_store rs))) k"
  shows "\<exists>cleaned db'. ResumeVacuum engine \<lparr>vs_target = target, vs_phase = VacuumPrepared, vs_cursor = []\<rparr> db = Some (cleaned, db') \<and>
    vacuum_outcome oldest_active target rs cleaned
      \<lparr>rt_store = demand_recovery cleaned ((rt_store rs)\<lparr>fs_db := db'\<rparr>), rt_oldest_readable = target\<rparr>"
proof -
  have f: "facts_ok (db_facts db)" using assms(1,5) by (simp add: store_ok_def)
  obtain cleaned db' where r: "ResumeVacuum engine \<lparr>vs_target = target, vs_phase = VacuumPrepared, vs_cursor = []\<rparr> db = Some (cleaned, db')"
    "vacuumed target (db_facts db) (db_facts db')" "kv_sorted (db_meta db')"
    "\<forall>k. k \<noteq> EncodeVacuumStateKey \<longrightarrow> kv_get (db_meta db') k = kv_get (db_meta db) k"
    "cleaned = OK \<longrightarrow> (\<forall>e \<in> set (events_of (db_facts db')). \<not> superseded target (set (events_of (db_facts db'))) e)"
    using ResumeVacuum_spec [OF f assms(6), of "\<lparr>vs_target = target, vs_phase = VacuumPrepared, vs_cursor = []\<rparr>"]
      cleaned_to_start by auto
  have "kv_get (db_meta db') k = kv_get (db_meta (fs_db (rt_store rs))) k" if "EncodeSequenceMetaKey c = Inr k" for c k
    using assms(7) r(4) vacuum_keys_not_sequence [OF that] by simp
  moreover have "records_kept (rt_store rs) ((rt_store rs)\<lparr>fs_db := db'\<rparr>)"
    using assms(7) r(4) kept_key_other by (simp add: records_kept_def)
  ultimately have "vacuum_effect target (rt_store rs) ((rt_store rs)\<lparr>fs_db := db'\<rparr>)"
    using r(2,3) assms(5) by (simp add: vacuum_effect_def same_index_def)
  with r assms(2-4) show ?thesis
    by (intro exI conjI) (auto simp: vacuum_outcome_def intro: demand_recovery_effect)
qed

lemma vacuum_prune:
  assumes "store_ok (rt_store rs)" "vacuum_outcome oldest_active target rs OK rs1" "rt_oldest_readable rs \<le> target"
    "target \<le> fs_visible (rt_store rs)" "run_sequence_prune opts engine target rs1 = (result, rs')"
  shows "vacuum_outcome oldest_active target rs result rs'"
proof -
  have f: "facts_ok (db_facts (fs_db (rt_store rs)))" and m: "kv_sorted (db_meta (fs_db (rt_store rs)))"
    using assms(1) by (simp_all add: store_ok_def)
  have e1: "vacuum_effect target (rt_store rs) (rt_store rs1)"
    using assms(2) prune_vacuum_effect [OF f prune_effect_refl [OF m]] by (auto simp: vacuum_outcome_def)
  then have m1: "kv_sorted (db_meta (fs_db (rt_store rs1)))" and f1: "facts_ok (db_facts (fs_db (rt_store rs1)))"
    by (simp_all add: vacuum_effect_def vacuumed_def)
  note p = run_sequence_prune_ok [OF m1 assms(5)]
  have "vacuum_effect target (rt_store rs) (rt_store rs')"
    using vacuum_effect_trans [OF e1 prune_vacuum_effect [OF f1]] p by blast
  moreover have "db_facts (fs_db (rt_store rs')) = db_facts (fs_db (rt_store rs1))" using p by (simp add: prune_effect_def)
  ultimately show ?thesis
    using assms(2-4) p unfolding vacuum_outcome_def by auto
qed

lemma Vacuum_returns:
  assumes "store_ok (rt_store rs)"
  shows "\<exists>result rs'. FactStore_Vacuum opts engine oldest_active target rs = Some (result, rs') \<and>
    vacuum_outcome oldest_active target rs result rs'"
proof -
  let ?s = "rt_store rs" and ?v = "FactStore_Vacuum opts engine oldest_active target rs"
  let ?st = "\<lparr>vs_target = target, vs_phase = VacuumPrepared, vs_cursor = []\<rparr>"
  define wb where "wb = sbind (EncodeVacuumState ?st) (\<lambda>state. sbind (EncodeWatermark target) (\<lambda>watermark.
    Inr [Put MetaCf EncodeVacuumStateKey state, Put MetaCf EncodeOldestReadableWatermarkKey watermark]))"
  let ?pinned = "case oldest_active of None \<Rightarrow> False | Some q \<Rightarrow> q < target"
  let ?outside = "target < rt_oldest_readable rs \<or> target > fs_visible ?s"
  note def = FactStore_Vacuum_def [of opts engine oldest_active target rs, unfolded Let_def, folded wb_def]
  consider (refused) e where "?v = Some (Inl e, rs)"
    | (prune) "target = rt_oldest_readable rs" "target \<le> fs_visible ?s" "?v = Some (run_sequence_prune opts engine target rs)"
    | (run) "rt_oldest_readable rs < target" "target \<le> fs_visible ?s" "\<forall>q. oldest_active = Some q \<longrightarrow> target \<le> q"
        "\<not> fs_recovery ?s" "ok wb"
  proof (cases "fs_recovery ?s \<or> ?outside")
    case True
    then show thesis using def refused by (simp split: if_splits)
  next
    case False
    show thesis
    proof (cases "target = rt_oldest_readable rs")
      case True
      have "?v = Some (run_sequence_prune opts engine target rs)" using def False True by simp
      moreover have "target \<le> fs_visible ?s" using False by (simp add: not_less)
      ultimately show thesis using prune True by blast
    next
      case neq: False
      show thesis
      proof (cases "?pinned \<or> \<not> ok wb")
        case True
        then show thesis using def False neq refused by (cases wb) (simp_all split: if_splits)
      next
        case unpinned: False
        with False neq show thesis by (intro run) (auto simp: not_less split: option.splits)
      qed
    qed
  qed
  then show ?thesis
  proof cases
    case refused
    then show ?thesis using vacuum_refused by blast
  next
    case prune
    obtain result rs' where r: "run_sequence_prune opts engine target rs = (result, rs')" by fastforce
    have "vacuum_outcome oldest_active target rs OK rs" using prune(1) by (simp add: vacuum_outcome_def)
    from vacuum_prune [OF assms this _ prune(2) r] prune r show ?thesis by auto
  next
    case run
    then obtain a b where wb: "wb = Inr [Put MetaCf EncodeVacuumStateKey a, Put MetaCf EncodeOldestReadableWatermarkKey b]"
      by (cases wb) (auto simp: wb_def sbind_Inr_iff)
    obtain status db where e: "engine True (fs_db ?s) [Put MetaCf EncodeVacuumStateKey a, Put MetaCf EncodeOldestReadableWatermarkKey b] = (status, db)"
      by fastforce
    have m: "kv_sorted (db_meta (fs_db ?s))" and f: "facts_ok (db_facts (fs_db ?s))" using assms by (simp_all add: store_ok_def)
    note w = boundary_write [OF m refl e]
    have pre: "\<not> (target < rt_oldest_readable rs \<or> target > fs_visible ?s)" "target \<noteq> rt_oldest_readable rs"
      "\<not> (case oldest_active of None \<Rightarrow> False | Some q \<Rightarrow> q < target)"
      using run by (auto simp: not_less split: option.splits)
    show ?thesis
    proof (cases status)
      case RocksOk
      obtain cleaned db' where r: "ResumeVacuum engine ?st db = Some (cleaned, db')"
        and out: "vacuum_outcome oldest_active target rs cleaned
          \<lparr>rt_store = demand_recovery cleaned (?s\<lparr>fs_db := db'\<rparr>), rt_oldest_readable = target\<rparr>"
        using vacuum_cleanup [OF assms run(1-3) w(1,2)] w(3) by blast
      let ?rs1 = "\<lparr>rt_store = demand_recovery cleaned (?s\<lparr>fs_db := db'\<rparr>), rt_oldest_readable = target\<rparr>"
      have v: "?v = (case cleaned of Inl e \<Rightarrow> Some (Inl e, ?rs1) | Inr _ \<Rightarrow> Some (run_sequence_prune opts engine target ?rs1))"
        using def run(4) pre wb e RocksOk r by simp
      obtain result rs' where p: "run_sequence_prune opts engine target ?rs1 = (result, rs')" by fastforce
      show ?thesis
      proof (cases cleaned)
        case (Inl err)
        with v out show ?thesis by auto
      next
        case (Inr u)
        then have "cleaned = OK" by simp
        with vacuum_prune [OF assms _ _ run(2) p] out run(1) v p show ?thesis by auto
      qed
    next
      case (RocksError code msg)
      let ?e = "FromMetadataWriteFailure (RocksError code msg)"
      let ?rs1 = "rs\<lparr>rt_store := demand_recovery (Inl ?e) (?s\<lparr>fs_db := db\<rparr>)\<rparr>"
      have "?v = Some (Inl ?e, ?rs1)"
        using def run(4) pre wb e RocksError by simp
      moreover have "vacuum_effect target ?s (?s\<lparr>fs_db := db\<rparr>)"
        using w f kept_key_other vacuum_keys_not_sequence
        by (simp add: vacuum_effect_def same_index_def vacuumed_refl records_kept_def)
      ultimately show ?thesis
        using run(1,2) w(1) by (auto simp: vacuum_outcome_def intro: demand_recovery_effect)
    qed
  qed
qed

end

lemma vacuum_without_prune:
  assumes "\<not> vo_prune opts" "FactStore_Vacuum opts engine oldest_active target rs = Some (OK, rs')"
  shows "fs_recovery (rt_store rs') = fs_recovery (rt_store rs)" "fs_retention (rt_store rs') = fs_retention (rt_store rs)"
  using assms
  by (auto simp: FactStore_Vacuum_def run_sequence_prune_def demand_recovery_def Let_def
      split: if_splits sum.splits option.splits prod.splits rocks_status.splits)

lemma vacuumed_exact:
  assumes "vacuumed target m m'" "\<forall>e \<in> set (events_of m'). \<not> superseded target (set (events_of m')) e"
  shows "set (events_of m') = {e \<in> set (events_of m). \<not> superseded target (set (events_of m)) e}"
proof -
  have "\<not> superseded target (set (events_of m)) e" if e: "e \<in> set (events_of m')" for e
  proof
    assume sup: "superseded target (set (events_of m)) e"
    have "e \<in> set (events_of m)" using e assms(1) by (auto simp: vacuumed_def)
    then obtain f where f: "f \<in> set (events_of m)" "ev_ref f = ev_ref e" "ev_valid_from f = ev_valid_from e"
      "ev_commit_seq e < ev_commit_seq f" "ev_commit_seq f \<le> target" "\<not> superseded target (set (events_of m)) f"
      using superseded_newest [OF finite_set _ sup] by blast
    then have "f \<in> set (events_of m')" using assms(1) by (auto simp: vacuumed_def)
    with f have "superseded target (set (events_of m')) e" by (auto simp: superseded_def)
    with assms(2) e show False by blast
  qed
  with assms(1) show ?thesis by (auto simp: vacuumed_def)
qed

context write_engine
begin

lemma vacuum_reliable:
  assumes "reliable engine" "store_ok (rt_store rs)" "\<not> fs_recovery (rt_store rs)" "rt_oldest_readable rs < target"
    "target \<le> fs_visible (rt_store rs)" "\<forall>q. oldest_active = Some q \<longrightarrow> target \<le> q" "\<not> vo_prune opts"
  shows "\<exists>rs'. FactStore_Vacuum opts engine oldest_active target rs = Some (OK, rs')"
proof -
  let ?s = "rt_store rs" and ?st = "\<lparr>vs_target = target, vs_phase = VacuumPrepared, vs_cursor = []\<rparr>"
  have "target \<noteq> 0" using assms(4) by auto
  then obtain a b where a: "EncodeVacuumState ?st = Inr a" and b: "EncodeWatermark target = Inr b"
    by (fastforce simp: vacuum_record.encode_iff VacuumState_Validate_def vacuum_payload_def kMaxPayloadBytes_def EncodeWatermark_def EncodeRecord_iff)
  let ?wb = "[Put MetaCf EncodeVacuumStateKey a, Put MetaCf EncodeOldestReadableWatermarkKey b]"
  obtain db where db: "engine True (fs_db ?s) ?wb = (RocksOk, db)"
    using assms(1) by (cases "engine True (fs_db ?s) ?wb") (metis fst_conv reliable_def)
  have m: "kv_sorted (db_meta (fs_db ?s))" and f: "facts_ok (db_facts (fs_db ?s))" using assms(2) by (simp_all add: store_ok_def)
  have "facts_ok (db_facts db)" "kv_sorted (db_meta db)" using boundary_write [OF m refl db] f by simp_all
  then obtain db' where r: "ResumeVacuum engine ?st db = Some (OK, db')"
    using ResumeVacuum_spec [of db ?st] assms(1) \<open>target \<noteq> 0\<close> by auto
  have "\<not> (case oldest_active of None \<Rightarrow> False | Some q \<Rightarrow> q < target)" "\<not> (target < rt_oldest_readable rs \<or> target > fs_visible ?s)"
    "target \<noteq> rt_oldest_readable rs"
    using assms(4-6) by (auto simp: not_less split: option.splits)
  with assms(3,7) a b db r show ?thesis
    by (simp add: FactStore_Vacuum_def run_sequence_prune_def Let_def)
qed

end

text \<open>A store with two versions of one fact, and its vacuum to the newest.\<close>

definition older_event :: fact_event where
  "older_event = sample_event\<lparr>ev_commit_seq := 2\<rparr>"

definition versioned_store :: retained_store where
  "versioned_store =
     \<lparr>rt_store = sample_store\<lparr>fs_db := \<lparr>db_facts = [entry sample_event, entry older_event], db_meta = []\<rparr>\<rparr>,
      rt_oldest_readable = 1\<rparr>"

lemma older_storable: "storable older_event"
  using PropertyFact_valid(1) [of "\<lparr>vr_part = 1, vr_vertex = 7\<rparr>" 3]
  by (simp add: older_event_def storable_def FactEvent_Validate_def ValidateMutation_def
      sample_event_def IsKnownOperation_def IsProperty_def IsStateFamily_def PropertyFact_Vertex_def
      event_payload_def kMaxFactValuePayloadBytes_def)

lemmas versions_storable = sample_event_encodes [unfolded EncodeFactValue_iff, THEN conjunct1] older_storable

lemma versions_ok: "facts_ok [entry sample_event, entry older_event]"
  "events_of [entry sample_event, entry older_event] = [sample_event, older_event]"
proof -
  have "bytes_less (fst (entry sample_event)) (fst (entry older_event))"
    by (simp add: entry_def key_layout_less older_event_def sample_event_def)
  then show "facts_ok [entry sample_event, entry older_event]"
    using versions_storable by (auto simp: facts_ok_def kv_sorted_def kv_less_def)
  show "events_of [entry sample_event, entry older_event] = [sample_event, older_event]"
    using events_of_entries [of "[sample_event, older_event]"] versions_storable by simp
qed

lemma versioned_store_ok: "store_ok (rt_store versioned_store)"
  using versions_ok
  by (simp add: store_ok_def versioned_store_def sample_store_def kv_sorted_def)
    (simp add: older_event_def sample_event_def)

section \<open>Vacuum\<close>

text \<open>
  C7: a vacuum is invisible. Whatever the engine does within its contract, and whether the
  call succeeds, fails or stops half way, the store stays consistent, and every read at a
  snapshot at or above the target, or at or above the oldest active snapshot, returns what it
  returned before.
\<close>

theorem vacuum_invisible:
  assumes "write_engine engine" "store_ok (rt_store rs)"
    "FactStore_Vacuum opts engine oldest_active target rs = Some (result, rs')"
    "FactRef_Validate r = OK" "target \<le> snap \<or> (\<exists>q. oldest_active = Some q \<and> q \<le> snap)"
  shows "store_ok (rt_store rs') \<and> fs_visible (rt_store rs') = fs_visible (rt_store rs) \<and>
    FactStore_Read (db_facts (fs_db (rt_store rs'))) snap r t = FactStore_Read (db_facts (fs_db (rt_store rs))) snap r t"
proof -
  have out: "vacuum_outcome oldest_active target rs result rs'"
    using write_engine.Vacuum_returns [OF assms(1,2), of opts oldest_active target] assms(3) by auto
  have f: "facts_ok (db_facts (fs_db (rt_store rs)))" using assms(2) by (simp add: store_ok_def)
  show ?thesis
  proof (cases "rs' = rs")
    case False
    with out have e: "vacuum_effect target (rt_store rs) (rt_store rs')" by (simp add: vacuum_outcome_def)
    then have "store_ok (rt_store rs')"
      by (intro store_ok_vacuumed [OF assms(2)]) (auto simp: vacuum_effect_def)
    moreover have "target \<le> snap \<or> db_facts (fs_db (rt_store rs')) = db_facts (fs_db (rt_store rs))"
      using out False assms(5) by (auto simp: vacuum_outcome_def intro: order_trans)
    ultimately show ?thesis
      using e vacuumed_reads [OF f _ _ assms(4)] by (auto simp: vacuum_effect_def same_index_def)
  qed (use assms(2) in simp)
qed

theorem vacuum_invisible_witness:
  "\<exists>result rs'. FactStore_Vacuum \<lparr>vo_prune = True, vo_prune_sync = True\<rparr> kv_engine None 4 versioned_store = Some (result, rs') \<and>
     FactStore_Read (db_facts (fs_db (rt_store rs'))) 4 (ev_ref sample_event) 10 =
       FactStore_Read [entry sample_event, entry older_event] 4 (ev_ref sample_event) 10"
proof -
  obtain result rs' where r: "FactStore_Vacuum \<lparr>vo_prune = True, vo_prune_sync = True\<rparr> kv_engine None 4 versioned_store = Some (result, rs')"
    using kv_engine.Vacuum_returns [OF versioned_store_ok] by blast
  from vacuum_invisible [OF kv_engine.write_engine_axioms versioned_store_ok r sample_ref_valid, of 4 10] r
  show ?thesis by (simp add: versioned_store_def)
qed

text \<open>
  C9: a vacuum always returns: the cleanup loop advances its durable cursor with every batch,
  so it ends on every store and every engine within its contract.
\<close>

theorem vacuum_terminates:
  assumes "write_engine engine" "store_ok (rt_store rs)"
  shows "\<exists>result rs'. FactStore_Vacuum opts engine oldest_active target rs = Some (result, rs')"
  using write_engine.Vacuum_returns [OF assms] by blast

theorem vacuum_terminates_witness:
  "\<exists>result rs'. FactStore_Vacuum \<lparr>vo_prune = True, vo_prune_sync = False\<rparr> (failing_engine True) None 4 versioned_store =
     Some (result, rs')"
  by (rule vacuum_terminates [OF failing_engine.write_engine_axioms versioned_store_ok])

text \<open>
  C10: a vacuum removes exactly the superseded versions. With an engine that writes and without
  the pruning of sequence records, a vacuum on a store that does not demand recovery, to a
  visible target above the readable boundary that no active snapshot predates, succeeds, the
  boundary moves to the target, the events left are those without a newer version of the
  same fact and valid time at or below the target, and the sequence records at or above the
  target are untouched.
\<close>

theorem vacuum_exact:
  assumes "write_engine engine" "reliable engine" "store_ok (rt_store rs)" "\<not> fs_recovery (rt_store rs)"
    "rt_oldest_readable rs < target" "target \<le> fs_visible (rt_store rs)"
    "\<forall>q. oldest_active = Some q \<longrightarrow> target \<le> q" "\<not> vo_prune opts" "target \<le> c" "EncodeSequenceMetaKey c = Inr k"
  shows "\<exists>rs'. FactStore_Vacuum opts engine oldest_active target rs = Some (OK, rs') \<and> rt_oldest_readable rs' = target \<and>
    set (events_of (db_facts (fs_db (rt_store rs')))) =
      {e \<in> set (events_of (db_facts (fs_db (rt_store rs)))).
         \<not> superseded target (set (events_of (db_facts (fs_db (rt_store rs))))) e} \<and>
    kv_get (db_meta (fs_db (rt_store rs'))) k = kv_get (db_meta (fs_db (rt_store rs))) k"
proof -
  obtain rs' where v: "FactStore_Vacuum opts engine oldest_active target rs = Some (OK, rs')"
    using write_engine.vacuum_reliable [OF assms(1-8)] by blast
  then have out: "vacuum_outcome oldest_active target rs OK rs'"
    using write_engine.Vacuum_returns [OF assms(1,3), of opts oldest_active target] by auto
  then have o': "rt_oldest_readable rs' = target" by (simp add: vacuum_outcome_def)
  then have e: "vacuum_effect target (rt_store rs) (rt_store rs')"
    using out assms(5) by (auto simp: vacuum_outcome_def)
  then have "vacuumed target (db_facts (fs_db (rt_store rs))) (db_facts (fs_db (rt_store rs')))"
    "kv_get (db_meta (fs_db (rt_store rs'))) k = kv_get (db_meta (fs_db (rt_store rs))) k"
    using assms(9,10) by (auto simp: vacuum_effect_def)
  with vacuumed_exact [OF this(1)] out assms(5) v o' show ?thesis by (auto simp: vacuum_outcome_def)
qed

theorem vacuum_exact_witness:
  "\<exists>rs'. FactStore_Vacuum \<lparr>vo_prune = False, vo_prune_sync = False\<rparr> kv_engine (Some 5) 4 versioned_store = Some (OK, rs') \<and>
     set (events_of (db_facts (fs_db (rt_store rs')))) = {sample_event}"
proof -
  let ?E = "set (events_of (db_facts (fs_db (rt_store versioned_store))))"
  have E: "?E = {sample_event, older_event}" using versions_ok(2) by (simp add: versioned_store_def)
  have "superseded 4 ?E older_event" "\<not> superseded 4 ?E sample_event"
    unfolding E by (simp_all add: superseded_def older_event_def) (simp_all add: sample_event_def)
  then have "{e \<in> ?E. \<not> superseded 4 ?E e} = {sample_event}" using E by auto
  moreover have "EncodeSequenceMetaKey 4 = Inr (ascii ''sequence/'' @ AppendU64 4)" by (simp add: EncodeSequenceMetaKey_def)
  ultimately show ?thesis
    using vacuum_exact [OF kv_engine.write_engine_axioms reliable_kv_engine versioned_store_ok, of 4 "Some 5"
        "\<lparr>vo_prune = False, vo_prune_sync = False\<rparr>" 4]
    by (auto simp: versioned_store_def sample_store_def)
qed

end
