(* ===== verification/Commit_Retry.thy ===== *)
theory Commit_Retry
  imports Vacuum_Retention
begin

text \<open>
  Retrying a commit (the outcome branch of \<^verbatim>\<open>FactStore::CommitDirect\<close>): a transaction that is
  already recorded is compared with the submitted batch, and an equal batch gets the result of
  the first attempt without a second write. The comparison reads the outcome record, the
  sequence record, the edge identities and the written facts, so the theory also follows what
  later commits and vacuums leave of them.
\<close>

section \<open>The records a commit leaves\<close>













section \<open>The comparison succeeds on the committed batch\<close>













section \<open>What later operations leave\<close>




definition retry_of :: "store_commit_batch \<Rightarrow> store_commit_batch" where
  "retry_of b = b\<lparr>cb_fresh := False\<rparr>"

lemma retry_of_simps [simp]:
  "StoreCommitBatch_Validate (retry_of b) = StoreCommitBatch_Validate b"
  "EstimateCommitBatchBytes (retry_of b) = EstimateCommitBatchBytes b"
  "cb_txn_id (retry_of b) = cb_txn_id b" "\<not> cb_fresh (retry_of b)"
  "committed_result (retry_of b) ov s = committed_result b ov s"
proof -
  have f: "cb_txn_id (retry_of b) = cb_txn_id b" "cb_system_hlc (retry_of b) = cb_system_hlc b"
    "cb_mutations (retry_of b) = cb_mutations b" "cb_edge_identities (retry_of b) = cb_edge_identities b"
    by (simp_all add: retry_of_def)
  show "committed_result (retry_of b) ov s = committed_result b ov s" unfolding committed_result_def f by (rule refl)
qed (simp_all add: retry_of_def EstimateCommitBatchBytes_def batch_validate_fresh)















section \<open>Properties\<close>






end
