(* ===== verification/Commit_Grouped.thy ===== *)
theory Commit_Grouped
  imports Commit_Store
begin

text \<open>
  Group commit (\<^verbatim>\<open>FactStore::CommitGrouped\<close> in \<^verbatim>\<open>rocks_adapter.cc\<close>): the leader takes a
  conflict-free prefix of the request queue, validates every request against the store,
  assembles one write batch with consecutive commit sequences, writes it once, and publishes
  all of it; a request that fails validation sends the whole group through single commits.
  Waiting for the leader's turn and for the group window is not modelled: a definition runs
  from the selection of a group to the delivery of its results.
\<close>

section \<open>Validation of a group\<close>

datatype group_check = GroupReady | GroupRefused error | GroupFallback

definition check_grouped_prepare :: "store_commit_batch \<Rightarrow> bytes option \<Rightarrow> fact_store \<Rightarrow> status" where
  "check_grouped_prepare b prepared_key s =
     (case prepared_key of
        None \<Rightarrow> OK
      | Some k \<Rightarrow>
          (case kv_get (db_meta (fs_db s)) k of
             None \<Rightarrow> Inl (Status_init kNotFound ''async prepare'' ''prepared transaction is missing'')
           | Some encoded_prepare \<Rightarrow>
               sbind (EncodePreparedCommit b) (\<lambda>expected_prepare.
               if encoded_prepare \<noteq> expected_prepare
               then Conflict ''async prepare'' ''prepared transaction differs from final batch''
               else OK)))"

fun check_group :: "group_request list \<Rightarrow> fact_store \<Rightarrow> group_check \<times> fact_store" where
  "check_group [] s = (GroupReady, s)"
| "check_group (candidate # rest) s =
     (let b = gr_batch candidate in
      case sbind (check_grouped_prepare b (gr_prepared_key candidate) s) (\<lambda>_. EncodeTransactionMetaKey (cb_txn_id b)) of
        Inl e \<Rightarrow> (GroupRefused e, s)
      | Inr transaction_key \<Rightarrow>
          let existing = kv_get (db_meta (fs_db s)) transaction_key;
              (snapshot_dependencies, s') = validate_snapshot_writes (cb_snapshot_deps b) s;
              strict_dependencies = validate_strict_reads (cb_strict_deps b) s';
              edge_identities = validate_identities b s'
          in if existing \<noteq> None \<or> snapshot_dependencies \<noteq> OK \<or> strict_dependencies \<noteq> OK \<or> edge_identities \<noteq> OK
             then (GroupFallback, s')
             else check_group rest s')"

section \<open>The group's write\<close>

fun assemble_group :: "commit_seq \<Rightarrow> group_request list \<Rightarrow> write_batch \<Rightarrow> write_batch status_or" where
  "assemble_group c [] wb = Inr wb"
| "assemble_group c (candidate # rest) wb =
     sbind (encode_keys c (cb_mutations (gr_batch candidate))) (\<lambda>fact_keys.
     case AppendCandidateToWriteBatch \<lparr>cd_batch = gr_batch candidate, cd_commit_seq = c, cd_fact_keys = fact_keys\<rparr> wb of
       (Inl e, _) \<Rightarrow> Inl e
     | (Inr _, wb') \<Rightarrow> assemble_group (c + 1) rest (wb' @ prepared_delete (gr_prepared_key candidate)))"

fun group_results :: "commit_seq \<Rightarrow> group_request list \<Rightarrow> store_commit_result list" where
  "group_results c [] = []"
| "group_results c (r # rs) = \<lparr>cr_commit_seq = c, cr_system_hlc = cb_system_hlc (gr_batch r)\<rparr> # group_results (c + 1) rs"

fun publish_group :: "commit_seq \<Rightarrow> group_request list \<Rightarrow> fact_store \<Rightarrow> fact_store" where
  "publish_group c [] s = s"
| "publish_group c (r # rs) s =
     publish_group (c + 1) rs (PublishValidationCache (gr_batch r) c (PublishRecentFactWriteIndex (gr_batch r) c s))"

definition write_group ::
  "store_options \<Rightarrow> engine \<Rightarrow> bool \<Rightarrow> group_request list \<Rightarrow> fact_store \<Rightarrow> store_commit_result list status_or \<times> fact_store" where
  "write_group opts engine sync requests s =
     (if length requests > unat (max_seq - fs_visible s)
      then (ResourceExhausted ''commit'' ''commit sequence exhausted'', s)
      else
        let last_seq = fs_visible s + of_nat (length requests) in
        case sbind (assemble_group (fs_visible s + 1) requests []) (\<lambda>wb.
             sbind (EncodeWatermark last_seq) (\<lambda>watermark.
             let wb = wb @ [Put MetaCf EncodeVisibleWatermarkKey watermark]
             in sbind (CheckCommittedBatchSize (so_cf_id opts) wb (so_max_batch_bytes opts)) (\<lambda>_. Inr wb))) of
          Inl e \<Rightarrow> (Inl e, s)
        | Inr wb \<Rightarrow>
            (case engine sync (fs_db s) wb of
               (RocksOk, db) \<Rightarrow>
                 (Inr (group_results (fs_visible s + 1) requests),
                  PublishVisible last_seq (publish_group (fs_visible s + 1) requests (s\<lparr>fs_db := db\<rparr>)))
             | (failed, db) \<Rightarrow>
                 (case FromCommitWriteFailure failed of
                    Inl e \<Rightarrow> (Inl e, s\<lparr>fs_db := db, fs_recovery := fs_recovery s \<or> error_code e = kIndeterminate\<rparr>)
                  | Inr _ \<Rightarrow> (Inl (Status_init kIndeterminate ''commit'' []), s\<lparr>fs_db := db\<rparr>))))"

fun commit_each ::
  "store_options \<Rightarrow> engine \<Rightarrow> group_request list \<Rightarrow> fact_store \<Rightarrow> store_commit_result status_or list \<times> fact_store" where
  "commit_each opts engine [] s = ([], s)"
| "commit_each opts engine (r # rs) s =
     (case CommitDirect opts engine (gr_sync r) (gr_batch r) (gr_prepared_key r) (Some s) of
        (result, impl) \<Rightarrow>
          let (results, s'') = commit_each opts engine rs (case impl of Some s' \<Rightarrow> s' | None \<Rightarrow> s)
          in (result # results, s''))"

definition commit_group ::
  "store_options \<Rightarrow> engine \<Rightarrow> bool \<Rightarrow> group_request list \<Rightarrow> fact_store \<Rightarrow> store_commit_result status_or list \<times> fact_store" where
  "commit_group opts engine sync requests s =
     (if length requests = 1 then commit_each opts engine requests s
      else if fs_recovery s
      then (map (\<lambda>_. Inl (Status_init kRecoveryRequired ''commit'' ''reopen required after indeterminate write'')) requests, s)
      else case check_group requests s of
        (GroupRefused e, s') \<Rightarrow> (map (\<lambda>_. Inl e) requests, s')
      | (GroupFallback, s') \<Rightarrow> commit_each opts engine requests s'
      | (GroupReady, s') \<Rightarrow>
          (case write_group opts engine sync requests s' of
             (Inl e, s'') \<Rightarrow> (map (\<lambda>_. Inl e) requests, s'')
           | (Inr results, s'') \<Rightarrow> (map Inr results, s'')))"

text \<open>What admits a request to the queue, and the leader's turn: a group, its results, the rest.\<close>

definition admit_request :: "store_options \<Rightarrow> group_request \<Rightarrow> status" where
  "admit_request opts r =
     sbind (StoreCommitBatch_Validate (gr_batch r)) (\<lambda>_.
       if EstimateCommitBatchBytes (gr_batch r) > so_max_batch_bytes opts
       then ResourceExhausted ''commit'' ''encoded batch exceeds hard byte limit''
       else OK)"

definition CommitGrouped ::
  "store_options \<Rightarrow> nat \<Rightarrow> engine \<Rightarrow> group_request list \<Rightarrow> fact_store \<Rightarrow>
   (store_commit_result status_or list \<times> fact_store) \<times> group_request list" where
  "CommitGrouped opts max_size engine queue s =
     (case queue of
        [] \<Rightarrow> (([], s), [])
      | leader # _ \<Rightarrow>
          let requests = select_group max_size (gr_sync leader) empty_index 0 queue
          in (commit_group opts engine (gr_sync leader) requests s, drop (length requests) queue))"

section \<open>Publishing a group\<close>

lemma publish_group_Cons: "publish_group c (r # rs) s = publish_group (c + 1) rs (publish_batch (gr_batch r) c s)"
  by (simp add: publish_batch_def)

lemma publish_batch_commute:
  "publish_batch b c (s\<lparr>fs_db := db\<rparr>) = (publish_batch b c s)\<lparr>fs_db := db\<rparr>"
  "publish_batch b c (s\<lparr>fs_visible := w\<rparr>) = (publish_batch b c s)\<lparr>fs_visible := w\<rparr>"
  by (cases s, simp add: publish_batch_eq)+

lemma publish_group_commute:
  "publish_group c rs (s\<lparr>fs_db := db\<rparr>) = (publish_group c rs s)\<lparr>fs_db := db\<rparr>"
  "publish_group c rs (s\<lparr>fs_visible := w\<rparr>) = (publish_group c rs s)\<lparr>fs_visible := w\<rparr>"
  by (induction rs arbitrary: c s) (simp_all add: publish_group_Cons publish_batch_commute del: publish_group.simps(2))

lemma group_results_nth:
  "i < length rs \<Longrightarrow> group_results c rs ! i =
     \<lparr>cr_commit_seq = c + of_nat i, cr_system_hlc = cb_system_hlc (gr_batch (rs ! i))\<rparr>"
  by (induction rs arbitrary: c i) (auto simp: nth_Cons' gr0_conv_Suc)

lemma length_group_results [simp]: "length (group_results c rs) = length rs"
  by (induction rs arbitrary: c) auto

fun group_events :: "commit_seq \<Rightarrow> group_request list \<Rightarrow> fact_event list" where
  "group_events c [] = []"
| "group_events c (r # rs) = commit_events c (gr_batch r) @ group_events (c + 1) rs"

lemma group_events_iff:
  "e \<in> set (group_events c rs) \<longleftrightarrow> (\<exists>i < length rs. e \<in> set (commit_events (c + of_nat i) (gr_batch (rs ! i))))"
proof (induction rs arbitrary: c)
  case (Cons r rs)
  have "(\<exists>i < length (r # rs). e \<in> set (commit_events (c + of_nat i) (gr_batch ((r # rs) ! i)))) \<longleftrightarrow>
      e \<in> set (commit_events c (gr_batch r)) \<or>
      (\<exists>i < length rs. e \<in> set (commit_events (c + 1 + of_nat i) (gr_batch (rs ! i))))"
    by (simp add: Ex_less_Suc2 add.assoc)
  with Cons show ?case by simp
qed simp

text \<open>One request appended to the batch.\<close>

lemma assemble_group_Cons:
  assumes "batch_ok (gr_batch r)" "c \<noteq> 0" "assemble_group c (r # rs) wb = Inr wb'"
  obtains ops where "AppendCandidateToWriteBatch (candidate_of c (gr_batch r)) [] = (OK, ops)"
    "assemble_group (c + 1) rs (wb @ ops @ prepared_delete (gr_prepared_key r)) = Inr wb'"
proof -
  let ?b = "gr_batch r"
  have "\<forall>m \<in> set (cb_mutations ?b). FactRef_Validate (mu_ref m) = OK"
    using assms(1) mutation_valid_ref by (auto simp: batch_ok_def)
  then have "encode_keys c (cb_mutations ?b) = Inr (cd_fact_keys (candidate_of c ?b))"
    using encode_keys_ok assms(2) by (simp add: candidate_of_def)
  moreover have cand: "\<lparr>cd_batch = ?b, cd_commit_seq = c, cd_fact_keys = cd_fact_keys (candidate_of c ?b)\<rparr> = candidate_of c ?b"
    by (simp add: candidate_of_def)
  ultimately obtain wb1 where wb1: "AppendCandidateToWriteBatch (candidate_of c ?b) wb = (OK, wb1)"
    "assemble_group (c + 1) rs (wb1 @ prepared_delete (gr_prepared_key r)) = Inr wb'"
    using assms(3) by (auto simp: sbind_Inr_iff split: prod.splits sum.splits)
  then obtain sv where ops: "\<forall>e \<in> set (commit_events c ?b). storable e" "EncodeSequenceRecordV2 (commit_record c ?b) = Inr sv"
    "wb1 = wb @ map put_event (commit_events c ?b) @ map put_route (cb_edge_identities ?b) @ outcome_ops c ?b sv"
    using AppendCandidate_OK [OF assms(1,2)] by blast
  show thesis
  proof (rule that)
    show "AppendCandidateToWriteBatch (candidate_of c ?b) [] =
        (OK, map put_event (commit_events c ?b) @ map put_route (cb_edge_identities ?b) @ outcome_ops c ?b sv)"
      using AppendCandidate_OK [OF assms(1,2), of "[]"] ops by auto
  qed (use wb1(2) ops(3) in simp)
qed

lemma unat_max_diff: "unat (max_seq - v) = 18446744073709551615 - unat v"
  by (simp add: max_seq_def unat_minus_one_diff)

lemma unat_next:
  assumes "v \<noteq> max_seq"
  shows "unat (v + 1) = unat v + 1"
proof -
  have "unat v \<noteq> unat max_seq" using assms by (simp add: word_unat_eq_iff)
  then have "unat v \<noteq> 18446744073709551615" by (simp add: max_seq_def)
  moreover have "unat v \<le> 18446744073709551615" by simp
  ultimately have "unat v < 18446744073709551615" by linarith
  then show ?thesis by (simp add: unat_word_ariths(1))
qed

lemma prepared_delete_meta: "op \<in> set (prepared_delete k) \<Longrightarrow> \<exists>x. op = Delete MetaCf x"
  by (cases k) (simp_all add: prepared_delete_def)

lemma group_publishes:
  assumes "store_ok s" "\<forall>r \<in> set rs. batch_ok (gr_batch r)" "length rs \<le> unat (max_seq - fs_visible s)"
    "assemble_group (fs_visible s + 1) rs wb = Inr wb'"
  shows "\<exists>ops. wb' = wb @ ops \<and>
    store_ok (PublishVisible (fs_visible s + of_nat (length rs))
      (publish_group (fs_visible s + 1) rs (s\<lparr>fs_db := apply_batch ops (fs_db s)\<rparr>))) \<and>
    set (events_of (db_facts (apply_batch ops (fs_db s)))) =
      set (events_of (db_facts (fs_db s))) \<union> set (group_events (fs_visible s + 1) rs)"
  using assms
proof (induction rs arbitrary: s wb)
  case Nil
  then show ?case by (simp add: apply_batch_def PublishVisible_def)
next
  case (Cons r rs)
  let ?v = "fs_visible s" and ?b = "gr_batch r"
  have v: "?v \<noteq> max_seq" using Cons.prems(3) by auto
  note c = next_seq [OF v]
  obtain ops where ops: "AppendCandidateToWriteBatch (candidate_of (?v + 1) ?b) [] = (OK, ops)"
    and more: "assemble_group (?v + 1 + 1) rs (wb @ ops @ prepared_delete (gr_prepared_key r)) = Inr wb'"
    using assemble_group_Cons [OF _ c(2) Cons.prems(4)] Cons.prems(2) by auto
  let ?ops = "ops @ prepared_delete (gr_prepared_key r)" and ?db = "apply_batch (ops @ prepared_delete (gr_prepared_key r)) (fs_db s)"
  let ?s1 = "PublishVisible (?v + 1) (publish_batch ?b (?v + 1) (s\<lparr>fs_db := ?db\<rparr>))"
  have old: "facts_ok (db_facts (fs_db s))" "kv_sorted (db_meta (fs_db s))" "\<forall>e \<in> set (events_of (db_facts (fs_db s))). ev_commit_seq e \<le> ?v"
    using Cons.prems(1) by (simp_all add: store_ok_def)
  then have "\<forall>e \<in> set (events_of (db_facts (fs_db s))). ev_commit_seq e \<noteq> ?v + 1" using c(1) by fastforce
  note eff = commit_effect [OF _ c(2) old(1) this ops]
  have "db_facts ?db = db_facts (apply_batch ops (fs_db s))"
    unfolding apply_batch_append by (intro apply_meta_only_facts) (auto dest: prepared_delete_meta)
  then have db: "facts_ok (db_facts ?db)"
    "set (events_of (db_facts ?db)) = set (events_of (db_facts (fs_db s))) \<union> set (commit_events (?v + 1) ?b)"
    using eff Cons.prems(2) by simp_all
  have "db_ok ?db" using old by (intro apply_batch_ok) (simp add: db_ok_def facts_ok_def)
  then have "store_ok ?s1"
    using publish_step [OF Cons.prems(1) _ v db(1) _ db(2)] Cons.prems(2) by (simp add: db_ok_def)
  moreover have vis: "fs_visible ?s1 = ?v + 1" "fs_db ?s1 = ?db" by (simp_all add: PublishVisible_def publish_batch_eq)
  moreover have "length rs \<le> unat (max_seq - (?v + 1))"
    using Cons.prems(3) unat_next [OF v] by (simp add: unat_max_diff)
  ultimately obtain ops2 where IH: "wb' = (wb @ ?ops) @ ops2"
    "store_ok (PublishVisible (?v + 1 + of_nat (length rs))
      (publish_group (?v + 1 + 1) rs (?s1\<lparr>fs_db := apply_batch ops2 ?db\<rparr>)))"
    "set (events_of (db_facts (apply_batch ops2 ?db))) =
      set (events_of (db_facts ?db)) \<union> set (group_events (?v + 1 + 1) rs)"
    using Cons.IH [of ?s1 "wb @ ?ops"] Cons.prems(2) more by auto
  have "PublishVisible (?v + 1 + of_nat (length rs)) (publish_group (?v + 1 + 1) rs (?s1\<lparr>fs_db := apply_batch ops2 ?db\<rparr>)) =
      PublishVisible (?v + of_nat (length (r # rs))) (publish_group (?v + 1) (r # rs) (s\<lparr>fs_db := apply_batch (?ops @ ops2) (fs_db s)\<rparr>))"
    by (simp add: publish_group_Cons PublishVisible_def publish_group_commute publish_batch_commute apply_batch_append add.assoc
        del: publish_group.simps(2))
  with IH db(2) show ?case
    by (intro exI [of _ "?ops @ ops2"]) (simp add: apply_batch_append Un_assoc add.commute [of _ 2] del: publish_group.simps(2))
qed

section \<open>Groups that are written\<close>

lemma isolated_same: "same_but_cache s s' \<Longrightarrow> isolated s' b \<longleftrightarrow> isolated s b"
  using store_aids_same [of s s'] same_but_cache_fields [of s s'] by (simp add: isolated_def)

lemma same_but_cache_refl: "same_but_cache s s"
  by (simp add: same_but_cache_def)

lemma check_group_ok:
  assumes "store_ok s" "\<forall>r \<in> set rs. batch_ok (gr_batch r)" "check_group rs s = (answer, s')"
  shows "store_ok s' \<and> same_but_cache s s' \<and>
    (answer = GroupReady \<longrightarrow> (\<forall>r \<in> set rs. isolated s (gr_batch r)))"
  using assms
proof (induction rs arbitrary: s)
  case (Cons r rs)
  let ?b = "gr_batch r"
  obtain q s1 where v: "validate_snapshot_writes (cb_snapshot_deps ?b) s = (q, s1)" "store_ok s1" "same_but_cache s s1"
    and iso: "q = OK \<and> validate_strict_reads (cb_strict_deps ?b) s1 = OK \<and> validate_identities ?b s1 = OK \<longleftrightarrow> isolated s ?b"
    using validations [OF Cons.prems(1), of ?b] Cons.prems(2) by auto
  define key where "key = sbind (check_grouped_prepare ?b (gr_prepared_key r) s) (\<lambda>_. EncodeTransactionMetaKey (cb_txn_id ?b))"
  have step: "check_group (r # rs) s =
      (case key of
         Inl e \<Rightarrow> (GroupRefused e, s)
       | Inr transaction_key \<Rightarrow>
           if kv_get (db_meta (fs_db s)) transaction_key \<noteq> None \<or> \<not> isolated s ?b then (GroupFallback, s1) else check_group rs s1)"
    unfolding key_def using v(1) iso by (auto simp: Let_def split: sum.splits)
  consider (stop) "answer \<noteq> GroupReady" "s' = s \<or> s' = s1" | (go) "isolated s ?b" "check_group rs s1 = (answer, s')"
    using Cons.prems(3) unfolding step by (auto split: sum.splits if_splits)
  then show ?case
  proof cases
    case stop
    then show ?thesis using Cons.prems(1) v same_but_cache_refl by auto
  next
    case go
    have "store_ok s' \<and> same_but_cache s1 s' \<and> (answer = GroupReady \<longrightarrow> (\<forall>r \<in> set rs. isolated s1 (gr_batch r)))"
      using Cons.IH [OF v(2) _ go(2)] Cons.prems(2) by simp
    with go(1) v(3) show ?thesis
      using same_but_cache_trans isolated_same [OF v(3)] by auto
  qed
qed (simp add: same_but_cache_refl)

lemma store_ok_meta:
  "store_ok s \<Longrightarrow> kv_sorted m \<Longrightarrow> store_ok (s\<lparr>fs_db := (fs_db s)\<lparr>db_meta := m\<rparr>\<rparr>)"
  by (simp add: store_ok_def)

context write_engine
begin

lemma write_group_Inr:
  assumes "store_ok s" "\<forall>r \<in> set rs. batch_ok (gr_batch r)" "write_group opts engine sync rs s = (Inr results, s')"
  shows "length rs \<le> unat (max_seq - fs_visible s)" "results = group_results (fs_visible s + 1) rs" "store_ok s'"
    "fs_visible s' = fs_visible s + of_nat (length rs)"
    "set (events_of (db_facts (fs_db s'))) =
       set (events_of (db_facts (fs_db s))) \<union> set (group_events (fs_visible s + 1) rs)"
proof -
  let ?v = "fs_visible s"
  show room: "length rs \<le> unat (max_seq - ?v)" using assms(3) by (auto simp: write_group_def not_less split: if_splits)
  obtain wb watermark db where wb: "assemble_group (?v + 1) rs [] = Inr wb"
    and db: "engine sync (fs_db s) (wb @ [Put MetaCf EncodeVisibleWatermarkKey watermark]) = (RocksOk, db)"
    and r: "results = group_results (?v + 1) rs"
    and s': "s' = PublishVisible (?v + of_nat (length rs)) (publish_group (?v + 1) rs (s\<lparr>fs_db := db\<rparr>))"
    using assms(3) room
    by (auto simp: write_group_def Let_def sbind_Inr_iff split: sum.splits prod.splits rocks_status.splits)
  show "results = group_results (?v + 1) rs" by (rule r)
  let ?db = "apply_batch wb (fs_db s)"
  have ok: "store_ok (PublishVisible (?v + of_nat (length rs)) (publish_group (?v + 1) rs (s\<lparr>fs_db := ?db\<rparr>)))"
    and ev: "set (events_of (db_facts ?db)) = set (events_of (db_facts (fs_db s))) \<union> set (group_events (?v + 1) rs)"
    using group_publishes [OF assms(1,2) room wb] by auto
  have db': "db = ?db\<lparr>db_meta := kv_put EncodeVisibleWatermarkKey watermark (db_meta ?db)\<rparr>"
    using written [OF db] by (simp add: apply_batch_def)
  then have eq: "s' = (let t = PublishVisible (?v + of_nat (length rs)) (publish_group (?v + 1) rs (s\<lparr>fs_db := ?db\<rparr>))
      in t\<lparr>fs_db := (fs_db t)\<lparr>db_meta := kv_put EncodeVisibleWatermarkKey watermark (db_meta ?db)\<rparr>\<rparr>)"
    by (simp add: s' PublishVisible_def publish_group_commute)
  have "kv_sorted (db_meta ?db)" using ok by (simp add: store_ok_def PublishVisible_def publish_group_commute)
  then show "store_ok s'" unfolding eq Let_def by (intro store_ok_meta [OF ok] kv_put_sorted)
  show "fs_visible s' = ?v + of_nat (length rs)"
    "set (events_of (db_facts (fs_db s'))) = set (events_of (db_facts (fs_db s))) \<union> set (group_events (?v + 1) rs)"
    using ev db' by (simp_all add: s' PublishVisible_def publish_group_commute)
qed

end

section \<open>Serial order within a group\<close>

lemma strict_snapshot_le:
  "ValidateStrictReadDependencies a m v ds = OK \<Longrightarrow> d \<in> set ds \<Longrightarrow> st_snapshot_seq d \<le> v"
  by (induction ds) (auto simp: not_less sbind_Inr_iff split: if_splits)

lemma commit_event_ref:
  "e \<in> set (commit_events c b) \<Longrightarrow> ev_ref e \<in> mu_ref ` set (cb_mutations b) \<or> ref_family (ev_ref e) = kEdgeIdentity"
  by (auto simp: commit_events_def event_of_mutation_def identity_event_of_def identity_mutation_def identity_ref_def)

lemma unat_seq_plus: "n \<le> unat (max_seq - v) \<Longrightarrow> unat (v + of_nat n) = unat v + n"
proof (induction n)
  case (Suc n)
  have u: "unat (v + of_nat n) = unat v + n" using Suc by simp
  have "v + of_nat n \<noteq> max_seq"
  proof
    assume "v + of_nat n = max_seq"
    then have "unat v + n = 18446744073709551615" using u by (simp add: max_seq_def)
    with Suc.prems show False by (simp add: unat_max_diff)
  qed
  from unat_next [OF this] u show ?case by (simp add: add.assoc add.commute [of 1])
qed simp

text \<open>A fact that no earlier request of the group writes is, before the own sequence, as in the store.\<close>

lemma group_untouched:
  assumes "store_ok s" "\<forall>r \<in> set rs. batch_ok (gr_batch r)" "length rs \<le> unat (max_seq - fs_visible s)"
    "set (events_of m') = set (events_of (db_facts (fs_db s))) \<union> set (group_events (fs_visible s + 1) rs)"
    "i < length rs" "ref_family r \<noteq> kEdgeIdentity"
    "\<forall>j < i. IdentityOf r \<notin> fp_writes (BuildCommitFootprint (gr_batch (rs ! j)))" "snap \<le> fs_visible s + of_nat i"
  shows "set (visible (facts_of m' r) snap) = set (visible (facts_of (db_facts (fs_db s)) r) snap)"
proof -
  let ?v = "fs_visible s"
  have "e \<in> set (events_of (db_facts (fs_db s)))"
    if e: "e \<in> set (group_events (?v + 1) rs)" "ev_ref e = r" "ev_commit_seq e \<le> ?v + of_nat i" for e
  proof -
    obtain j where j: "j < length rs" "e \<in> set (commit_events (?v + 1 + of_nat j) (gr_batch (rs ! j)))"
      using e(1) by (auto simp: group_events_iff)
    have seq: "?v + 1 + of_nat j = ?v + of_nat (Suc j)" by (simp add: add.commute)
    have "unat (?v + of_nat (Suc j)) = unat ?v + Suc j" "unat (?v + of_nat i) = unat ?v + i"
      using unat_seq_plus [of "Suc j" ?v] unat_seq_plus [of i ?v] assms(3,5) j(1) by simp_all
    moreover have "ev_commit_seq e = ?v + 1 + of_nat j"
      using j(2) by (auto simp: commit_events_def event_of_mutation_def identity_event_of_def)
    ultimately have "j < i" using e(3) by (simp add: seq word_le_nat_alt)
    with assms(6,7) commit_event_ref [OF j(2)] e(2) show ?thesis by (auto simp: BuildCommitFootprint_def)
  qed
  with assms(4,8) show ?thesis by (auto simp: visible_def facts_of_def intro: order_trans)
qed

lemma governs_visible:
  "set (visible es snap) = set (visible es' snap') \<Longrightarrow> governs es snap t e \<longleftrightarrow> governs es' snap' t e"
  by (simp add: governs_def)

lemma conflicting_event_cong: "set es = set es' \<Longrightarrow> conflicting_event es d e \<longleftrightarrow> conflicting_event es' d e"
  by (simp add: conflicting_event_def)

lemma independent_refs:
  assumes "independent (BuildCommitFootprint a) (BuildCommitFootprint b)"
  shows "m \<in> set (cb_mutations b) \<Longrightarrow> IdentityOf (mu_ref m) \<notin> fp_writes (BuildCommitFootprint a)"
    "d \<in> set (cb_strict_deps b) \<Longrightarrow> IdentityOf (st_ref d) \<notin> fp_writes (BuildCommitFootprint a)"
proof -
  have "fp_writes (BuildCommitFootprint a) \<inter> fp_writes (BuildCommitFootprint b) = {}"
    "fp_writes (BuildCommitFootprint a) \<inter> fp_strict_reads (BuildCommitFootprint b) = {}"
    using assms by (simp_all add: independent_def)
  moreover have "m \<in> set (cb_mutations b) \<Longrightarrow> IdentityOf (mu_ref m) \<in> fp_writes (BuildCommitFootprint b)"
    "d \<in> set (cb_strict_deps b) \<Longrightarrow> IdentityOf (st_ref d) \<in> fp_strict_reads (BuildCommitFootprint b)"
    by (simp_all add: BuildCommitFootprint_def)
  ultimately show "m \<in> set (cb_mutations b) \<Longrightarrow> IdentityOf (mu_ref m) \<notin> fp_writes (BuildCommitFootprint a)"
    "d \<in> set (cb_strict_deps b) \<Longrightarrow> IdentityOf (st_ref d) \<notin> fp_writes (BuildCommitFootprint a)" by blast+
qed

lemma group_isolated:
  assumes "store_ok s" "\<forall>r \<in> set rs. batch_ok (gr_batch r)" "length rs \<le> unat (max_seq - fs_visible s)"
    "set (events_of m') = set (events_of (db_facts (fs_db s))) \<union> set (group_events (fs_visible s + 1) rs)"
    "sorted_wrt independent (map (\<lambda>r. BuildCommitFootprint (gr_batch r)) rs)" "i < length rs" "isolated s (gr_batch (rs ! i))"
  shows "d \<in> set (cb_snapshot_deps (gr_batch (rs ! i))) \<Longrightarrow>
      \<not> conflicting_event (visible (facts_of m' (sw_ref d)) (fs_visible s + of_nat i)) d e"
    "d' \<in> set (cb_strict_deps (gr_batch (rs ! i))) \<Longrightarrow> ref_family (st_ref d') \<noteq> kEdgeIdentity \<Longrightarrow>
      governs (facts_of m' (st_ref d')) (st_snapshot_seq d') (st_valid_time d') e \<longleftrightarrow>
      governs (facts_of m' (st_ref d')) (fs_visible s + of_nat i) (st_valid_time d') e"
proof -
  let ?b = "gr_batch (rs ! i)" and ?m = "db_facts (fs_db s)" and ?v = "fs_visible s"
  have b: "batch_ok ?b" using assms(2,6) by simp
  have "?v \<noteq> max_seq" using assms(3,6) by auto
  note stable = isolated_stable [OF assms(1) b this assms(7)]
  have ind: "independent (BuildCommitFootprint (gr_batch (rs ! j))) (BuildCommitFootprint ?b)" if "j < i" for j
    using sorted_wrt_nth_less [OF assms(5) that] assms(6) that by simp
  have seq: "?v \<le> ?v + of_nat i" using unat_seq_plus [of i ?v] assms(3,6) by (simp add: word_le_nat_alt)
  have old: "\<forall>e \<in> set (events_of ?m). ev_commit_seq e \<le> ?v" using assms(1) by (simp add: store_ok_def)
  then have all: "set (visible (facts_of ?m r) (?v + of_nat i)) = set (facts_of ?m r)" "set (visible (facts_of ?m r) ?v) = set (facts_of ?m r)" for r
    using seq by (auto simp: visible_def facts_of_def intro: order_trans)
  show "\<not> conflicting_event (visible (facts_of m' (sw_ref d)) (?v + of_nat i)) d e" if d: "d \<in> set (cb_snapshot_deps ?b)"
  proof -
    have "dependency_slot d \<in> mutation_slot ` set (cb_mutations ?b)" using b d unfolding batch_ok_def by blast
    then obtain m where "m \<in> set (cb_mutations ?b)" "mutation_slot m = dependency_slot d" by auto
    moreover have "\<forall>m \<in> set (cb_mutations ?b). PendingFactMutation_Validate m = OK" using b unfolding batch_ok_def by blast
    ultimately have m: "m \<in> set (cb_mutations ?b)" "mu_ref m = sw_ref d" "PendingFactMutation_Validate m = OK"
      by (simp_all add: dependency_slot_def mutation_slot_def)
    then have "ref_family (sw_ref d) \<noteq> kEdgeIdentity" using mutation_not_identity by metis
    moreover have "\<forall>j < i. IdentityOf (sw_ref d) \<notin> fp_writes (BuildCommitFootprint (gr_batch (rs ! j)))"
      using independent_refs(1) [OF ind m(1)] m(2) by simp
    ultimately have "set (visible (facts_of m' (sw_ref d)) (?v + of_nat i)) = set (facts_of ?m (sw_ref d))"
      using group_untouched [OF assms(1-4,6), of "sw_ref d" "?v + of_nat i"] all by simp
    with stable d show ?thesis using conflicting_event_cong by blast
  qed
  show "governs (facts_of m' (st_ref d')) (st_snapshot_seq d') (st_valid_time d') e \<longleftrightarrow>
      governs (facts_of m' (st_ref d')) (?v + of_nat i) (st_valid_time d') e"
    if d: "d' \<in> set (cb_strict_deps ?b)" "ref_family (st_ref d') \<noteq> kEdgeIdentity"
  proof -
    have "\<forall>j < i. IdentityOf (st_ref d') \<notin> fp_writes (BuildCommitFootprint (gr_batch (rs ! j)))"
      using independent_refs(2) [OF ind d(1)] by simp
    note same = group_untouched [OF assms(1-4,6) d(2) this]
    have "st_snapshot_seq d' \<le> ?v" using assms(7) d(1) strict_snapshot_le by (auto simp: isolated_def)
    then have snap: "governs (facts_of m' (st_ref d')) (st_snapshot_seq d') (st_valid_time d') e \<longleftrightarrow>
        governs (facts_of ?m (st_ref d')) (st_snapshot_seq d') (st_valid_time d') e"
      using governs_visible [OF same] seq order_trans by blast
    have "governs (facts_of m' (st_ref d')) (?v + of_nat i) (st_valid_time d') e \<longleftrightarrow>
        governs (facts_of ?m (st_ref d')) ?v (st_valid_time d') e"
      using same [of "?v + of_nat i"] all by (intro governs_visible) simp
    with snap stable d(1) show ?thesis by blast
  qed
qed

text \<open>
  C6: a physical group commits as if its requests had committed one after the other. When the
  leader's group passes validation and is written, every request gets its own consecutive
  sequence in queue order, the store holds exactly the old events and those of every request,
  and each request is isolated at its own place in that order: no event before its sequence,
  those of its group included, conflicts with its writes, and its strict reads still see at
  that point what they saw at their snapshots. Strict reads of edge identity facts are
  excepted, since footprints do not list the identity facts a batch writes.
\<close>

theorem group_commit_serial:
  assumes "write_engine engine" "store_ok s" "\<forall>r \<in> set queue. admit_request opts r = OK" "queue \<noteq> []"
    "requests = select_group max_size (gr_sync (hd queue)) empty_index 0 queue"
    "fst (check_group requests s) = GroupReady" "1 < length requests" "i < length requests"
    "CommitGrouped opts max_size engine queue s = ((map Inr results, s'), rest)"
  shows "store_ok s' \<and> queue = requests @ rest \<and> fs_visible s' = fs_visible s + of_nat (length requests) \<and>
    results ! i = \<lparr>cr_commit_seq = fs_visible s + 1 + of_nat i, cr_system_hlc = cb_system_hlc (gr_batch (requests ! i))\<rparr> \<and>
    set (events_of (db_facts (fs_db s'))) =
      set (events_of (db_facts (fs_db s))) \<union>
      (\<Union>j < length requests. set (commit_events (fs_visible s + 1 + of_nat j) (gr_batch (requests ! j)))) \<and>
    (\<forall>d \<in> set (cb_snapshot_deps (gr_batch (requests ! i))). \<forall>e.
       \<not> conflicting_event (visible (facts_of (db_facts (fs_db s')) (sw_ref d)) (fs_visible s + of_nat i)) d e) \<and>
    (\<forall>d \<in> set (cb_strict_deps (gr_batch (requests ! i))). ref_family (st_ref d) \<noteq> kEdgeIdentity \<longrightarrow>
       (\<forall>e. governs (facts_of (db_facts (fs_db s')) (st_ref d)) (st_snapshot_seq d) (st_valid_time d) e \<longleftrightarrow>
            governs (facts_of (db_facts (fs_db s')) (st_ref d)) (fs_visible s + of_nat i) (st_valid_time d) e))"
proof -
  obtain leader others where q: "queue = leader # others" using assms(4) by (cases queue) auto
  then have run: "commit_group opts engine (gr_sync leader) requests s = (map Inr results, s')" "rest = drop (length requests) queue"
    using assms(5,9) by (simp_all add: CommitGrouped_def Let_def)
  obtain rest' where split: "queue = requests @ rest'" using select_maximal assms(5) by blast
  have b: "\<forall>r \<in> set requests. batch_ok (gr_batch r)"
    using assms(3) split by (auto simp: admit_request_def sbind_Inr_iff batch_ok_iff)
  obtain s1 where chk: "check_group requests s = (GroupReady, s1)" using assms(6) by (cases "check_group requests s") simp
  note ok = check_group_ok [OF assms(2) b chk]
  have iso: "isolated s1 (gr_batch (requests ! i))" using ok assms(8) isolated_same [of s s1] by simp
  note same = same_but_cache_fields [OF conjunct1 [OF conjunct2 [OF ok]]]
  have n1: "length requests \<noteq> 1" using assms(7) by simp
  have ne: "map (\<lambda>_. Inl e) requests \<noteq> map Inr results" for e :: error
    using assms(7) by (cases requests; cases results) auto
  have group: "commit_group opts engine (gr_sync leader) requests s =
      (if fs_recovery s
       then (map (\<lambda>_. Inl (Status_init kRecoveryRequired ''commit'' ''reopen required after indeterminate write'')) requests, s)
       else case write_group opts engine (gr_sync leader) requests s1 of
         (Inl e, s'') \<Rightarrow> (map (\<lambda>_. Inl e) requests, s'')
       | (Inr results, s'') \<Rightarrow> (map Inr results, s''))"
    using n1 chk unfolding commit_group_def by simp
  then obtain res where w: "write_group opts engine (gr_sync leader) requests s1 = (Inr res, s')" "map Inr results = map Inr res"
    using run(1) ne by (auto split: if_splits prod.splits sum.splits)
  have res: "results = res" using w(2) by (auto dest: map_injective simp: inj_def)
  note wr = write_engine.write_group_Inr [OF assms(1) conjunct1 [OF ok] b w(1), unfolded same]
  have ind: "sorted_wrt independent (map (\<lambda>r. BuildCommitFootprint (gr_batch r)) requests)"
    using select_group_independent assms(5) by blast
  note iso' = group_isolated [OF conjunct1 [OF ok] b _ _ ind assms(8) iso, unfolded same, OF wr(1,5)]
  have "set (group_events (fs_visible s + 1) requests) =
      (\<Union>j < length requests. set (commit_events (fs_visible s + 1 + of_nat j) (gr_batch (requests ! j))))"
    using group_events_iff by (auto simp: set_eq_iff)
  with wr iso' res group_results_nth [OF assms(8), of "fs_visible s + 1"] run(2) split show ?thesis by simp
qed

text \<open>Two vertices created by concurrent requests.\<close>

definition vertex_batch :: "txn_id \<Rightarrow> entity_id \<Rightarrow> store_commit_batch" where
  "vertex_batch t v =
     \<lparr>cb_txn_id = t, cb_system_hlc = 100,
      cb_mutations = [\<lparr>mu_ref = EntityFact_Vertex \<lparr>vr_part = 1, vr_vertex = v\<rparr>,
        mu_valid_from = 10, mu_operation = kPut, mu_schema_epoch = 0, mu_value = None\<rparr>],
      cb_edge_identities = [], cb_snapshot_deps = [], cb_strict_deps = [], cb_fresh = True\<rparr>"

definition vertex_request :: "txn_id \<Rightarrow> entity_id \<Rightarrow> group_request" where
  "vertex_request t v = \<lparr>gr_batch = vertex_batch t v, gr_prepared_key = None, gr_sync = True\<rparr>"

lemma vertex_batch_ok:
  assumes "t \<noteq> 0" "v \<noteq> 0"
  shows "batch_ok (vertex_batch t v)" "storable (event_of_mutation c (hd (cb_mutations (vertex_batch t v)))) \<or> c = 0"
proof -
  have r: "FactRef_Validate (EntityFact_Vertex \<lparr>vr_part = 1, vr_vertex = v\<rparr>) = OK"
    by (rule EntityFact_valid) (simp add: assms)
  have m: "PendingFactMutation_Validate (hd (cb_mutations (vertex_batch t v))) = OK"
    using r by (simp add: vertex_batch_def PendingFactMutation_Validate_def ValidateMutation_OK_iff
        ValidateMutation_def IsKnownOperation_def IsProperty_def IsStateFamily_def EntityFact_Vertex_def)
  then show "batch_ok (vertex_batch t v)" using assms by (simp add: batch_ok_def vertex_batch_def)
  from m have "storable (event_of_mutation c (hd (cb_mutations (vertex_batch t v))))" if "c \<noteq> 0"
    using that by (simp add: storable_def event_of_mutation_valid)
      (simp add: event_of_mutation_def event_payload_def vertex_batch_def)
  then show "storable (event_of_mutation c (hd (cb_mutations (vertex_batch t v)))) \<or> c = 0" by blast
qed

lemma vertex_append:
  assumes "t \<noteq> 0" "v \<noteq> 0" "c \<noteq> 0"
  obtains ops wv where "AppendCandidateToWriteBatch (candidate_of c (vertex_batch t v)) [] = (OK, ops)"
    "EncodeWatermark c = Inr wv" "GetDataSize (\<lambda>_. 1) (ops @ [Put MetaCf EncodeVisibleWatermarkKey wv]) \<le> 477"
proof -
  note ok = vertex_batch_ok [OF assms(1,2)]
  have "\<forall>e \<in> set (commit_events c (vertex_batch t v)). storable e"
    using ok(2) [of c] assms(3) by (simp add: commit_events_def vertex_batch_def)
  moreover have "22 + 23 * length (commit_events c (vertex_batch t v)) \<le> kMaxPayloadBytes"
    by (simp add: commit_events_def vertex_batch_def kMaxPayloadBytes_def)
  ultimately obtain ops where ops: "AppendCandidateToWriteBatch (candidate_of c (vertex_batch t v)) [] = (OK, ops)"
    using AppendCandidate_OK [OF ok(1) assms(3), of "[]"] commit_record_encodes [OF ok(1) assms(3)] by blast
  obtain wv where wv: "EncodeWatermark c = Inr wv"
    by (fastforce simp: EncodeWatermark_def EncodeRecord_iff kMaxPayloadBytes_def)
  have "EstimateCommitBatchBytes (vertex_batch t v) = EstimateCommitBatchBytes sample_batch"
    by (simp add: vertex_batch_def sample_batch_def EstimateCommitBatchBytes_def add_mutation_bytes_def)
  also have "\<dots> = 477" by code_simp
  finally have "GetDataSize (\<lambda>_. 1) (ops @ [Put MetaCf EncodeVisibleWatermarkKey wv]) \<le> 477"
    using estimate_covers_batch [OF ok(1) assms(3) _ _ ops wv, of "\<lambda>_. 1" None] by (simp add: prepared_delete_def)
  with ops wv that show thesis by blast
qed

lemma assemble_group_step:
  assumes "batch_ok (gr_batch r)" "c \<noteq> 0" "AppendCandidateToWriteBatch (candidate_of c (gr_batch r)) [] = (OK, ops)"
  shows "assemble_group c (r # rs) wb = assemble_group (c + 1) rs (wb @ ops @ prepared_delete (gr_prepared_key r))"
proof -
  let ?b = "gr_batch r"
  have "\<forall>m \<in> set (cb_mutations ?b). FactRef_Validate (mu_ref m) = OK"
    using assms(1) mutation_valid_ref by (auto simp: batch_ok_def)
  then have "encode_keys c (cb_mutations ?b) = Inr (cd_fact_keys (candidate_of c ?b))"
    using encode_keys_ok assms(2) by (simp add: candidate_of_def)
  moreover have "\<lparr>cd_batch = ?b, cd_commit_seq = c, cd_fact_keys = cd_fact_keys (candidate_of c ?b)\<rparr> = candidate_of c ?b"
    by (simp add: candidate_of_def)
  moreover have "AppendCandidateToWriteBatch (candidate_of c ?b) wb = (OK, wb @ ops)"
    using AppendCandidate_OK [OF assms(1,2)] assms(3) by auto
  ultimately show ?thesis by simp
qed

theorem group_commit_serial_witness:
  "\<exists>results s' rest. CommitGrouped sample_options 4 kv_engine [vertex_request 9 7, vertex_request 10 8] sample_store =
     ((map Inr results, s'), rest) \<and> results ! 1 = \<lparr>cr_commit_seq = 7, cr_system_hlc = 100\<rparr> \<and> fs_visible s' = 7"
proof -
  let ?q = "[vertex_request 9 7, vertex_request 10 8]"
  have sel: "select_group 4 True empty_index 0 ?q = ?q"
    by (simp add: select_group_rec independent_def BuildCommitFootprint_def vertex_request_def vertex_batch_def
        merge_footprint_def empty_index_def IdentityOf_def EntityFact_Vertex_def del: select_group.simps(2))
  have iso: "isolated sample_store (vertex_batch t v)" for t v
    by (rule isolated_no_deps) (simp_all add: vertex_batch_def EntityFact_Vertex_def)
  have "check_group [vertex_request t v] sample_store = (GroupReady, sample_store) \<and>
      check_group (vertex_request t v # rs) sample_store = check_group rs sample_store" if "t \<noteq> 0" for t v rs
    using iso [of t v] that
    by (simp add: vertex_request_def check_grouped_prepare_def EncodeTransactionMetaKey_def sample_store_def kv_get_def)
      (simp add: vertex_batch_def validate_snapshot_writes_def validate_strict_reads_def validate_identities_def isolated_def kv_get_def)
  then have chk: "check_group ?q sample_store = (GroupReady, sample_store)" by simp
  have vis: "fs_visible sample_store = 5" by (simp add: sample_store_def)
  obtain ops1 wv1 where o1: "AppendCandidateToWriteBatch (candidate_of 6 (vertex_batch 9 7)) [] = (OK, ops1)"
    "GetDataSize (\<lambda>_. 1) (ops1 @ [Put MetaCf EncodeVisibleWatermarkKey wv1]) \<le> 477"
    by (rule vertex_append [of 9 7 6]) simp_all
  obtain ops2 wv where o2: "AppendCandidateToWriteBatch (candidate_of 7 (vertex_batch 10 8)) [] = (OK, ops2)"
    "EncodeWatermark 7 = Inr wv" "GetDataSize (\<lambda>_. 1) (ops2 @ [Put MetaCf EncodeVisibleWatermarkKey wv]) \<le> 477"
    by (rule vertex_append [of 10 8 7]) simp_all
  have asm: "assemble_group 6 ?q [] = Inr (ops1 @ ops2)"
    using assemble_group_step [of "vertex_request 9 7" 6 ops1 "[vertex_request 10 8]" "[]"]
      assemble_group_step [of "vertex_request 10 8" 7 ops2 "[]" ops1] o1(1) o2(1) vertex_batch_ok(1)
    by (simp add: vertex_request_def prepared_delete_def del: assemble_group.simps(2))
  let ?wb = "(ops1 @ ops2) @ [Put MetaCf EncodeVisibleWatermarkKey wv]"
  have "GetDataSize (\<lambda>_. 1) ?wb \<le> 954" using o1(2) o2(3) by (simp add: GetDataSize_def)
  then have size: "CheckCommittedBatchSize (\<lambda>_. 1) ?wb (- 1) = OK" by (simp add: CheckCommittedBatchSize_def)
  have "write_group sample_options kv_engine True ?q sample_store =
      (Inr (group_results 6 ?q), PublishVisible 7 (publish_group 6 ?q (sample_store\<lparr>fs_db := apply_batch ?wb (fs_db sample_store)\<rparr>)))"
    using asm o2(2) size unfolding write_group_def vis
    by (simp add: kv_engine_def sample_options_def unat_max_diff del: publish_group.simps(2) append_assoc)
  then have run: "CommitGrouped sample_options 4 kv_engine ?q sample_store =
      ((map Inr (group_results 6 ?q), PublishVisible 7 (publish_group 6 ?q (sample_store\<lparr>fs_db := apply_batch ?wb (fs_db sample_store)\<rparr>))), [])"
    using sel chk vis unfolding CommitGrouped_def commit_group_def
    by (simp add: vertex_request_def sample_store_def del: publish_group.simps check_group.simps select_group.simps)
  have "\<forall>r \<in> set ?q. admit_request sample_options r = OK"
    using vertex_batch_ok(1) by (auto simp: admit_request_def vertex_request_def batch_ok_iff sample_options_def not_less)
  from group_commit_serial [OF kv_engine.write_engine_axioms sample_store_ok this _ _ _ _ _ run, of ?q 1] sel chk
  show ?thesis using run vis
    by (intro exI [of _ "group_results 6 ?q"] exI conjI) (auto simp: vertex_request_def vertex_batch_def)
qed

end
