(* ===== verification/Meta_Keys.thy ===== *)
theory Meta_Keys
  imports Meta_Codec Prepared_Codec
begin

text \<open>
  The key namespace of the metadata column family: the keys that \<^verbatim>\<open>meta_codec.cc\<close> and
  \<^verbatim>\<open>prepared_commit_codec.cc\<close> spell, and that no two of them have the same bytes.
\<close>

datatype meta_key =
    CurrentFormatKey | SchemaKey property_id u32 | EdgeKey edge_ref | AllocatorKey id_kind
  | TransactionKey txn_id | SequenceKey commit_seq | VisibleKey | OldestReadableKey
  | RetentionKey | VacuumKey | SequenceFormatKey
  | PreparedKey txn_id | TerminalKey txn_id | DecisionKey txn_id

fun meta_key_bytes :: "meta_key \<Rightarrow> bytes status_or" where
  "meta_key_bytes CurrentFormatKey = Inr EncodeCurrentFormatKey"
| "meta_key_bytes (SchemaKey p e) = EncodeSchemaMetaKey p e"
| "meta_key_bytes (EdgeKey e) = EncodeEdgeIdentityMetaKey e"
| "meta_key_bytes (AllocatorKey k) = Inr (EncodeAllocatorMetaKey k)"
| "meta_key_bytes (TransactionKey t) = EncodeTransactionMetaKey t"
| "meta_key_bytes (SequenceKey c) = EncodeSequenceMetaKey c"
| "meta_key_bytes VisibleKey = Inr EncodeVisibleWatermarkKey"
| "meta_key_bytes OldestReadableKey = Inr EncodeOldestReadableWatermarkKey"
| "meta_key_bytes RetentionKey = Inr EncodeSequenceRetentionWatermarkKey"
| "meta_key_bytes VacuumKey = Inr EncodeVacuumStateKey"
| "meta_key_bytes SequenceFormatKey = Inr EncodeSequenceFormatKey"
| "meta_key_bytes (PreparedKey t) = EncodePreparedCommitKey t"
| "meta_key_bytes (TerminalKey t) = EncodeAsyncTerminalKey t"
| "meta_key_bytes (DecisionKey t) = EncodePreparedDecisionKey t"

definition named_key :: "meta_key \<Rightarrow> bool" where
  "named_key k \<longleftrightarrow> (case k of AllocatorKey (IdOther _) \<Rightarrow> False | _ \<Rightarrow> True)"

lemmas meta_key_defs =
  EncodeCurrentFormatKey_def EncodeSchemaMetaKey_def EncodeEdgeIdentityMetaKey_def
  EncodeTransactionMetaKey_def EncodeSequenceMetaKey_def EncodeVisibleWatermarkKey_def
  EncodeOldestReadableWatermarkKey_def EncodeSequenceRetentionWatermarkKey_def
  EncodeVacuumStateKey_def EncodeSequenceFormatKey_def EncodePreparedCommitKey_def
  EncodeAsyncTerminalKey_def EncodePreparedDecisionKey_def PreparedCommitPrefix_def AsyncTerminalPrefix_def

text \<open>The first two bytes tell the namespaces apart, up to the fixed keys and the two asynchronous ones.\<close>

fun key_head :: "meta_key \<Rightarrow> string" where
  "key_head (SchemaKey _ _) = ''sc''"
| "key_head (EdgeKey _) = ''ed''"
| "key_head (AllocatorKey _) = ''al''"
| "key_head (TransactionKey _) = ''tx''"
| "key_head (SequenceKey _) = ''se''"
| "key_head VacuumKey = ''va''"
| "key_head CurrentFormatKey = ''fo''"
| "key_head SequenceFormatKey = ''fo''"
| "key_head (PreparedKey _) = ''as''"
| "key_head (TerminalKey _) = ''as''"
| "key_head (DecisionKey _) = ''ex''"
| "key_head _ = ''wa''"

lemma take_head: "meta_key_bytes k = Inr s \<Longrightarrow> take 2 s = ascii (key_head k)"
proof (cases k)
  case (AllocatorKey i)
  then show "meta_key_bytes k = Inr s \<Longrightarrow> take 2 s = ascii (key_head k)" by (cases i) auto
qed (auto simp: meta_key_defs split: if_splits)

lemma same_head:
  assumes "meta_key_bytes k = Inr s" "meta_key_bytes k' = Inr s"
  shows "ascii (key_head k) = ascii (key_head k')"
  using take_head [OF assms(1)] take_head [OF assms(2)] by (rule trans [OF sym])

lemma prepared_ne_terminal: "ascii ''async/prepare/'' @ x \<noteq> ascii ''async/terminal/'' @ y"
  by simp

lemma meta_key_bytes_inject:
  assumes "meta_key_bytes k = Inr s" "meta_key_bytes k' = Inr s" "named_key k" "named_key k'"
  shows "k = k'"
proof -
  note head = same_head [OF assms(1,2)]
  have eq: "meta_key_bytes k = meta_key_bytes k'" "ok (meta_key_bytes k)" "ok (meta_key_bytes k')"
    using assms(1,2) by simp_all
  show ?thesis
  proof (cases k)
    case (AllocatorKey i)
    then obtain i' where k': "k' = AllocatorKey i'" using head by (cases k') auto
    with AllocatorKey assms show ?thesis by (cases i; cases i') (auto simp: named_key_def)
  next
    case (PreparedKey t)
    then consider t' where "k' = PreparedKey t'" | t' where "k' = TerminalKey t'" using head by (cases k') auto
    then show ?thesis using PreparedKey eq
      by cases (simp_all add: meta_key_defs prepared_ne_terminal del: ascii_Cons split: if_splits)
  next
    case (TerminalKey t)
    then consider t' where "k' = PreparedKey t'" | t' where "k' = TerminalKey t'" using head by (cases k') auto
    then show ?thesis using TerminalKey eq
      by cases (simp_all add: meta_key_defs prepared_ne_terminal [symmetric] del: ascii_Cons split: if_splits)
  next
    case (DecisionKey t)
    then obtain t' where "k' = DecisionKey t'" using head by (cases k') auto
    then show ?thesis using DecisionKey eq by (simp add: meta_key_defs del: ascii_Cons split: if_splits)
  next
    case (SchemaKey p e)
    then obtain p' e' where "k' = SchemaKey p' e'" using head by (cases k') auto
    then show ?thesis using SchemaKey eq by (simp add: meta_key_defs del: ascii_Cons split: if_splits)
  next
    case (EdgeKey e)
    then obtain e' where "k' = EdgeKey e'" using head by (cases k') auto
    then show ?thesis using EdgeKey eq by (cases e; cases e') (simp add: meta_key_defs del: ascii_Cons split: if_splits)
  next
    case (TransactionKey t)
    then obtain t' where "k' = TransactionKey t'" using head by (cases k') auto
    then show ?thesis using TransactionKey eq by (simp add: meta_key_defs del: ascii_Cons split: if_splits)
  next
    case (SequenceKey c)
    then obtain c' where "k' = SequenceKey c'" using head by (cases k') auto
    then show ?thesis using SequenceKey eq by (simp add: meta_key_defs del: ascii_Cons split: if_splits)
  qed (use eq(1) head in \<open>cases k'; simp add: meta_key_defs; fail\<close>)+
qed

text \<open>
  C31: the keys of the metadata column family never collide: two keys that can be encoded, of
  the records, watermarks and markers or of prepared commits, terminals and decisions, with
  the same bytes are the same key. (An allocator kind outside the enumeration is the one value
  that has no key of its own.)
\<close>

theorem meta_keys_distinct:
  "inj_on meta_key_bytes {k. named_key k \<and> ok (meta_key_bytes k)}"
proof (rule inj_onI)
  fix k k'
  assume "k \<in> {k. named_key k \<and> ok (meta_key_bytes k)}"
    "k' \<in> {k. named_key k \<and> ok (meta_key_bytes k)}" "meta_key_bytes k = meta_key_bytes k'"
  moreover from this obtain s where "meta_key_bytes k' = Inr s"
    by (cases "meta_key_bytes k'") auto
  ultimately show "k = k'"
    by (auto intro: meta_key_bytes_inject)
qed

end
