(* ===== verification/Id_Allocation.thy ===== *)
theory Id_Allocation
  imports Vacuum_Retention Meta_Keys
begin

text \<open>
  Allocation of transaction, vertex and edge IDs (\<^verbatim>\<open>FactStore::AllocateTransactionId\<close>,
  \<^verbatim>\<open>FactStore::LeaseIds\<close> and the allocator part of \<^verbatim>\<open>FactStore::Open\<close> in
  \<^verbatim>\<open>rocks_adapter.cc\<close>). Transaction IDs come from a durable lease through a lock-free fast
  path, so the allocation is a step relation: every thread has a program counter over the
  atomic operations of the function, and steps of all threads, other writers and reopening
  the store interleave freely. The atomic variables are sequentially consistent in the model;
  each critical section under the publisher mutex is one step.
\<close>

section \<open>Allocator records\<close>

definition kDefaultIdLeaseSize :: u64 where
  "kDefaultIdLeaseSize = 65536"

definition kDefaultEntityIdLeaseSize :: u64 where
  "kDefaultEntityIdLeaseSize = 4096"

definition TransactionIdLeaseSize :: "u64 \<Rightarrow> u64" where
  "TransactionIdLeaseSize configured = (if configured = 0 then kDefaultIdLeaseSize else configured)"

definition LoadAllocatorState :: "kv \<Rightarrow> id_kind \<Rightarrow> id_allocator_state status_or" where
  "LoadAllocatorState meta kind =
     (case kv_get meta (EncodeAllocatorMetaKey kind) of
        None \<Rightarrow> Inr \<lparr>ia_kind = kind, ia_next_id = 1\<rparr>
      | Some encoded \<Rightarrow>
          sbind (DecodeIdAllocatorState encoded) (\<lambda>decoded.
            if ia_kind decoded \<noteq> kind then Corruption ''fact store'' ''allocator record has wrong ID kind''
            else Inr decoded))"

fun highest_transaction :: "u64 \<Rightarrow> kv \<Rightarrow> u64 status_or" where
  "highest_transaction highest [] = Inr highest"
| "highest_transaction highest ((k, v) # m) =
     (if \<not> StartsWith k kSequenceMetaPrefix then Inr highest
      else if length k \<noteq> kSequenceMetaKeyBytes
      then Corruption ''fact store'' ''invalid durable sequence record key''
      else sbind (DecodeSequenceRecord v (ParseSequenceMetaKey k)) (\<lambda>sequence.
        highest_transaction (max highest (sr_txn_id sequence)) m))"

definition LoadTransactionAllocatorState :: "kv \<Rightarrow> commit_seq \<Rightarrow> id_allocator_state status_or" where
  "LoadTransactionAllocatorState meta retention =
     (case kv_get meta (EncodeAllocatorMetaKey IdTransaction) of
        Some encoded \<Rightarrow>
          sbind (DecodeIdAllocatorState encoded) (\<lambda>decoded.
            if ia_kind decoded \<noteq> IdTransaction
            then Corruption ''fact store'' ''transaction allocator has wrong ID kind''
            else Inr decoded)
      | None \<Rightarrow>
          sbind (highest_transaction 0 (Seek meta (kSequenceMetaPrefix @ AppendU64 (max 1 retention)))) (\<lambda>highest.
            if highest = - 1 then ResourceExhausted ''transaction'' ''transaction ID space exhausted''
            else Inr \<lparr>ia_kind = IdTransaction, ia_next_id = highest + 1\<rparr>))"

section \<open>The state\<close>

type_synonym thread = nat

datatype alloc_pc =
  Idle | Checked | LoadedNext u64 | LoadedLimit u64 u64 | LeaseWanted | LeaseHeld | HeldNext u64 | LeaseLocked
| StoreNext u64 u64 | StoreLimit u64

record id_lease =
  il_kind :: id_kind
  il_first :: u64
  il_count :: u64

text \<open>The last two fields log what the two operations have returned.\<close>

record alloc_state =
  al_db :: database
  al_recovery :: bool
  al_next :: u64
  al_limit :: u64
  al_transaction :: u64
  al_vertex :: u64
  al_edge :: u64
  al_lease_mutex :: "thread option"
  al_pc :: "thread \<Rightarrow> alloc_pc"
  al_issued :: "txn_id list"
  al_leases :: "id_lease list"

text \<open>The synchronous write of an allocator record, which both operations do under the publisher mutex.\<close>

definition persist_allocator :: "engine \<Rightarrow> id_kind \<Rightarrow> u64 \<Rightarrow> alloc_state \<Rightarrow> status \<times> alloc_state" where
  "persist_allocator engine kind next_id s =
     (case EncodeIdAllocatorState \<lparr>ia_kind = kind, ia_next_id = next_id\<rparr> of
        Inl e \<Rightarrow> (Inl e, s)
      | Inr encoded \<Rightarrow>
          (case engine True (al_db s) [Put MetaCf (EncodeAllocatorMetaKey kind) encoded] of
             (RocksOk, db) \<Rightarrow> (OK, s\<lparr>al_db := db\<rparr>)
           | (failed, db) \<Rightarrow>
               let e = FromMetadataWriteFailure failed
               in (Inl e, s\<lparr>al_db := db, al_recovery := al_recovery s \<or> error_code e = kIndeterminate\<rparr>)))"

text \<open>The critical section that makes a longer lease durable; it answers the new lease.\<close>

definition extend_lease :: "engine \<Rightarrow> u64 \<Rightarrow> alloc_state \<Rightarrow> (u64 \<times> u64) status_or \<times> alloc_state" where
  "extend_lease engine lease_size s =
     (if al_recovery s
      then (Inl (Status_init kRecoveryRequired ''transaction'' ''reopen required after indeterminate write''), s)
      else
        let lease_start = al_transaction s in
        if lease_size > - 1 - lease_start
        then (ResourceExhausted ''transaction'' ''transaction ID space exhausted'', s)
        else case persist_allocator engine IdTransaction (lease_start + lease_size) s of
          (Inl e, s') \<Rightarrow> (Inl e, s')
        | (Inr _, s') \<Rightarrow>
            (Inr (lease_start, lease_start + lease_size), s'\<lparr>al_transaction := lease_start + lease_size\<rparr>))"

definition allocator_of :: "id_kind \<Rightarrow> alloc_state \<Rightarrow> u64" where
  "allocator_of kind s = (if kind = IdVertex then al_vertex s else al_edge s)"

definition set_allocator :: "id_kind \<Rightarrow> u64 \<Rightarrow> alloc_state \<Rightarrow> alloc_state" where
  "set_allocator kind next_id s =
     (if kind = IdVertex then s\<lparr>al_vertex := next_id\<rparr> else s\<lparr>al_edge := next_id\<rparr>)"

definition lease_open :: "engine \<Rightarrow> id_kind \<Rightarrow> u64 \<Rightarrow> alloc_state \<Rightarrow> id_lease status_or \<times> alloc_state" where
  "lease_open engine kind count s =
     (if al_recovery s
      then (Inl (Status_init kRecoveryRequired ''ID lease'' ''reopen required after indeterminate write''), s)
      else if count > - 1 - allocator_of kind s
      then (ResourceExhausted ''ID lease'' ''ID space exhausted'', s)
      else
        let next_id = allocator_of kind s + count in
        case persist_allocator engine kind next_id s of
          (Inl e, s') \<Rightarrow> (Inl e, s')
        | (Inr _, s') \<Rightarrow>
            (Inr \<lparr>il_kind = kind, il_first = allocator_of kind s', il_count = count\<rparr>, set_allocator kind next_id s'))"

definition LeaseIds :: "engine \<Rightarrow> id_kind \<Rightarrow> u64 \<Rightarrow> alloc_state option \<Rightarrow> id_lease status_or \<times> alloc_state option" where
  "LeaseIds engine kind count impl =
     (if kind \<noteq> IdVertex \<and> kind \<noteq> IdEdge then (InvalidArgument ''ID lease'' ''unknown ID kind'', impl)
      else
        let count = (if count = 0 then kDefaultEntityIdLeaseSize else count) in
        case impl of
          None \<Rightarrow> (InvalidArgument ''ID lease'' ''store is not open'', None)
        | Some s \<Rightarrow> map_prod id Some (lease_open engine kind count s))"

definition open_allocators :: "kv \<Rightarrow> commit_seq \<Rightarrow> (u64 \<times> u64 \<times> u64) status_or" where
  "open_allocators meta retention =
     sbind (LoadAllocatorState meta IdVertex) (\<lambda>vertex.
     sbind (LoadAllocatorState meta IdEdge) (\<lambda>edge.
     sbind (LoadTransactionAllocatorState meta retention) (\<lambda>transaction.
       Inr (ia_next_id vertex, ia_next_id edge, ia_next_id transaction))))"

section \<open>Steps\<close>

definition move :: "thread \<Rightarrow> alloc_pc \<Rightarrow> alloc_state \<Rightarrow> alloc_state" where
  "move t pc s = s\<lparr>al_pc := (al_pc s)(t := pc)\<rparr>"

inductive alloc_step :: "engine \<Rightarrow> u64 \<Rightarrow> alloc_state \<Rightarrow> alloc_state \<Rightarrow> bool" for engine lease_size where
  check: "al_pc s t = Idle \<Longrightarrow> \<not> al_recovery s \<Longrightarrow> alloc_step engine lease_size s (move t Checked s)"
| load_next: "al_pc s t = Checked \<Longrightarrow> alloc_step engine lease_size s (move t (LoadedNext (al_next s)) s)"
| load_limit: "al_pc s t = LoadedNext n \<Longrightarrow> alloc_step engine lease_size s (move t (LoadedLimit n (al_limit s)) s)"
| take_id: "al_pc s t = LoadedLimit n l \<Longrightarrow> n < l \<Longrightarrow> al_next s = n \<Longrightarrow>
    alloc_step engine lease_size s (move t Idle (s\<lparr>al_next := n + 1, al_issued := n # al_issued s\<rparr>))"
| miss: "al_pc s t = LoadedLimit n l \<Longrightarrow> alloc_step engine lease_size s (move t LeaseWanted s)"
| lock: "al_pc s t = LeaseWanted \<Longrightarrow> al_lease_mutex s = None \<Longrightarrow>
    alloc_step engine lease_size s (move t LeaseHeld (s\<lparr>al_lease_mutex := Some t\<rparr>))"
| reload_next: "al_pc s t = LeaseHeld \<Longrightarrow> alloc_step engine lease_size s (move t (HeldNext (al_next s)) s)"
| retry: "al_pc s t = HeldNext n \<Longrightarrow> n < al_limit s \<Longrightarrow>
    alloc_step engine lease_size s (move t Idle (s\<lparr>al_lease_mutex := None\<rparr>))"
| exhausted: "al_pc s t = HeldNext n \<Longrightarrow> \<not> n < al_limit s \<Longrightarrow>
    alloc_step engine lease_size s (move t LeaseLocked s)"
| extend: "al_pc s t = LeaseLocked \<Longrightarrow> extend_lease engine lease_size s = (Inr (start, l), s') \<Longrightarrow>
    alloc_step engine lease_size s (move t (StoreNext start l) s')"
| extend_failed: "al_pc s t = LeaseLocked \<Longrightarrow> extend_lease engine lease_size s = (Inl e, s') \<Longrightarrow>
    alloc_step engine lease_size s (move t Idle (s'\<lparr>al_lease_mutex := None\<rparr>))"
| store_next: "al_pc s t = StoreNext start l \<Longrightarrow> alloc_step engine lease_size s (move t (StoreLimit l) (s\<lparr>al_next := start\<rparr>))"
| store_limit: "al_pc s t = StoreLimit l \<Longrightarrow>
    alloc_step engine lease_size s (move t Idle (s\<lparr>al_limit := l, al_lease_mutex := None\<rparr>))"
| lease: "LeaseIds engine kind count (Some s) = (Inr given, Some s') \<Longrightarrow>
    alloc_step engine lease_size s (s'\<lparr>al_leases := given # al_leases s'\<rparr>)"
| lease_failed: "LeaseIds engine kind count (Some s) = (Inl e, Some s') \<Longrightarrow> alloc_step engine lease_size s s'"
| other_write: "kv_sorted (db_meta db) \<Longrightarrow>
    (\<And>kind. kv_get (db_meta db) (EncodeAllocatorMetaKey kind) = kv_get (db_meta (al_db s)) (EncodeAllocatorMetaKey kind)) \<Longrightarrow>
    alloc_step engine lease_size s (s\<lparr>al_db := db\<rparr>)"
| reopen: "open_allocators (db_meta (al_db s)) retention = Inr (vertex, edge, transaction) \<Longrightarrow>
    alloc_step engine lease_size s
      (s\<lparr>al_recovery := False, al_next := transaction, al_limit := transaction, al_transaction := transaction,
         al_vertex := vertex, al_edge := edge, al_lease_mutex := None, al_pc := \<lambda>_. Idle\<rparr>)"

inductive alloc_reach :: "engine \<Rightarrow> u64 \<Rightarrow> alloc_state \<Rightarrow> bool" for engine lease_size where
  opened: "kv_sorted (db_meta db) \<Longrightarrow> open_allocators (db_meta db) retention = Inr (vertex, edge, transaction) \<Longrightarrow>
    alloc_reach engine lease_size
      \<lparr>al_db = db, al_recovery = False, al_next = transaction, al_limit = transaction, al_transaction = transaction,
       al_vertex = vertex, al_edge = edge, al_lease_mutex = None, al_pc = \<lambda>_. Idle, al_issued = [], al_leases = []\<rparr>"
| stepped: "alloc_reach engine lease_size s \<Longrightarrow> alloc_step engine lease_size s s' \<Longrightarrow> alloc_reach engine lease_size s'"

section \<open>Reserved ranges\<close>

text \<open>
  The record of a kind reserves every ID in use: it is missing only while nothing of the kind
  has been given out, and otherwise lies at or above the allocator in memory.
\<close>

definition reserves :: "kv \<Rightarrow> id_kind \<Rightarrow> u64 \<Rightarrow> bool \<Rightarrow> bool" where
  "reserves meta kind next_id given \<longleftrightarrow>
     (case kv_get meta (EncodeAllocatorMetaKey kind) of
        None \<Rightarrow> \<not> given
      | Some encoded \<Rightarrow>
          (\<exists>a. DecodeIdAllocatorState encoded = Inr a \<and> ia_kind a = kind \<and> next_id \<le> ia_next_id a))"

lemma allocator_key_eq:
  "named_key (AllocatorKey k) \<Longrightarrow> named_key (AllocatorKey k') \<Longrightarrow>
   EncodeAllocatorMetaKey k = EncodeAllocatorMetaKey k' \<longleftrightarrow> k = k'"
  using meta_key_bytes_inject [of "AllocatorKey k" _ "AllocatorKey k'"] by auto

lemma decoded_nonzero: "DecodeIdAllocatorState encoded = Inr a \<Longrightarrow> ia_next_id a \<noteq> 0"
  by (auto simp: allocator_record.decode_iff IdAllocatorState_Validate_def split: if_splits)

lemma LoadAllocatorState_reserves:
  assumes "LoadAllocatorState meta kind = Inr a"
  shows "ia_next_id a \<noteq> 0" "reserves meta kind (ia_next_id a) False"
    "reserves meta kind n given \<Longrightarrow> reserves meta kind (ia_next_id a) given"
    "reserves meta kind n True \<Longrightarrow> n \<le> ia_next_id a"
  using assms
  by (auto simp: LoadAllocatorState_def reserves_def sbind_Inr_iff dest: decoded_nonzero
      split: option.splits if_splits)

lemma LoadTransactionAllocatorState_reserves:
  assumes "LoadTransactionAllocatorState meta retention = Inr a"
  shows "ia_next_id a \<noteq> 0" "reserves meta IdTransaction (ia_next_id a) False"
    "reserves meta IdTransaction n given \<Longrightarrow> reserves meta IdTransaction (ia_next_id a) given"
    "reserves meta IdTransaction n True \<Longrightarrow> n \<le> ia_next_id a"
proof -
  have "highest + 1 \<noteq> 0" if "highest \<noteq> - 1" for highest :: u64
    using that by (metis add.inverse_inverse add_eq_0_iff2 add.commute minus_unique)
  then show "ia_next_id a \<noteq> 0"
    using assms by (auto simp: LoadTransactionAllocatorState_def sbind_Inr_iff dest: decoded_nonzero
      split: option.splits if_splits)
qed (use assms in \<open>auto simp: LoadTransactionAllocatorState_def reserves_def sbind_Inr_iff
      split: option.splits if_splits\<close>)

text \<open>Writing a record of a kind: whichever way the engine ends, every kind stays reserved.\<close>

lemma reserve_atomic:
  assumes "kv_sorted (db_meta db)" "named_key (AllocatorKey kind)" "named_key (AllocatorKey kind')"
    "EncodeIdAllocatorState \<lparr>ia_kind = kind, ia_next_id = next_id\<rparr> = Inr encoded"
    "reserves (db_meta db) kind' n given" "kind' = kind \<longrightarrow> n \<le> next_id"
    "db' = db \<or> db' = apply_batch [Put MetaCf (EncodeAllocatorMetaKey kind) encoded] db"
  shows "reserves (db_meta db') kind' n given" "kv_sorted (db_meta db')"
proof -
  have "DecodeIdAllocatorState encoded = Inr \<lparr>ia_kind = kind, ia_next_id = next_id\<rparr>"
    using assms(4) by (simp add: allocator_record.decode_encode)
  then show "reserves (db_meta db') kind' n given"
    using assms by (auto simp: apply_batch_def kv_get_put reserves_def allocator_key_eq)
  show "kv_sorted (db_meta db')" using assms(1,7) by (auto simp: apply_batch_def kv_put_sorted)
qed

lemma reserve_written:
  assumes "kv_sorted (db_meta db)" "EncodeIdAllocatorState \<lparr>ia_kind = kind, ia_next_id = next_id\<rparr> = Inr encoded"
  shows "reserves (db_meta (apply_batch [Put MetaCf (EncodeAllocatorMetaKey kind) encoded] db)) kind next_id given"
  using assms by (auto simp: apply_batch_def kv_get_put reserves_def allocator_record.decode_encode)

section \<open>The invariant\<close>

definition lease_end :: "id_lease \<Rightarrow> u64" where
  "lease_end given = il_first given + il_count given"

definition lease_ids :: "id_lease \<Rightarrow> u64 set" where
  "lease_ids given = {i. il_first given \<le> i \<and> i < lease_end given}"

definition durable :: "alloc_state \<Rightarrow> bool" where
  "durable s \<longleftrightarrow>
     kv_sorted (db_meta (al_db s)) \<and>
     reserves (db_meta (al_db s)) IdTransaction (al_transaction s) (al_issued s \<noteq> [] \<or> al_next s \<noteq> al_transaction s) \<and>
     (\<forall>kind \<in> {IdVertex, IdEdge}.
        reserves (db_meta (al_db s)) kind (allocator_of kind s) (kind \<in> il_kind ` set (al_leases s)))"

definition leases_ok :: "alloc_state \<Rightarrow> bool" where
  "leases_ok s \<longleftrightarrow>
     al_vertex s \<noteq> 0 \<and> al_edge s \<noteq> 0 \<and>
     (\<forall>given \<in> set (al_leases s).
        il_kind given \<in> {IdVertex, IdEdge} \<and> 0 < il_first given \<and> il_first given < lease_end given \<and>
        lease_end given \<le> allocator_of (il_kind given) s) \<and>
     sorted_wrt (\<lambda>a b. il_kind a = il_kind b \<longrightarrow> lease_end b \<le> il_first a) (al_leases s)"

fun pc_ok :: "alloc_state \<Rightarrow> thread \<Rightarrow> alloc_pc \<Rightarrow> bool" where
  "pc_ok s t (LoadedLimit n l) \<longleftrightarrow> l \<le> al_limit s"
| "pc_ok s t LeaseHeld \<longleftrightarrow> al_lease_mutex s = Some t \<and> al_limit s = al_transaction s"
| "pc_ok s t (HeldNext n) \<longleftrightarrow> al_lease_mutex s = Some t \<and> al_limit s = al_transaction s \<and> n \<le> al_next s"
| "pc_ok s t LeaseLocked \<longleftrightarrow> al_lease_mutex s = Some t \<and> al_next s = al_limit s \<and> al_limit s = al_transaction s"
| "pc_ok s t (StoreNext start l) \<longleftrightarrow>
     al_lease_mutex s = Some t \<and> al_next s = al_limit s \<and> start = al_limit s \<and> l = al_transaction s"
| "pc_ok s t (StoreLimit l) \<longleftrightarrow> al_lease_mutex s = Some t \<and> al_next s = al_limit s \<and> l = al_transaction s"
| "pc_ok s t _ \<longleftrightarrow> True"

definition fast_path_ok :: "alloc_state \<Rightarrow> bool" where
  "fast_path_ok s \<longleftrightarrow>
     0 < al_next s \<and> al_next s \<le> al_limit s \<and> al_limit s \<le> al_transaction s \<and>
     (al_lease_mutex s = None \<longrightarrow> al_limit s = al_transaction s) \<and>
     (\<forall>t. pc_ok s t (al_pc s t)) \<and>
     sorted_wrt (>) (al_issued s) \<and> (\<forall>i \<in> set (al_issued s). 0 < i \<and> i < al_next s)"

definition alloc_ok :: "alloc_state \<Rightarrow> bool" where
  "alloc_ok s \<longleftrightarrow> durable s \<and> leases_ok s \<and> fast_path_ok s"

section \<open>Every step keeps the invariant\<close>

lemmas alloc_ok_defs = alloc_ok_def durable_def leases_ok_def fast_path_ok_def

lemma unat_less_exp: "unat (n :: u64) < 2 ^ 64"
  using unsigned_less [of n] by simp

lemma word_room: "\<not> m > - 1 - (n :: u64) \<Longrightarrow> n \<le> n + m \<and> unat (n + m) = unat n + unat m"
proof -
  assume "\<not> m > - 1 - n"
  then have "m \<le> - 1 - n" by (simp only: not_less)
  then have "unat m \<le> unat (- 1 - n)" by (simp only: word_le_nat_alt)
  also have "unat (- 1 - n) = 2 ^ 64 - 1 - unat n" by (simp add: unat_sub)
  finally have "unat n + unat m < 2 ^ 64"
    using unat_less_exp [of n] by linarith
  then show ?thesis by (simp add: unat_word_ariths word_le_nat_alt)
qed

lemma persist_cases:
  assumes "write_engine engine" "persist_allocator engine kind next_id s = (r, s')"
  obtains (refused) "s' = s" "r \<noteq> OK"
  | (tried) db encoded recovery where
      "EncodeIdAllocatorState \<lparr>ia_kind = kind, ia_next_id = next_id\<rparr> = Inr encoded"
      "s' = s\<lparr>al_db := db, al_recovery := recovery\<rparr>"
      "db = al_db s \<or> db = apply_batch [Put MetaCf (EncodeAllocatorMetaKey kind) encoded] (al_db s)"
      "r = OK \<Longrightarrow> db = apply_batch [Put MetaCf (EncodeAllocatorMetaKey kind) encoded] (al_db s)"
proof (cases "EncodeIdAllocatorState \<lparr>ia_kind = kind, ia_next_id = next_id\<rparr>")
  case (Inl e)
  then have "s' = s" "r \<noteq> OK" using assms(2) by (auto simp: persist_allocator_def)
  then show thesis by (rule refused)
next
  case (Inr encoded)
  let ?wb = "[Put MetaCf (EncodeAllocatorMetaKey kind) encoded]"
  obtain status db where written: "engine True (al_db s) ?wb = (status, db)" by fastforce
  have db: "db = al_db s \<or> db = apply_batch ?wb (al_db s)" by (rule write_engine.atomic [OF assms(1) written])
  show thesis
  proof (cases status)
    case RocksOk
    with written assms(2) Inr have "s' = s\<lparr>al_db := db, al_recovery := al_recovery s\<rparr>"
      by (auto simp: persist_allocator_def)
    with tried [OF Inr this db] written RocksOk write_engine.written [OF assms(1)] show thesis by blast
  next
    case (RocksError code msg)
    with written assms(2) Inr obtain recovery where "s' = s\<lparr>al_db := db, al_recovery := recovery\<rparr>" "r \<noteq> OK"
      by (auto simp: persist_allocator_def Let_def)
    with tried [OF Inr _ db] show thesis by blast
  qed
qed

lemma durable_persist:
  assumes "write_engine engine" "persist_allocator engine kind next_id s = (r, s')" "durable s"
    "kind = IdTransaction \<and> al_transaction s \<le> next_id \<or> kind \<in> {IdVertex, IdEdge} \<and> allocator_of kind s \<le> next_id"
  shows "durable s'" "r = OK \<Longrightarrow> reserves (db_meta (al_db s')) kind next_id given"
    "\<exists>db recovery. s' = s\<lparr>al_db := db, al_recovery := recovery\<rparr>"
proof -
  have "durable s' \<and> (r = OK \<longrightarrow> reserves (db_meta (al_db s')) kind next_id given) \<and>
    (\<exists>db recovery. s' = s\<lparr>al_db := db, al_recovery := recovery\<rparr>)"
    using assms(1,2)
  proof (cases rule: persist_cases)
    case refused
    then have "s' = s\<lparr>al_db := al_db s, al_recovery := al_recovery s\<rparr>" by simp
    with assms(3) refused show ?thesis by blast
  next
    case (tried db encoded recovery)
    have sorted: "kv_sorted (db_meta (al_db s))" using assms(3) by (simp add: durable_def)
    have named: "named_key (AllocatorKey kind)" using assms(4) by (auto simp: named_key_def)
    have keep: "reserves (db_meta db) kind' n g"
      if "reserves (db_meta (al_db s)) kind' n g" "kind' \<in> {IdVertex, IdEdge, IdTransaction}" "kind' = kind \<longrightarrow> n \<le> next_id"
      for kind' n g
      by (rule reserve_atomic(1) [OF sorted named _ tried(1) that(1,3) tried(3)]) (use that(2) in \<open>auto simp: named_key_def\<close>)
    have "kv_sorted (db_meta db)" using tried(3) sorted by (auto simp: apply_batch_def kv_put_sorted)
    then have "durable s'" unfolding durable_def tried(2)
      using assms(3,4) by (auto simp: durable_def allocator_of_def intro!: keep)
    moreover have "reserves (db_meta (al_db s')) kind next_id given" if "r = OK"
      using tried(4) [OF that] tried(1,2) sorted by (simp add: reserve_written)
    ultimately show ?thesis using tried(2) by blast
  qed
  then show "durable s'" "r = OK \<Longrightarrow> reserves (db_meta (al_db s')) kind next_id given"
    "\<exists>db recovery. s' = s\<lparr>al_db := db, al_recovery := recovery\<rparr>" by blast+
qed

lemma open_keeps:
  assumes "open_allocators meta retention = Inr (vertex, edge, transaction)"
  shows "vertex \<noteq> 0" "edge \<noteq> 0" "transaction \<noteq> 0"
    "reserves meta IdVertex vertex False" "reserves meta IdEdge edge False" "reserves meta IdTransaction transaction False"
    "reserves meta IdVertex n given \<Longrightarrow> reserves meta IdVertex vertex given \<and> (given \<longrightarrow> n \<le> vertex)"
    "reserves meta IdEdge n given \<Longrightarrow> reserves meta IdEdge edge given \<and> (given \<longrightarrow> n \<le> edge)"
    "reserves meta IdTransaction n given \<Longrightarrow> reserves meta IdTransaction transaction given \<and> (given \<longrightarrow> n \<le> transaction)"
proof -
  from assms obtain v e t where loaded: "LoadAllocatorState meta IdVertex = Inr v" "LoadAllocatorState meta IdEdge = Inr e"
    "LoadTransactionAllocatorState meta retention = Inr t" "vertex = ia_next_id v" "edge = ia_next_id e" "transaction = ia_next_id t"
    by (auto simp: open_allocators_def sbind_Inr_iff)
  note v = LoadAllocatorState_reserves [OF loaded(1)] and e = LoadAllocatorState_reserves [OF loaded(2)]
    and t = LoadTransactionAllocatorState_reserves [OF loaded(3)]
  show "vertex \<noteq> 0" "edge \<noteq> 0" "transaction \<noteq> 0"
    "reserves meta IdVertex vertex False" "reserves meta IdEdge edge False" "reserves meta IdTransaction transaction False"
    unfolding loaded(4-6) by (rule v e t)+
  show "reserves meta IdVertex n given \<Longrightarrow> reserves meta IdVertex vertex given \<and> (given \<longrightarrow> n \<le> vertex)"
    using v(3,4) [of n] unfolding loaded(4) by (cases given) simp_all
  show "reserves meta IdEdge n given \<Longrightarrow> reserves meta IdEdge edge given \<and> (given \<longrightarrow> n \<le> edge)"
    using e(3,4) [of n] unfolding loaded(5) by (cases given) simp_all
  show "reserves meta IdTransaction n given \<Longrightarrow> reserves meta IdTransaction transaction given \<and> (given \<longrightarrow> n \<le> transaction)"
    using t(3,4) [of n] unfolding loaded(6) by (cases given) simp_all
qed

lemma fresh_open_ok:
  assumes "kv_sorted (db_meta db)" "open_allocators (db_meta db) retention = Inr (vertex, edge, transaction)"
  shows "alloc_ok
      \<lparr>al_db = db, al_recovery = False, al_next = transaction, al_limit = transaction, al_transaction = transaction,
       al_vertex = vertex, al_edge = edge, al_lease_mutex = None, al_pc = \<lambda>_. Idle, al_issued = [], al_leases = []\<rparr>"
  using assms(1) open_keeps(1-6) [OF assms(2)]
  by (simp add: alloc_ok_defs allocator_of_def word_neq_0_conv)

lemma leases_ok_mono:
  assumes "leases_ok s" "al_leases s' = al_leases s" "al_vertex s' \<noteq> 0" "al_edge s' \<noteq> 0"
    "\<And>kind. kind \<in> {IdVertex, IdEdge} \<Longrightarrow> kind \<in> il_kind ` set (al_leases s) \<Longrightarrow> allocator_of kind s \<le> allocator_of kind s'"
  shows "leases_ok s'"
proof -
  have "lease_end given \<le> allocator_of (il_kind given) s'" if "given \<in> set (al_leases s)" for given
  proof -
    from that assms(1) have "lease_end given \<le> allocator_of (il_kind given) s" "il_kind given \<in> {IdVertex, IdEdge}"
      by (auto simp: leases_ok_def)
    with assms(5) that show ?thesis by (blast intro: order.trans)
  qed
  with assms(1-4) show ?thesis by (simp add: leases_ok_def)
qed

lemma reopened_ok:
  assumes "alloc_ok s" "open_allocators (db_meta (al_db s)) retention = Inr (vertex, edge, transaction)"
  shows "alloc_ok
      (s\<lparr>al_recovery := False, al_next := transaction, al_limit := transaction, al_transaction := transaction,
         al_vertex := vertex, al_edge := edge, al_lease_mutex := None, al_pc := \<lambda>_. Idle\<rparr>)" (is "alloc_ok ?s")
proof -
  let ?meta = "db_meta (al_db s)"
  have ok: "durable s" "leases_ok s" "fast_path_ok s" using assms(1) by (simp_all add: alloc_ok_def)
  have stored: "reserves ?meta IdVertex (al_vertex s) (IdVertex \<in> il_kind ` set (al_leases s))"
    "reserves ?meta IdEdge (al_edge s) (IdEdge \<in> il_kind ` set (al_leases s))"
    "reserves ?meta IdTransaction (al_transaction s) (al_issued s \<noteq> [] \<or> al_next s \<noteq> al_transaction s)"
    using ok(1) by (simp_all add: durable_def allocator_of_def)
  note vertex = open_keeps(7) [OF assms(2) stored(1)] and edge = open_keeps(8) [OF assms(2) stored(2)]
    and transaction = open_keeps(9) [OF assms(2) stored(3)]
  have some: "reserves ?meta IdTransaction transaction (al_issued s \<noteq> [])"
    using transaction open_keeps(6) [OF assms(2)] by (cases "al_issued s = []") simp_all
  have "durable ?s" using ok(1) vertex edge some by (simp add: durable_def allocator_of_def)
  moreover have "leases_ok ?s"
  proof (rule leases_ok_mono [OF ok(2)])
    fix kind assume "kind \<in> {IdVertex, IdEdge}" "kind \<in> il_kind ` set (al_leases s)"
    with vertex edge show "allocator_of kind s \<le> allocator_of kind ?s" by (cases kind) (simp_all add: allocator_of_def)
  qed (use open_keeps(1,2) [OF assms(2)] in simp_all)
  moreover have "fast_path_ok ?s"
  proof -
    have "i < transaction" if "i \<in> set (al_issued s)" for i
    proof -
      from that have "al_issued s \<noteq> []" by auto
      with transaction have "al_transaction s \<le> transaction" by simp
      moreover have "i < al_next s" "al_next s \<le> al_limit s" "al_limit s \<le> al_transaction s"
        using ok(3) that by (simp_all add: fast_path_ok_def)
      ultimately show ?thesis by (meson order.strict_trans2)
    qed
    with ok(3) open_keeps(3) [OF assms(2)] show ?thesis by (simp add: fast_path_ok_def word_neq_0_conv)
  qed
  ultimately show ?thesis by (simp add: alloc_ok_def)
qed

text \<open>The steps of the fast path, and the two that take and release the lease mutex.\<close>

lemma move_simps [simp]:
  "al_db (move t pc s) = al_db s" "al_recovery (move t pc s) = al_recovery s" "al_next (move t pc s) = al_next s"
  "al_limit (move t pc s) = al_limit s" "al_transaction (move t pc s) = al_transaction s"
  "al_vertex (move t pc s) = al_vertex s" "al_edge (move t pc s) = al_edge s"
  "al_lease_mutex (move t pc s) = al_lease_mutex s" "al_issued (move t pc s) = al_issued s"
  "al_leases (move t pc s) = al_leases s" "al_pc (move t pc s) = (al_pc s)(t := pc)"
  by (simp_all add: move_def)

lemma durable_leases_frame:
  assumes "al_db s' = al_db s" "al_transaction s' = al_transaction s" "al_vertex s' = al_vertex s" "al_edge s' = al_edge s"
    "al_leases s' = al_leases s"
  shows "leases_ok s' \<longleftrightarrow> leases_ok s"
    "al_issued s' = al_issued s \<Longrightarrow> al_next s' = al_next s \<Longrightarrow> durable s' \<longleftrightarrow> durable s"
  using assms by (simp_all add: durable_def leases_ok_def allocator_of_def)

lemma pc_ok_cong:
  assumes "al_limit s \<le> al_limit s'" "al_lease_mutex s = Some t \<Longrightarrow>
      al_lease_mutex s' = Some t \<and> al_next s' = al_next s \<and> al_limit s' = al_limit s \<and> al_transaction s' = al_transaction s"
    "pc_ok s t pc"
  shows "pc_ok s' t pc"
  using assms by (cases pc) auto

lemma moved_ok:
  assumes "alloc_ok s" "pc_ok s t pc"
  shows "alloc_ok (move t pc s)"
proof -
  have same: "pc_ok (move t pc s) u q \<longleftrightarrow> pc_ok s u q" for u q by (cases q) simp_all
  with assms show ?thesis
    by (simp add: alloc_ok_def durable_leases_frame [of "move t pc s" s] fast_path_ok_def)
qed

lemma taken_ok:
  assumes "alloc_ok s" "al_pc s t = LoadedLimit n l" "n < l" "al_next s = n"
  shows "alloc_ok (move t Idle (s\<lparr>al_next := n + 1, al_issued := n # al_issued s\<rparr>))" (is "alloc_ok ?s")
proof -
  have ok: "durable s" "leases_ok s" "fast_path_ok s" using assms(1) by (simp_all add: alloc_ok_def)
  have "pc_ok s t (LoadedLimit n l)" using ok(3) assms(2) by (metis fast_path_ok_def)
  then have below: "n < al_limit s" using assms(3) by simp
  then have "n \<noteq> max_seq" by (metis max_seq_def word_n1_ge not_le)
  then have up: "n < n + 1" "n + 1 \<le> al_limit s" using below by (simp_all add: next_seq inc_le)
  have free: "pc_ok ?s u (al_pc s u)" for u
  proof -
    have "pc_ok s u (al_pc s u)" using ok(3) by (simp add: fast_path_ok_def)
    then show ?thesis using below up(1) assms(4) by (cases "al_pc s u") (auto intro: order.trans less_imp_le)
  qed
  have "al_next s \<noteq> al_transaction s" using ok(3) below assms(4) by (auto simp: fast_path_ok_def)
  then have "reserves (db_meta (al_db s)) IdTransaction (al_transaction s) True" using ok(1) by (simp add: durable_def)
  with ok(1) have "durable ?s" by (simp add: durable_def allocator_of_def)
  moreover have "leases_ok ?s" using ok(2) by (simp add: durable_leases_frame [of ?s s])
  moreover have "fast_path_ok ?s"
    using ok(3) up assms(4) free by (auto simp: fast_path_ok_def intro: order.strict_trans)
  ultimately show ?thesis by (simp add: alloc_ok_def)
qed

lemma held_ok:
  assumes "alloc_ok s" "al_lease_mutex s = None"
  shows "alloc_ok (move t LeaseHeld (s\<lparr>al_lease_mutex := Some t\<rparr>))" (is "alloc_ok ?s")
proof -
  have ok: "durable s" "leases_ok s" "fast_path_ok s" using assms(1) by (simp_all add: alloc_ok_def)
  have "pc_ok ?s u (al_pc s u)" for u
    by (rule pc_ok_cong [of s]) (use ok(3) assms(2) in \<open>auto simp: fast_path_ok_def\<close>)
  then have "fast_path_ok ?s" using ok(3) assms(2) by (auto simp: fast_path_ok_def)
  with ok(1,2) show ?thesis by (simp add: alloc_ok_def durable_leases_frame [of ?s s])
qed

lemma reloaded_ok:
  assumes "alloc_ok s" "al_pc s t = LeaseHeld"
  shows "alloc_ok (move t (HeldNext (al_next s)) s)"
proof -
  have "pc_ok s t LeaseHeld" using assms by (metis alloc_ok_def fast_path_ok_def)
  then show ?thesis by (intro moved_ok [OF assms(1)]) simp
qed

lemma exhausted_ok:
  assumes "alloc_ok s" "al_pc s t = HeldNext n" "\<not> n < al_limit s"
  shows "alloc_ok (move t LeaseLocked s)"
proof -
  have "pc_ok s t (HeldNext n)" using assms by (metis alloc_ok_def fast_path_ok_def)
  moreover have "al_next s \<le> al_limit s" using assms(1) by (simp add: alloc_ok_def fast_path_ok_def)
  ultimately show ?thesis using assms(3) by (intro moved_ok [OF assms(1)]) auto
qed

lemma stored_next_ok:
  assumes "alloc_ok s" "al_pc s t = StoreNext start l"
  shows "alloc_ok (move t (StoreLimit l) (s\<lparr>al_next := start\<rparr>))"
proof -
  have "pc_ok s t (StoreNext start l)" using assms by (metis alloc_ok_def fast_path_ok_def)
  then have "s\<lparr>al_next := start\<rparr> = s" "pc_ok s t (StoreLimit l)" by simp_all
  then show ?thesis using moved_ok [OF assms(1)] by simp
qed

lemma stored_limit_ok:
  assumes "alloc_ok s" "al_pc s t = StoreLimit l"
  shows "alloc_ok (move t Idle (s\<lparr>al_limit := l, al_lease_mutex := None\<rparr>))" (is "alloc_ok ?s")
proof -
  have ok: "durable s" "leases_ok s" "fast_path_ok s" using assms(1) by (simp_all add: alloc_ok_def)
  have mine: "pc_ok s t (StoreLimit l)" using ok(3) assms(2) by (metis fast_path_ok_def)
  then have "al_limit s \<le> l" using ok(3) by (simp add: fast_path_ok_def)
  have "pc_ok ?s u (al_pc s u)" if "u \<noteq> t" for u
    by (rule pc_ok_cong [of s]) (use ok(3) mine that \<open>al_limit s \<le> l\<close> in \<open>auto simp: fast_path_ok_def\<close>)
  with ok(3) mine \<open>al_limit s \<le> l\<close> have "fast_path_ok ?s" by (auto simp: fast_path_ok_def)
  with ok(1,2) show ?thesis by (simp add: alloc_ok_def durable_leases_frame [of ?s s])
qed

lemma unlocked_ok:
  assumes "alloc_ok s" "al_pc s t = LeaseLocked \<or> al_pc s t = HeldNext n"
  shows "alloc_ok (move t Idle (s\<lparr>al_lease_mutex := None\<rparr>))" (is "alloc_ok ?s")
proof -
  have ok: "durable s" "leases_ok s" "fast_path_ok s" using assms(1) by (simp_all add: alloc_ok_def)
  have "pc_ok s t (al_pc s t)" using ok(3) by (simp add: fast_path_ok_def)
  then have mine: "al_lease_mutex s = Some t" "al_limit s = al_transaction s" using assms(2) by auto
  have "pc_ok ?s u (al_pc s u)" if "u \<noteq> t" for u
    by (rule pc_ok_cong [of s]) (use ok(3) mine that in \<open>auto simp: fast_path_ok_def\<close>)
  with ok(3) mine have "fast_path_ok ?s" by (auto simp: fast_path_ok_def)
  with ok(1,2) show ?thesis by (simp add: alloc_ok_def durable_leases_frame [of ?s s])
qed

text \<open>A step that changes only the database and the recovery flag matters to the records alone.\<close>

lemma database_ok:
  assumes "alloc_ok s" "durable (s\<lparr>al_db := db, al_recovery := recovery\<rparr>)"
  shows "alloc_ok (s\<lparr>al_db := db, al_recovery := recovery\<rparr>)"
proof -
  have "pc_ok (s\<lparr>al_db := db, al_recovery := recovery\<rparr>) t pc \<longleftrightarrow> pc_ok s t pc" for t pc by (cases pc) simp_all
  moreover have "leases_ok (s\<lparr>al_db := db, al_recovery := recovery\<rparr>)"
    by (rule leases_ok_mono [of s]) (use assms(1) in \<open>auto simp: alloc_ok_def leases_ok_def allocator_of_def\<close>)
  ultimately show ?thesis using assms by (simp add: alloc_ok_def fast_path_ok_def)
qed

lemma other_write_ok:
  assumes "alloc_ok s" "kv_sorted (db_meta db)"
    "\<And>kind. kv_get (db_meta db) (EncodeAllocatorMetaKey kind) = kv_get (db_meta (al_db s)) (EncodeAllocatorMetaKey kind)"
  shows "alloc_ok (s\<lparr>al_db := db\<rparr>)"
proof -
  have "reserves (db_meta db) kind n given \<longleftrightarrow> reserves (db_meta (al_db s)) kind n given" for kind n given
    by (simp only: reserves_def assms(3))
  with assms(1,2) have "durable (s\<lparr>al_db := db, al_recovery := al_recovery s\<rparr>)"
    by (simp add: alloc_ok_def durable_def allocator_of_def)
  from database_ok [OF assms(1) this] show ?thesis by simp
qed

text \<open>The last step of either operation: what its write of the record leads to.\<close>

lemma extend_lease_Inr:
  assumes "extend_lease engine lease_size s = (Inr (start, l), s')"
  obtains s1 where "\<not> lease_size > - 1 - al_transaction s"
    "persist_allocator engine IdTransaction (al_transaction s + lease_size) s = (OK, s1)"
    "s' = s1\<lparr>al_transaction := al_transaction s + lease_size\<rparr>" "start = al_transaction s" "l = al_transaction s + lease_size"
proof -
  obtain r s1 where wrote: "persist_allocator engine IdTransaction (al_transaction s + lease_size) s = (r, s1)" by fastforce
  define full where "full \<longleftrightarrow> lease_size > - 1 - al_transaction s"
  have "\<not> full \<and> r = OK \<and> s' = s1\<lparr>al_transaction := al_transaction s + lease_size\<rparr> \<and>
      start = al_transaction s \<and> l = al_transaction s + lease_size"
    using assms unfolding extend_lease_def Let_def wrote full_def [symmetric] by (cases r) (auto split: if_splits)
  with that [of s1] wrote show thesis unfolding full_def by blast
qed

lemma extend_lease_Inl:
  assumes "extend_lease engine lease_size s = (Inl e, s')" "s' \<noteq> s"
  shows "\<not> lease_size > - 1 - al_transaction s"
    "persist_allocator engine IdTransaction (al_transaction s + lease_size) s = (Inl e, s')"
proof -
  obtain r s1 where wrote: "persist_allocator engine IdTransaction (al_transaction s + lease_size) s = (r, s1)" by fastforce
  define full where "full \<longleftrightarrow> lease_size > - 1 - al_transaction s"
  have "\<not> full \<and> r = Inl e \<and> s' = s1"
    using assms unfolding extend_lease_def Let_def wrote full_def [symmetric] by (cases r) (auto split: if_splits)
  with wrote show "\<not> lease_size > - 1 - al_transaction s"
    "persist_allocator engine IdTransaction (al_transaction s + lease_size) s = (Inl e, s')"
    unfolding full_def by blast+
qed

lemma extended_ok:
  assumes "write_engine engine" "alloc_ok s" "al_pc s t = LeaseLocked"
    "extend_lease engine lease_size s = (Inr (start, l), s')"
  shows "alloc_ok (move t (StoreNext start l) s')" (is "alloc_ok ?s")
proof -
  have ok: "durable s" "leases_ok s" "fast_path_ok s" using assms(2) by (simp_all add: alloc_ok_def)
  have mine: "pc_ok s t LeaseLocked" using ok(3) assms(3) by (metis fast_path_ok_def)
  let ?l = "al_transaction s + lease_size"
  from assms(4) obtain s1 where room: "\<not> lease_size > - 1 - al_transaction s" and
    wrote: "persist_allocator engine IdTransaction ?l s = (OK, s1)" and
    new: "s' = s1\<lparr>al_transaction := ?l\<rparr>" "start = al_transaction s" "l = ?l"
    by (rule extend_lease_Inr)
  have grows: "al_transaction s \<le> ?l" using word_room [OF room] by simp
  note stored = durable_persist [OF assms(1) wrote ok(1)]
  from stored(3) grows obtain db recovery where s1: "s1 = s\<lparr>al_db := db, al_recovery := recovery\<rparr>" by auto
  have "durable ?s"
    using stored(1) stored(2) [of True] stored(2) [of "al_issued s \<noteq> [] \<or> al_next s \<noteq> ?l"] grows
    unfolding new(1) s1 by (simp add: durable_def allocator_of_def)
  moreover have "leases_ok ?s"
    by (rule leases_ok_mono [OF ok(2)]) (use ok(2) in \<open>auto simp: new s1 leases_ok_def allocator_of_def\<close>)
  moreover have "fast_path_ok ?s"
  proof -
    have "pc_ok ?s u (al_pc s u)" if "u \<noteq> t" for u
      by (rule pc_ok_cong [of s]) (use ok(3) mine that in \<open>auto simp: fast_path_ok_def new s1\<close>)
    with ok(3) mine grows show ?thesis by (auto simp: fast_path_ok_def new s1)
  qed
  ultimately show ?thesis by (simp add: alloc_ok_def)
qed

lemma extend_failed_ok:
  assumes "write_engine engine" "alloc_ok s" "al_pc s t = LeaseLocked" "extend_lease engine lease_size s = (Inl e, s')"
  shows "alloc_ok (move t Idle (s'\<lparr>al_lease_mutex := None\<rparr>))"
proof -
  let ?l = "al_transaction s + lease_size"
  have "alloc_ok s' \<and> al_pc s' = al_pc s"
  proof (cases "s' = s")
    case False
    note wrote = extend_lease_Inl [OF assms(4) False]
    have "durable s" using assms(2) by (simp add: alloc_ok_def)
    note stored = durable_persist [OF assms(1) wrote(2) this]
    have grows: "al_transaction s \<le> ?l" using word_room [OF wrote(1)] by simp
    with stored(3) obtain db recovery where s': "s' = s\<lparr>al_db := db, al_recovery := recovery\<rparr>" by auto
    have "durable (s\<lparr>al_db := db, al_recovery := recovery\<rparr>)" using stored(1) grows s' by simp
    from database_ok [OF assms(2) this] show ?thesis unfolding s' by simp
  qed (use assms(2) in simp)
  with assms(3) show ?thesis by (simp add: unlocked_ok)
qed

lemma set_allocator_simps [simp]:
  "al_db (set_allocator kind n s) = al_db s" "al_next (set_allocator kind n s) = al_next s"
  "al_limit (set_allocator kind n s) = al_limit s" "al_transaction (set_allocator kind n s) = al_transaction s"
  "al_lease_mutex (set_allocator kind n s) = al_lease_mutex s" "al_issued (set_allocator kind n s) = al_issued s"
  "al_leases (set_allocator kind n s) = al_leases s" "al_pc (set_allocator kind n s) = al_pc s"
  by (simp_all add: set_allocator_def)

lemma LeaseIds_cases:
  assumes "LeaseIds engine kind count (Some s) = (r, Some s')"
  obtains (unchanged) "s' = s" "\<not> ok r"
  | (tried) q s1 n where "kind \<in> {IdVertex, IdEdge}" "n \<noteq> 0" "\<not> n > - 1 - allocator_of kind s"
      "persist_allocator engine kind (allocator_of kind s + n) s = (q, s1)"
      "q \<noteq> OK \<Longrightarrow> \<not> ok r \<and> s' = s1"
      "q = OK \<Longrightarrow> r = Inr \<lparr>il_kind = kind, il_first = allocator_of kind s1, il_count = n\<rparr> \<and>
         s' = set_allocator kind (allocator_of kind s + n) s1"
proof -
  define n where "n = (if count = 0 then kDefaultEntityIdLeaseSize else count)"
  define full where "full \<longleftrightarrow> n > - 1 - allocator_of kind s"
  obtain q s1 where wrote: "persist_allocator engine kind (allocator_of kind s + n) s = (q, s1)" by fastforce
  have n: "n \<noteq> 0" by (simp add: n_def kDefaultEntityIdLeaseSize_def)
  note unfolded = assms [unfolded LeaseIds_def lease_open_def Let_def option.case n_def [symmetric] wrote full_def [symmetric]]
  show thesis
  proof (cases "(kind \<noteq> IdVertex \<and> kind \<noteq> IdEdge) \<or> al_recovery s \<or> full")
    case True
    with unfolded have "s' = s" "\<not> ok r" by (auto split: if_splits)
    then show thesis by (rule unchanged)
  next
    case False
    then have kind: "kind \<in> {IdVertex, IdEdge}" and "\<not> full" by auto
    then have room: "\<not> n > - 1 - allocator_of kind s" unfolding full_def by blast
    from unfolded False have "q \<noteq> OK \<Longrightarrow> \<not> ok r \<and> s' = s1"
      "q = OK \<Longrightarrow> r = Inr \<lparr>il_kind = kind, il_first = allocator_of kind s1, il_count = n\<rparr> \<and>
         s' = set_allocator kind (allocator_of kind s + n) s1"
      by (cases q; auto split: if_splits)+
    then show thesis by (rule tried [OF kind n room wrote])
  qed
qed

lemma lease_failed_ok:
  assumes "write_engine engine" "alloc_ok s" "LeaseIds engine kind count (Some s) = (Inl e, Some s')"
  shows "alloc_ok s'"
  using assms(3)
proof (cases rule: LeaseIds_cases)
  case (tried q s1 n)
  have s': "s' = s1" "q \<noteq> OK" using tried(5,6) by auto
  have "durable s" using assms(2) by (simp add: alloc_ok_def)
  note stored = durable_persist [OF assms(1) tried(4) this]
  have grows: "allocator_of kind s \<le> allocator_of kind s + n" using word_room [OF tried(3)] by simp
  with stored(3) tried(1) obtain db recovery where s1: "s1 = s\<lparr>al_db := db, al_recovery := recovery\<rparr>" by auto
  have "durable (s\<lparr>al_db := db, al_recovery := recovery\<rparr>)" using stored(1) grows tried(1) s1 by simp
  from database_ok [OF assms(2) this] show ?thesis unfolding s' s1 .
qed (use assms(2) in simp)

lemma allocator_of_set:
  "kind \<in> {IdVertex, IdEdge} \<Longrightarrow> kind' \<in> {IdVertex, IdEdge} \<Longrightarrow>
   allocator_of kind' (set_allocator kind n s) = (if kind' = kind then n else allocator_of kind' s)"
  by (auto simp: allocator_of_def set_allocator_def)

lemma allocator_of_frame [simp]:
  "allocator_of kind (s\<lparr>al_db := db\<rparr>) = allocator_of kind s"
  "allocator_of kind (s\<lparr>al_recovery := r\<rparr>) = allocator_of kind s"
  "allocator_of kind (s\<lparr>al_leases := ls\<rparr>) = allocator_of kind s"
  by (simp_all add: allocator_of_def)

lemma leased_ok:
  assumes "write_engine engine" "alloc_ok s" "LeaseIds engine kind count (Some s) = (Inr given, Some s')"
  shows "alloc_ok (s'\<lparr>al_leases := given # al_leases s'\<rparr>)" (is "alloc_ok ?s")
  using assms(3)
proof (cases rule: LeaseIds_cases)
  case (tried q s1 n)
  let ?next = "allocator_of kind s + n"
  have ok: "durable s" "leases_ok s" "fast_path_ok s" using assms(2) by (simp_all add: alloc_ok_def)
  have q: "q = OK" using tried(5) by auto
  note stored = durable_persist [OF assms(1) tried(4) ok(1)]
  have room: "allocator_of kind s \<le> ?next" "unat ?next = unat (allocator_of kind s) + unat n"
    using word_room [OF tried(3)] by simp_all
  have bigger: "allocator_of kind s < ?next"
    using room(2) tried(2) by (simp add: word_less_nat_alt unat_gt_0)
  from stored(3) room(1) tried(1) obtain db recovery where s1: "s1 = s\<lparr>al_db := db, al_recovery := recovery\<rparr>" by auto
  have given: "given = \<lparr>il_kind = kind, il_first = allocator_of kind s, il_count = n\<rparr>" "s' = set_allocator kind ?next s1"
    using tried(6) [OF q] by (simp_all add: s1)
  have nonzero: "allocator_of k s \<noteq> 0" for k using ok(2) by (simp add: leases_ok_def allocator_of_def)
  have same: "al_transaction ?s = al_transaction s" "al_next ?s = al_next s" "al_limit ?s = al_limit s" "al_pc ?s = al_pc s"
    "al_lease_mutex ?s = al_lease_mutex s" "al_issued ?s = al_issued s" "al_leases ?s = given # al_leases s" "al_db ?s = db"
    by (simp_all add: given s1)
  have alloc: "allocator_of k s' = (if k = kind then ?next else allocator_of k s)" if "k \<in> {IdVertex, IdEdge}" for k
    using that tried(1) by (simp add: given(2) allocator_of_set s1)
  have "durable ?s"
  proof -
    have keep: "reserves (db_meta db) IdTransaction (al_transaction s) (al_issued s \<noteq> [] \<or> al_next s \<noteq> al_transaction s)"
      "kv_sorted (db_meta db)"
      "\<And>k. k \<in> {IdVertex, IdEdge} \<Longrightarrow> reserves (db_meta db) k (allocator_of k s) (k \<in> il_kind ` set (al_leases s))"
      using stored(1) room(1) tried(1) unfolding s1 by (simp_all add: durable_def) blast
    have "reserves (db_meta db) kind ?next True" using stored(2) [OF _ q] room(1) tried(1) by (simp add: s1)
    with keep show ?thesis unfolding durable_def same using tried(1)
      by (auto simp: alloc given(1))
  qed
  moreover have "leases_ok ?s"
  proof -
    have "al_vertex ?s \<noteq> 0 \<and> al_edge ?s \<noteq> 0"
      using alloc [of IdVertex] alloc [of IdEdge] nonzero [of IdVertex] nonzero [of IdEdge] bigger by (auto simp: allocator_of_def split: if_splits)
    moreover have "0 < il_first given \<and> il_first given < lease_end given \<and> lease_end given = ?next"
      using bigger nonzero by (simp add: given(1) lease_end_def word_neq_0_conv)
    moreover have "lease_end g \<le> allocator_of (il_kind g) s' \<and> (il_kind g = kind \<longrightarrow> lease_end g \<le> allocator_of kind s)"
      if "g \<in> set (al_leases s)" for g
    proof -
      have "il_kind g \<in> {IdVertex, IdEdge}" "lease_end g \<le> allocator_of (il_kind g) s"
        using ok(2) that by (auto simp: leases_ok_def)
      with alloc room(1) show ?thesis by (auto intro: order.trans)
    qed
    ultimately show ?thesis
      using ok(2) tried(1) alloc [OF tried(1)] unfolding leases_ok_def same by (auto simp: given(1))
  qed
  moreover have "fast_path_ok ?s"
  proof -
    have "pc_ok ?s t (al_pc s t)" for t
      by (rule pc_ok_cong [of s]) (use ok(3) same in \<open>auto simp: fast_path_ok_def\<close>)
    with ok(3) show ?thesis unfolding fast_path_ok_def same by blast
  qed
  ultimately show ?thesis by (simp add: alloc_ok_def)
qed simp

lemma step_ok:
  assumes "write_engine engine" "alloc_step engine lease_size s s'" "alloc_ok s"
  shows "alloc_ok s'"
  using assms(2,3)
proof cases
  case (load_limit t n)
  then show ?thesis using assms(3) by (simp add: moved_ok)
next
  case (retry t n)
  then show ?thesis using assms(3) by (simp add: unlocked_ok)
next
  case (extend t start l s1)
  then show ?thesis using assms(1,3) by (simp add: extended_ok)
next
  case (extend_failed t e s1)
  then show ?thesis using assms(1,3) by (simp add: extend_failed_ok)
next
  case (lease kind count given s1)
  then show ?thesis using leased_ok [OF assms(1,3) lease(2)] by simp
next
  case (lease_failed kind count e)
  then show ?thesis by (simp add: lease_failed_ok [OF assms(1,3)])
next
  case (reopen retention vertex edge transaction)
  then show ?thesis using reopened_ok [OF assms(3)] by simp
qed (use assms(3) in \<open>simp_all add: moved_ok taken_ok held_ok reloaded_ok exhausted_ok stored_next_ok stored_limit_ok other_write_ok\<close>)

lemma reach_ok: "alloc_reach engine lease_size s \<Longrightarrow> write_engine engine \<Longrightarrow> alloc_ok s"
  by (induction rule: alloc_reach.induct) (auto intro: fresh_open_ok step_ok)

section \<open>A thread on its own\<close>

text \<open>
  What the function does for a thread that no other interrupts: an ID of the current lease, or
  the first ID of a lease it makes durable. The steps of the thread lead there.
\<close>

definition AllocateTransactionId :: "engine \<Rightarrow> u64 \<Rightarrow> alloc_state \<Rightarrow> txn_id status_or \<times> alloc_state" where
  "AllocateTransactionId engine lease_size s =
     (if al_recovery s
      then (Inl (Status_init kRecoveryRequired ''transaction'' ''reopen required after indeterminate write''), s)
      else if al_next s < al_limit s
      then (Inr (al_next s), s\<lparr>al_next := al_next s + 1, al_issued := al_next s # al_issued s\<rparr>)
      else case extend_lease engine lease_size s of
        (Inl e, s') \<Rightarrow> (Inl e, s')
      | (Inr (start, l), s') \<Rightarrow>
          (Inr start, s'\<lparr>al_limit := l, al_next := start + 1, al_issued := start # al_issued s'\<rparr>))"

lemma move_move [simp]: "move t p (move t q s) = move t p s"
  by (simp add: move_def)

lemma move_id: "al_pc s t = pc \<Longrightarrow> move t pc s = s"
  by (simp add: move_def fun_upd_idem)

lemma reach_loaded:
  assumes "alloc_reach engine lease_size s" "al_pc s t = Idle" "\<not> al_recovery s"
  shows "alloc_reach engine lease_size (move t (LoadedLimit (al_next s) (al_limit s)) s)"
proof -
  have 0: "alloc_reach engine lease_size (move t Checked s)"
    using assms by (blast intro: alloc_reach.stepped alloc_step.check)
  have 1: "alloc_reach engine lease_size (move t (LoadedNext (al_next s)) s)"
    using alloc_reach.stepped [OF 0 alloc_step.load_next [of _ t]] by simp
  show ?thesis using alloc_reach.stepped [OF 1 alloc_step.load_limit [of _ t "al_next s"]] by simp
qed

lemma reach_take:
  assumes "alloc_reach engine lease_size s" "al_pc s t = Idle" "\<not> al_recovery s" "al_next s < al_limit s"
  shows "alloc_reach engine lease_size (s\<lparr>al_next := al_next s + 1, al_issued := al_next s # al_issued s\<rparr>)"
proof -
  note 2 = reach_loaded [OF assms(1-3)]
  have "alloc_reach engine lease_size (move t Idle ((move t (LoadedLimit (al_next s) (al_limit s)) s)
      \<lparr>al_next := al_next s + 1, al_issued := al_next s # al_issued s\<rparr>))"
    using alloc_reach.stepped [OF 2 alloc_step.take_id [of _ t "al_next s" "al_limit s"]] assms(4) by simp
  moreover have "move t Idle ((move t (LoadedLimit (al_next s) (al_limit s)) s)
      \<lparr>al_next := al_next s + 1, al_issued := al_next s # al_issued s\<rparr>) =
      s\<lparr>al_next := al_next s + 1, al_issued := al_next s # al_issued s\<rparr>"
    using assms(2) by (simp add: move_def fun_upd_idem)
  ultimately show ?thesis by simp
qed

lemma reach_locked:
  assumes "alloc_reach engine lease_size s" "al_pc s t = Idle" "\<not> al_recovery s" "\<not> al_next s < al_limit s"
    "al_lease_mutex s = None"
  shows "alloc_reach engine lease_size (move t LeaseLocked (s\<lparr>al_lease_mutex := Some t\<rparr>))"
proof -
  let ?m = "s\<lparr>al_lease_mutex := Some t\<rparr>"
  have 3: "alloc_reach engine lease_size (move t LeaseWanted s)"
    using alloc_reach.stepped [OF reach_loaded [OF assms(1-3)] alloc_step.miss [of _ t "al_next s" "al_limit s"]] by simp
  have "alloc_reach engine lease_size (move t LeaseHeld ((move t LeaseWanted s)\<lparr>al_lease_mutex := Some t\<rparr>))"
    using alloc_reach.stepped [OF 3 alloc_step.lock [of _ t]] assms(5) by simp
  then have 4: "alloc_reach engine lease_size (move t LeaseHeld ?m)" by (simp add: move_def)
  have 5: "alloc_reach engine lease_size (move t (HeldNext (al_next s)) ?m)"
    using alloc_reach.stepped [OF 4 alloc_step.reload_next [of _ t]] by simp
  show ?thesis
    using alloc_reach.stepped [OF 5 alloc_step.exhausted [of _ t "al_next s"]] assms(4) by simp
qed

lemma persist_frame:
  "persist_allocator engine kind n (move t pc (s\<lparr>al_lease_mutex := m\<rparr>)) =
   (let (r, s') = persist_allocator engine kind n s in (r, move t pc (s'\<lparr>al_lease_mutex := m\<rparr>)))"
  by (simp add: persist_allocator_def move_def Let_def split: sum.split prod.split rocks_status.split)

lemma extend_frame:
  "extend_lease engine lease_size (move t pc (s\<lparr>al_lease_mutex := m\<rparr>)) =
   (let (r, s') = extend_lease engine lease_size s in (r, move t pc (s'\<lparr>al_lease_mutex := m\<rparr>)))"
proof -
  define full where "full \<longleftrightarrow> lease_size > - 1 - al_transaction s"
  obtain r s1 where wrote: "persist_allocator engine IdTransaction (al_transaction s + lease_size) s = (r, s1)" by fastforce
  have same: "al_transaction (move t pc (s\<lparr>al_lease_mutex := m\<rparr>)) = al_transaction s"
    "al_recovery (move t pc (s\<lparr>al_lease_mutex := m\<rparr>)) = al_recovery s" by simp_all
  show ?thesis
    unfolding extend_lease_def Let_def persist_frame same full_def [symmetric] wrote
    by (cases r) (simp_all add: move_def)
qed

lemma extend_keeps:
  assumes "extend_lease engine lease_size s = (r, s')"
  shows "al_pc s' = al_pc s" "al_lease_mutex s' = al_lease_mutex s" "r = Inr x \<Longrightarrow> \<not> al_recovery s'"
proof -
  define full where "full \<longleftrightarrow> lease_size > - 1 - al_transaction s"
  obtain q s1 where wrote: "persist_allocator engine IdTransaction (al_transaction s + lease_size) s = (q, s1)" by fastforce
  then have "al_pc s1 = al_pc s \<and> al_lease_mutex s1 = al_lease_mutex s \<and> (q = OK \<longrightarrow> al_recovery s1 = al_recovery s)"
    by (auto simp: persist_allocator_def Let_def split: sum.splits prod.splits rocks_status.splits)
  with assms have "al_pc s' = al_pc s \<and> al_lease_mutex s' = al_lease_mutex s \<and> (r = Inr x \<longrightarrow> \<not> al_recovery s')"
    unfolding extend_lease_def Let_def full_def [symmetric] wrote by (cases q) (auto split: if_splits)
  then show "al_pc s' = al_pc s" "al_lease_mutex s' = al_lease_mutex s" "r = Inr x \<Longrightarrow> \<not> al_recovery s'" by blast+
qed

lemma reach_alone:
  assumes "alloc_reach engine lease_size s" "al_pc s t = Idle" "al_lease_mutex s = None" "lease_size \<noteq> 0"
  shows "alloc_reach engine lease_size (snd (AllocateTransactionId engine lease_size s))"
proof (cases "al_recovery s \<or> al_next s < al_limit s")
  case True
  then show ?thesis using reach_take [OF assms(1,2)] assms(1) by (auto simp: AllocateTransactionId_def)
next
  case False
  let ?s = "move t LeaseLocked (s\<lparr>al_lease_mutex := Some t\<rparr>)"
  have locked: "alloc_reach engine lease_size ?s" using reach_locked [OF assms(1,2)] False assms(3) by simp
  have at: "al_pc ?s t = LeaseLocked" by simp
  obtain r s' where extended: "extend_lease engine lease_size s = (r, s')" by fastforce
  then have here: "extend_lease engine lease_size ?s = (r, move t LeaseLocked (s'\<lparr>al_lease_mutex := Some t\<rparr>))"
    by (simp add: extend_frame)
  note kept = extend_keeps [OF extended]
  have result: "AllocateTransactionId engine lease_size s =
      (case r of Inl e \<Rightarrow> (Inl e, s')
       | Inr (start, l) \<Rightarrow> (Inr start, s'\<lparr>al_limit := l, al_next := start + 1, al_issued := start # al_issued s'\<rparr>))"
    using False extended by (simp add: AllocateTransactionId_def)
  show ?thesis
  proof (cases r)
    case (Inl e)
    have "alloc_reach engine lease_size (move t Idle ((move t LeaseLocked (s'\<lparr>al_lease_mutex := Some t\<rparr>))\<lparr>al_lease_mutex := None\<rparr>))"
      by (rule alloc_reach.stepped [OF locked alloc_step.extend_failed [OF at here [unfolded Inl]]])
    moreover have "move t Idle ((move t LeaseLocked (s'\<lparr>al_lease_mutex := Some t\<rparr>))\<lparr>al_lease_mutex := None\<rparr>) = s'"
      using kept(1,2) assms(2,3) by (simp add: move_def fun_upd_idem)
    ultimately show ?thesis by (simp add: result Inl)
  next
    case (Inr lease)
    obtain start l where lease: "lease = (start, l)" by fastforce
    let ?s1 = "move t (StoreNext start l) (s'\<lparr>al_lease_mutex := Some t\<rparr>)"
    let ?s2 = "move t (StoreLimit l) (?s1\<lparr>al_next := start\<rparr>)"
    let ?s3 = "s'\<lparr>al_next := start, al_limit := l\<rparr>"
    have 1: "alloc_reach engine lease_size ?s1"
      using alloc_reach.stepped [OF locked alloc_step.extend [OF at here [unfolded Inr lease]]] by simp
    have 2: "alloc_reach engine lease_size ?s2"
      by (rule alloc_reach.stepped [OF 1 alloc_step.store_next]) simp
    have 3: "alloc_reach engine lease_size (move t Idle (?s2\<lparr>al_limit := l, al_lease_mutex := None\<rparr>))"
      by (rule alloc_reach.stepped [OF 2 alloc_step.store_limit]) simp
    moreover have "move t Idle (?s2\<lparr>al_limit := l, al_lease_mutex := None\<rparr>) = ?s3"
      using kept(1,2) assms(2,3) by (simp add: move_def fun_upd_idem)
    ultimately have 4: "alloc_reach engine lease_size ?s3" by simp
    from extended have "start < l" unfolding Inr lease
    proof (rule extend_lease_Inr)
      fix s1 assume "\<not> lease_size > - 1 - al_transaction s" "start = al_transaction s" "l = al_transaction s + lease_size"
      then show "start < l" using word_room [of "al_transaction s" lease_size] assms(4)
        by (simp add: word_less_nat_alt unat_gt_0)
    qed
    with reach_take [OF 4, of t] kept(1) kept(3) [OF Inr] assms(2) show ?thesis by (simp add: result Inr lease)
  qed
qed

section \<open>IDs never repeat\<close>

lemma lease_ids_disjoint: "lease_end b \<le> il_first a \<Longrightarrow> lease_ids a \<inter> lease_ids b = {}"
  by (auto simp: lease_ids_def)

lemma lease_no_wrap: "il_first given < lease_end given \<Longrightarrow> unat (il_first given) + unat (il_count given) < 2 ^ 64"
proof (rule ccontr)
  assume grows: "il_first given < lease_end given" and wraps: "\<not> unat (il_first given) + unat (il_count given) < 2 ^ 64"
  then have "unat (lease_end given) = unat (il_first given) + unat (il_count given) - 2 ^ 64"
    by (simp add: lease_end_def unat_plus_if')
  with grows unat_less_exp [of "il_count given"] show False unfolding word_less_nat_alt by linarith
qed

lemma decreasing_distinct: "sorted_wrt (>) (xs :: u64 list) \<Longrightarrow> distinct xs"
  by (induction xs) auto

text \<open>
  C8: IDs are never given out twice. Along every interleaving of any number of threads that
  allocate transaction IDs, of ID leases, of writes by other parts of the store and of crashes
  with reopening, with an engine whose writes are atomic and may fail at any moment, before or
  after becoming durable: the transaction IDs returned are pairwise distinct and not zero, and
  the ranges of two vertex or two edge leases are disjoint, do not contain zero and do not wrap
  around.
\<close>

theorem ids_never_repeat:
  assumes "write_engine engine" "alloc_reach engine (TransactionIdLeaseSize configured) s"
  shows "distinct (al_issued s) \<and> 0 \<notin> set (al_issued s) \<and>
    sorted_wrt (\<lambda>a b. il_kind a = il_kind b \<longrightarrow> lease_ids a \<inter> lease_ids b = {}) (al_leases s) \<and>
    (\<forall>given \<in> set (al_leases s).
       il_kind given \<in> {IdVertex, IdEdge} \<and> il_first given \<in> lease_ids given \<and> 0 \<notin> lease_ids given \<and>
       unat (il_first given) + unat (il_count given) < 2 ^ 64)"
proof -
  have ok: "leases_ok s" "fast_path_ok s" using reach_ok [OF assms(2,1)] by (simp_all add: alloc_ok_def)
  have "sorted_wrt (>) (al_issued s)" using ok(2) by (simp add: fast_path_ok_def)
  then have "distinct (al_issued s)" by (rule decreasing_distinct)
  moreover have "sorted_wrt (\<lambda>a b. il_kind a = il_kind b \<longrightarrow> lease_ids a \<inter> lease_ids b = {}) (al_leases s)"
    by (rule sorted_wrt_mono_rel [of _ "\<lambda>a b. il_kind a = il_kind b \<longrightarrow> lease_end b \<le> il_first a"])
      (use ok(1) in \<open>auto simp: leases_ok_def dest: lease_ids_disjoint\<close>)
  moreover have "\<forall>given \<in> set (al_leases s). il_kind given \<in> {IdVertex, IdEdge} \<and> il_first given \<in> lease_ids given \<and>
      0 \<notin> lease_ids given \<and> unat (il_first given) + unat (il_count given) < 2 ^ 64"
  proof
    fix given assume "given \<in> set (al_leases s)"
    then have "il_kind given \<in> {IdVertex, IdEdge}" "0 < il_first given" "il_first given < lease_end given"
      using ok(1) by (auto simp: leases_ok_def)
    with lease_no_wrap show "il_kind given \<in> {IdVertex, IdEdge} \<and> il_first given \<in> lease_ids given \<and>
      0 \<notin> lease_ids given \<and> unat (il_first given) + unat (il_count given) < 2 ^ 64"
      by (auto simp: lease_ids_def)
  qed
  moreover have "0 \<notin> set (al_issued s)" using ok(2) by (auto simp: fast_path_ok_def)
  ultimately show ?thesis by blast
qed

text \<open>A store that issues an ID, crashes, issues another one and leases three vertex IDs.\<close>

definition allocator_record_bytes :: "id_kind \<Rightarrow> u64 \<Rightarrow> bytes" where
  "allocator_record_bytes kind n =
     frame (meta_kind_byte MetaIdAllocator) (allocator_payload \<lparr>ia_kind = kind, ia_next_id = n\<rparr>)"

definition allocators_at :: "kv \<Rightarrow> u64 \<Rightarrow> u64 \<Rightarrow> u64 \<Rightarrow> u64 \<Rightarrow> txn_id list \<Rightarrow> id_lease list \<Rightarrow> alloc_state" where
  "allocators_at meta next_id limit vertex edge issued leases =
     \<lparr>al_db = \<lparr>db_facts = [], db_meta = meta\<rparr>, al_recovery = False, al_next = next_id, al_limit = limit,
      al_transaction = limit, al_vertex = vertex, al_edge = edge, al_lease_mutex = None, al_pc = \<lambda>_. Idle,
      al_issued = issued, al_leases = leases\<rparr>"

lemma allocator_record_encoded:
  "n \<noteq> 0 \<Longrightarrow> kind \<in> {IdVertex, IdEdge, IdTransaction} \<Longrightarrow>
   EncodeIdAllocatorState \<lparr>ia_kind = kind, ia_next_id = n\<rparr> = Inr (allocator_record_bytes kind n)"
  by (auto simp: allocator_record.encode_iff allocator_record_bytes_def IdAllocatorState_Validate_def
      allocator_payload_def kMaxPayloadBytes_def)

lemma allocator_record_decoded:
  "n \<noteq> 0 \<Longrightarrow> kind \<in> {IdVertex, IdEdge, IdTransaction} \<Longrightarrow>
   DecodeIdAllocatorState (allocator_record_bytes kind n) = Inr \<lparr>ia_kind = kind, ia_next_id = n\<rparr>"
  by (simp add: allocator_record.decode_encode allocator_record_encoded)

definition one_lease :: kv where
  "one_lease = [(EncodeAllocatorMetaKey IdTransaction, allocator_record_bytes IdTransaction 5)]"

lemma first_allocation:
  "AllocateTransactionId kv_engine 4 (allocators_at [] 1 1 1 1 [] []) = (Inr 1, allocators_at one_lease 2 5 1 1 [1] [])"
  by (simp add: AllocateTransactionId_def extend_lease_def persist_allocator_def allocators_at_def
      allocator_record_encoded kv_engine_def apply_batch_def one_lease_def)

lemma reopened_allocators: "open_allocators one_lease 0 = Inr (1, 1, 5)"
  by (simp add: open_allocators_def LoadAllocatorState_def LoadTransactionAllocatorState_def one_lease_def
      kv_get_def allocator_record_decoded)

definition two_leases :: kv where
  "two_leases = [(EncodeAllocatorMetaKey IdTransaction, allocator_record_bytes IdTransaction 9)]"

definition vertex_lease :: id_lease where
  "vertex_lease = \<lparr>il_kind = IdVertex, il_first = 1, il_count = 3\<rparr>"

definition three_leases :: kv where
  "three_leases = kv_put (EncodeAllocatorMetaKey IdVertex) (allocator_record_bytes IdVertex 4) two_leases"

lemma second_allocation:
  "AllocateTransactionId kv_engine 4 (allocators_at one_lease 5 5 1 1 [1] []) = (Inr 5, allocators_at two_leases 6 9 1 1 [5, 1] [])"
  by (simp add: AllocateTransactionId_def extend_lease_def persist_allocator_def allocators_at_def
      allocator_record_encoded kv_engine_def apply_batch_def one_lease_def two_leases_def bytes_less_irrefl)

lemma vertex_allocation:
  "LeaseIds kv_engine IdVertex 3 (Some (allocators_at two_leases 6 9 1 1 [5, 1] [])) =
   (Inr vertex_lease, Some (allocators_at three_leases 6 9 4 1 [5, 1] []))"
  by (simp add: LeaseIds_def lease_open_def persist_allocator_def allocators_at_def allocator_of_def set_allocator_def
      allocator_record_encoded kv_engine_def apply_batch_def three_leases_def vertex_lease_def)

definition sample_allocators :: alloc_state where
  "sample_allocators = allocators_at three_leases 6 9 4 1 [5, 1] [vertex_lease]"

lemma sample_allocators_reach: "alloc_reach kv_engine 4 sample_allocators"
proof -
  have "open_allocators [] 0 = Inr (1, 1, 1)"
    by (simp add: open_allocators_def LoadAllocatorState_def LoadTransactionAllocatorState_def kv_get_def Seek_def)
  from alloc_reach.opened [of "\<lparr>db_facts = [], db_meta = []\<rparr>" 0, unfolded database.simps, OF _ this]
  have "alloc_reach kv_engine 4 (allocators_at [] 1 1 1 1 [] [])" by (simp add: allocators_at_def kv_sorted_def)
  from reach_alone [OF this, of 0] have 1: "alloc_reach kv_engine 4 (allocators_at one_lease 2 5 1 1 [1] [])"
    by (simp add: first_allocation) (simp add: allocators_at_def)
  have "open_allocators (db_meta (al_db (allocators_at one_lease 2 5 1 1 [1] []))) 0 = Inr (1, 1, 5)"
    by (simp add: allocators_at_def reopened_allocators)
  from alloc_reach.stepped [OF 1 alloc_step.reopen [OF this]]
  have "alloc_reach kv_engine 4 (allocators_at one_lease 5 5 1 1 [1] [])" by (simp add: allocators_at_def)
  from reach_alone [OF this, of 0] have 2: "alloc_reach kv_engine 4 (allocators_at two_leases 6 9 1 1 [5, 1] [])"
    by (simp add: second_allocation) (simp add: allocators_at_def)
  from alloc_reach.stepped [OF 2 alloc_step.lease [OF vertex_allocation]] show ?thesis
    by (simp add: allocators_at_def sample_allocators_def)
qed

theorem ids_never_repeat_witness:
  "alloc_reach kv_engine (TransactionIdLeaseSize 4) sample_allocators \<and> al_issued sample_allocators = [5, 1] \<and>
   al_leases sample_allocators = [vertex_lease] \<and> distinct (al_issued sample_allocators) \<and> 0 \<notin> lease_ids vertex_lease"
proof -
  have reach: "alloc_reach kv_engine (TransactionIdLeaseSize 4) sample_allocators"
    using sample_allocators_reach by (simp add: TransactionIdLeaseSize_def)
  moreover have "al_issued sample_allocators = [5, 1]" "al_leases sample_allocators = [vertex_lease]"
    by (simp_all add: sample_allocators_def allocators_at_def)
  ultimately show ?thesis using ids_never_repeat [OF kv_engine.write_engine_axioms reach] by simp
qed

end
