(* ===== verification/Spec2Isabelle.thy ===== *)
theory Spec2Isabelle
  imports Sequence_Codec Prepared_Codec State_Reader Commit_Validation Recent_Writes Version_Cache Commit_Retry
    Commit_Grouped Id_Allocation
begin

text \<open>
  A verification library for the storage core of Cedar, a bitemporal graph store. Every fact
  (an entity, an edge, a property) has a history of events; an event holds from a valid time on
  and was committed at a commit sequence. A transaction is submitted as one batch with the
  snapshots it read and wrote from; the store validates it against later commits, writes it
  atomically to a key-value engine and publishes it. A read names a snapshot (a commit
  sequence) and a valid time and gets the event that governs that time.

  \<^bold>\<open>The parts and how they interact.\<close> A commit (\<^verbatim>\<open>FactStore::CommitDirect\<close>,
  \<^verbatim>\<open>FactStore::CommitGrouped\<close> in \<^verbatim>\<open>src/src/storage/rocks/rocks_adapter.cc\<close>) validates the batch,
  checks its dependencies with the help of three in-memory accelerators, encodes facts and
  metadata records with the codecs of \<^verbatim>\<open>src/src/storage/facts\<close>, hands one write batch to the
  engine, and publishes the new sequence to the accelerators and to the readers. Readers seek
  in the facts column family; the temporal layer (\<^verbatim>\<open>src/src/query/temporal\<close>) turns event
  histories into intervals and rows. Vacuum removes versions no snapshot can see, and the ID
  allocators hand out IDs under durable leases.

  \<^bold>\<open>The theories.\<close> Definitions keep the names of the source. A struct is a \<^verbatim>\<open>record\<close> with one
  prefix per type, \<^verbatim>\<open>StatusOr<T>\<close> is the sum type \<^typ>\<open>'a status_or\<close> with every error branch,
  integers are words of the width of the source, byte strings are lists of 8-bit words, and
  state is passed explicitly.

  \<^item> \<open>Cedar_Prelude\<close>: words and byte strings, the status types of \<^verbatim>\<open>core/status.h\<close>, the
    big-endian readers and writers every codec repeats, the bytewise key order, and the shared
    rewrite collections.
  \<^item> \<open>Values\<close>, \<open>Facts\<close>: \<^verbatim>\<open>types/value\<close> and \<^verbatim>\<open>fact/fact.h\<close> with all \<^verbatim>\<open>Validate\<close> methods.
  \<^item> \<open>Crc32c\<close>, \<open>Record_Checksum\<close>: \<^verbatim>\<open>core/crc32c.cc\<close>. The portable and both hardware routines
    agree and a changed byte changes the checksum; the locale \<open>checked_decoder\<close> lifts this to records.
  \<^item> \<open>Fact_Codec\<close>, \<open>Record_Framing\<close>, \<open>Meta_Codec\<close>, \<open>Meta_Keys\<close>, \<open>Sequence_Codec\<close>,
    \<open>Prepared_Codec\<close>: the durable formats of \<^verbatim>\<open>fact_codec.cc\<close>, \<^verbatim>\<open>meta_codec.cc\<close> and
    \<^verbatim>\<open>prepared_commit_codec.cc\<close>. Encoders and decoders are inverse bijections (locales \<open>record_codec\<close>, \<open>item_codec\<close>), fact keys sort in the
    order the readers seek in, and no two keys of the metadata column family, those of prepared
    commits included, collide.
  \<^item> \<open>Commit_Batch\<close>: \<^verbatim>\<open>StoreCommitBatch::Validate\<close> decides the intended conditions.
  \<^item> \<open>Intervals\<close>, \<open>Corrected_Chain\<close>, \<open>State_Reader\<close>, \<open>Read_Spec\<close>: \<^verbatim>\<open>query/temporal\<close>,
    \<^verbatim>\<open>fact/read_spec.h\<close> and the typed parameters of \<^verbatim>\<open>query/types.cc\<close>. Present and missing
    intervals and state rows are those of the governing events, independently of event order.
    Bound parameters keep their types; the typed overloads of \<^verbatim>\<open>Bindings::Bind\<close> call themselves
    and are shown not to return.
  \<^item> \<open>Kv_Store\<close>, \<open>Fact_Reader\<close>: the engine's contract and the point reads over it. What an
    iterator meets first is the governing event.
  \<^item> \<open>Commit_Validation\<close>: snapshot write dependencies, strict reads and edge identities, relative
    to the locale \<open>sound_aids\<close> of what the accelerators may claim.
  \<^item> \<open>Fact_Identity\<close>, \<open>Recent_Writes\<close>, \<open>Version_Cache\<close>: the accelerators, with the locale
    \<open>membership_filter\<close> for the Bloom filters. They never hide a published write; in every
    interleaving of scans, writes, publications and lookups a cache hit lies between what is
    published and what is written, and is exact when these agree.
  \<^item> \<open>Write_Batch\<close>, \<open>Commit_Publisher\<close>, \<open>Group_Commit\<close>: the operations and the size of a committed
    batch, footprints, the byte estimate, group selection and the pending overlay.
  \<^item> \<open>Commit_Store\<close>, \<open>Commit_Retry\<close>, \<open>Commit_Grouped\<close>: the commit path, composed of all of the
    above, for every engine that satisfies the locale \<open>write_engine\<close> (a write is atomic, a
    rejected write changes nothing, any other failure may or may not have become durable). A
    commit of a new transaction publishes exactly its events, is isolated in the dependencies
    it declares, leaves older snapshots unchanged, fails safely, and succeeds when admissible; a
    group commits as its requests would one after the other. A retry after any later commits
    and vacuums changes nothing, and what it answers is given exactly.
  \<^item> \<open>Vacuum_Retention\<close>: \<^verbatim>\<open>vacuum.cc\<close> and the vacuum functions of \<^verbatim>\<open>rocks_adapter.cc\<close>. A vacuum
    returns, is invisible to admissible snapshots, and removes exactly the superseded versions.
  \<^item> \<open>Id_Allocation\<close>: transaction ID allocation and ID leases as a step relation over threads,
    failures and crashes. No ID is given out twice.

  \<^bold>\<open>State and invariants.\<close> \<^typ>\<open>fact_store\<close> is what the publisher mutex protects;
  \<^const>\<open>store_ok\<close> says that the facts column family decodes, that no event lies above the
  visible sequence and that the accelerators are sound for it. Successful
  commits, single or grouped, and every vacuum keep it. \<^const>\<open>alloc_ok\<close> is the invariant of the allocators.

  \<^bold>\<open>Bounds.\<close> No definition uses fuel. Loops are structural recursions or functions with a
  termination proof. The vacuum loop, whose end depends on the cursor it reads back, is a
  partial function whose return is a theorem; binding a parameter is one because some of its
  overloads do not return, and which calls return is a theorem. Batch, key and lease sizes are those of the
  source, at 64 bits with saturation where the source saturates.

  \<^bold>\<open>Assumptions.\<close> The engine is a parameter with the contracts above and its lookups and
  iterators do not fail; the processor's CRC instructions are parameters with their documented
  behaviour. Apart from \<^verbatim>\<open>CommitDirect\<close> and \<^verbatim>\<open>LeaseIds\<close> the operations run on an open store.
  \<^verbatim>\<open>std::sort\<close> is a stable sort, unordered containers are sets or lists, atomics are
  sequentially consistent, and a critical section of the publisher mutex is one step.
  Floating-point values are bit patterns with IEEE equality. Readers run without a memory
  budget. Test-only observers and fault injectors, counters and tracing are absent.

  \<^bold>\<open>Not modelled.\<close> The vendored engine (\<^verbatim>\<open>src/src/engine\<close>) beyond its contract; opening and closing
  apart from the allocators, and snapshot epochs, which are engine handles, reference counts
  and lock ordering, and whose results (the oldest active sequence, the contents at a
  sequence) are arguments here; streaming and columnar scans, which are driven by engine
  iterators with prefetching; the operations that list and resolve prepared transactions and
  the decided-group writes with their write-ahead-log callback; engine configuration and file
  inspection; the kernel's thread pools, clocks and maintenance policies; query planning and
  execution, projections, resources and metrics; the Cypher front end; and the Bolt server.
  The last four groups lie above the storage core and rely on it only through its reads and
  commits; projections are rebuildable from the facts.
\<close>

end
